(* ===== verification/Prelude.thy ===== *)
theory Prelude
  imports Main "HOL-Library.Word" "HOL-Library.Sublist" "HOL-Library.Multiset"
begin

text \<open>
  Shared vocabulary of the development: the machine integers of the x86-64 build, results that
  may be an exception, and the association lists that stand for the standard containers whose
  iteration order the code relies on (or does not).
\<close>

unbundle bit_operations_syntax

section \<open>Machine integers\<close>

text \<open>\<^verbatim>\<open>unsigned long\<close>, \<^verbatim>\<open>std::size_t\<close>, \<^verbatim>\<open>std::uint64_t\<close> on the supported platform.\<close>

type_synonym u64 = "64 word"
type_synonym u32 = "32 word"

named_theorems word_to_nat "facts that move a word comparison or operation to the natural numbers"

lemmas [word_to_nat] = word_le_nat_alt word_less_nat_alt

lemma unat_add_if_fits [word_to_nat]:
  fixes a b :: "'a::len word"
  assumes "unat a + unat b < 2 ^ LENGTH('a)"
  shows "unat (a + b) = unat a + unat b"
  using assms by (simp add: unat_word_ariths)

lemma unat_sub_if_le [word_to_nat]:
  fixes a b :: "'a::len word"
  assumes "unat b \<le> unat a"
  shows "unat (a - b) = unat a - unat b"
  using assms by (simp add: unat_sub word_le_nat_alt)

lemma u64_lt: "unat (x :: u64) < 18446744073709551616"
  using unsigned_less [of x] by simp

section \<open>Results\<close>

text \<open>
  A computation that may throw returns a sum: \<^term>\<open>Inl e\<close> is the exception \<^term>\<open>e\<close>,
  \<^term>\<open>Inr x\<close> the value \<^term>\<open>x\<close>. \<open>and_then\<close> is sequencing: an exception leaves the
  rest of the function unexecuted.
\<close>

fun and_then :: "'e + 'a \<Rightarrow> ('a \<Rightarrow> 'e + 'b) \<Rightarrow> 'e + 'b" where
  "and_then (Inl e) f = Inl e"
| "and_then (Inr x) f = f x"

lemma and_then_Inr [simp]:
  "and_then r f = Inr y \<longleftrightarrow> (\<exists>x. r = Inr x \<and> f x = Inr y)"
  by (cases r) auto

lemma and_then_Inl:
  "and_then r f = Inl e \<longleftrightarrow> r = Inl e \<or> (\<exists>x. r = Inr x \<and> f x = Inl e)"
  by (cases r) auto

lemma and_then_assoc: "and_then (and_then r f) g = and_then r (\<lambda>x. and_then (f x) g)"
  by (cases r) auto

lemma and_then_cong [fundef_cong]:
  assumes "r = r'" and "\<And>x. r' = Inr x \<Longrightarrow> f x = g x"
  shows "and_then r f = and_then r' g"
  using assms by (cases r') auto

text \<open>A guarded exception: \<^verbatim>\<open>if (c) throw e;\<close>\<close>

definition throw_if :: "bool \<Rightarrow> 'e \<Rightarrow> 'e + unit" where
  "throw_if c e = (if c then Inl e else Inr ())"

lemma throw_if_simps [simp]:
  "throw_if True e = Inl e"
  "throw_if False e = Inr ()"
  "throw_if c e = Inr u \<longleftrightarrow> \<not> c"
  by (simp_all add: throw_if_def)

end
