(* ===== verification/Tmmgr.thy ===== *)
theory Tmmgr
  imports Prelude
begin

text \<open>
  The memory manager of the virtual memory layer, \<^verbatim>\<open>src/mmgr/tmmgr.cpp\<close>: one arena
  \<open>[0, mem_size)\<close> that is divided into allocated segments, known by their handle, and free
  segments, indexed three times (by size for best fit, by start and by end for coalescing).

  All sizes and offsets are \<^verbatim>\<open>unsigned long\<close>, so every addition and subtraction below wraps;
  that none of them does is part of what is proved. The argument \<open>dbg\<close> is the build's
  \<^verbatim>\<open>FHG_ASSERT_MODE\<close>: with \<^const>\<open>True\<close> a failed \<^verbatim>\<open>fhg_assert\<close> throws, with
  \<^const>\<open>False\<close> (release builds) it is skipped.
\<close>

section \<open>Alignment\<close>

definition alignDown :: "u64 \<Rightarrow> u64 \<Rightarrow> u64" where
  "alignDown Size Align = (Size AND NOT (Align - 1))"

definition alignUp :: "u64 \<Rightarrow> u64 \<Rightarrow> u64" where
  "alignUp Size Align = alignDown (Size + Align - 1) Align"

section \<open>State\<close>

text \<open>
  \<^verbatim>\<open>std::map<MemSize_t, std::unordered_multiset<Offset_t>>\<close> is a list of buckets in the order of
  the sizes; a bucket lists its offsets in iteration order. The standard leaves that order open:
  every statement below holds for states with any order.
\<close>

type_synonym buckets = "(u64 \<times> u64 list) list"

record tmmgr =
  handle_to_offset_and_size :: "u64 \<rightharpoonup> u64 \<times> u64"
  offset_to_handle :: "u64 \<rightharpoonup> u64"
  free_offset_by_size :: buckets
  free_segment_start :: "u64 \<rightharpoonup> u64"
  free_segment_end :: "u64 \<rightharpoonup> u64"
  align :: u64
  mem_size :: u64
  mem_free :: u64
  high_water :: u64

datatype tmmgr_error =
    unknown_handle u64
  | duplicate_handle u64
  | insufficient_contiguous_memory u64 u64 u64 u64
  | insufficient_memory u64 u64 u64 u64
  | below_mem_used u64 u64 u64 u64
  | below_high_water u64 u64 u64
  | missing_size u64
  | missing_offset u64
  | assertion_failed
  | undefined_behaviour

definition fhg_assert :: "bool \<Rightarrow> bool \<Rightarrow> tmmgr_error + unit" where
  "fhg_assert dbg c = throw_if (dbg \<and> \<not> c) assertion_failed"

section \<open>Free segments\<close>

fun bucket_find :: "u64 \<Rightarrow> buckets \<Rightarrow> u64 list option" where
  "bucket_find s [] = None"
| "bucket_find s ((k, offs) # bs) = (if k = s then Some offs else bucket_find s bs)"

text \<open>\<^verbatim>\<open>_free_offset_by_size[Size].emplace (OffsetStart)\<close>\<close>

fun bucket_emplace :: "u64 \<Rightarrow> u64 \<Rightarrow> buckets \<Rightarrow> buckets" where
  "bucket_emplace s off [] = [(s, [off])]"
| "bucket_emplace s off ((k, offs) # bs) =
     (if s < k then (s, [off]) # (k, offs) # bs
      else if s = k then (k, off # offs) # bs
      else (k, offs) # bucket_emplace s off bs)"

text \<open>Erase one occurrence of an offset, and the bucket when it becomes empty.\<close>

fun bucket_erase :: "u64 \<Rightarrow> u64 \<Rightarrow> buckets \<Rightarrow> buckets" where
  "bucket_erase s off [] = []"
| "bucket_erase s off ((k, offs) # bs) =
     (if k = s
      then (case remove1 off offs of [] \<Rightarrow> bs | offs' \<Rightarrow> (k, offs') # bs)
      else (k, offs) # bucket_erase s off bs)"

text \<open>\<^verbatim>\<open>std::map::lower_bound\<close>: the first bucket whose size is not below the one asked for.\<close>

fun bucket_lower_bound :: "u64 \<Rightarrow> buckets \<Rightarrow> (u64 \<times> u64 list) option" where
  "bucket_lower_bound s [] = None"
| "bucket_lower_bound s (b # bs) = (if s \<le> fst b then Some b else bucket_lower_bound s bs)"

definition delete_free_segment :: "tmmgr \<Rightarrow> u64 \<Rightarrow> u64 \<Rightarrow> tmmgr_error + tmmgr" where
  "delete_free_segment m OffsetStart Size =
     (let OffsetEnd = OffsetStart + Size in
      case bucket_find Size (free_offset_by_size m) of
        None \<Rightarrow> Inl (missing_size Size)
      | Some offs \<Rightarrow>
          if OffsetStart \<notin> set offs then Inl (missing_offset OffsetStart)
          else Inr (m\<lparr>free_offset_by_size := bucket_erase Size OffsetStart (free_offset_by_size m),
                      free_segment_start := (free_segment_start m)(OffsetStart := None),
                      free_segment_end := (free_segment_end m)(OffsetEnd := None)\<rparr>))"

text \<open>\<^verbatim>\<open>emplace\<close> of the two unordered maps keeps an entry that is already there.\<close>

definition map_emplace :: "('k \<rightharpoonup> 'v) \<Rightarrow> 'k \<Rightarrow> 'v \<Rightarrow> ('k \<rightharpoonup> 'v)" where
  "map_emplace m k v = (case m k of None \<Rightarrow> m(k \<mapsto> v) | Some _ \<Rightarrow> m)"

definition insert_free_segment :: "tmmgr \<Rightarrow> u64 \<Rightarrow> u64 \<Rightarrow> tmmgr" where
  "insert_free_segment m OffsetStart Size =
     (if Size > 0
      then let OffsetEnd = OffsetStart + Size in
        m\<lparr>free_offset_by_size := bucket_emplace Size OffsetStart (free_offset_by_size m),
          free_segment_start := map_emplace (free_segment_start m) OffsetStart Size,
          free_segment_end := map_emplace (free_segment_end m) OffsetEnd Size\<rparr>
      else m)"

section \<open>Operations\<close>

definition tmmgr_init :: "u64 \<Rightarrow> u64 \<Rightarrow> tmmgr" where
  "tmmgr_init MemSize Align =
     (let size = alignDown MemSize Align in
      insert_free_segment
        \<lparr>handle_to_offset_and_size = Map.empty, offset_to_handle = Map.empty,
         free_offset_by_size = [], free_segment_start = Map.empty,
         free_segment_end = Map.empty, align = Align, mem_size = size, mem_free = size,
         high_water = 0\<rparr>
        0 size)"

definition resize :: "bool \<Rightarrow> tmmgr \<Rightarrow> u64 \<Rightarrow> tmmgr_error + tmmgr" where
  "resize dbg m NewSizeUnaligned =
     (let NewSize = alignDown NewSizeUnaligned (align m) in
      if NewSize < mem_size m - mem_free m
      then Inl (below_mem_used NewSizeUnaligned NewSize (mem_size m) (mem_free m))
      else if NewSize < high_water m
      then Inl (below_high_water NewSizeUnaligned NewSize (high_water m))
      else let OldSize = mem_size m in
      if NewSize = OldSize then Inr m
      else let Delta = (if NewSize > OldSize then NewSize - OldSize else OldSize - NewSize) in
      and_then
        (case free_segment_end m OldSize of
           Some FreeSize \<Rightarrow>
             and_then (fhg_assert dbg (NewSize > OldSize \<or> Delta \<le> FreeSize)) (\<lambda>_.
             let NewFreeSize = (if NewSize > OldSize then FreeSize + Delta else FreeSize - Delta);
                 OffsetStart = OldSize - FreeSize in
             and_then (delete_free_segment m OffsetStart FreeSize) (\<lambda>m1.
             Inr (insert_free_segment m1 OffsetStart NewFreeSize)))
         | None \<Rightarrow>
             and_then (fhg_assert dbg (NewSize > OldSize)) (\<lambda>_.
             Inr (insert_free_segment m OldSize Delta)))
        (\<lambda>m2. Inr (m2\<lparr>mem_size := NewSize,
                       mem_free := (if NewSize > OldSize then mem_free m2 + Delta
                                    else mem_free m2 - Delta)\<rparr>)))"

definition alloc :: "bool \<Rightarrow> tmmgr \<Rightarrow> u64 \<Rightarrow> u64 \<Rightarrow> tmmgr_error + tmmgr \<times> (u64 \<times> u64)" where
  "alloc dbg m Handle SizeUnaligned =
     (let Size = alignUp SizeUnaligned (align m) in
      if mem_free m < Size
      then Inl (insufficient_memory Handle SizeUnaligned Size (mem_free m))
      else if handle_to_offset_and_size m Handle \<noteq> None
      then Inl (duplicate_handle Handle)
      else case bucket_lower_bound Size (free_offset_by_size m) of
        None \<Rightarrow> Inl (insufficient_contiguous_memory Handle SizeUnaligned Size (mem_free m))
      | Some (_, offs) \<Rightarrow>
          let Offset = hd offs in
          and_then (fhg_assert dbg (Size > 0)) (\<lambda>_.
          and_then (fhg_assert dbg (Size \<le> mem_free m)) (\<lambda>_.
          let m1 = m\<lparr>mem_free := mem_free m - Size,
                     high_water := (if high_water m < Offset + Size then Offset + Size
                                    else high_water m)\<rparr> in
          case free_segment_start m1 Offset of
            None \<Rightarrow> Inl (if dbg then assertion_failed else undefined_behaviour)
          | Some OldFreeSize \<Rightarrow>
              and_then (fhg_assert dbg (Size \<le> OldFreeSize)) (\<lambda>_.
              and_then (fhg_assert dbg (free_segment_end m1 (Offset + OldFreeSize) \<noteq> None)) (\<lambda>_.
              and_then (fhg_assert dbg (free_segment_end m1 (Offset + OldFreeSize) = Some OldFreeSize)) (\<lambda>_.
              let NewFreeSize = OldFreeSize - Size in
              and_then (delete_free_segment m1 Offset OldFreeSize) (\<lambda>m2.
              let m3 = insert_free_segment m2 (Offset + Size) NewFreeSize in
              Inr (m3\<lparr>handle_to_offset_and_size :=
                        map_emplace (handle_to_offset_and_size m3) Handle (Offset, Size),
                      offset_to_handle := map_emplace (offset_to_handle m3) Offset Handle\<rparr>,
                   (Offset, Size)))))))))"

definition free :: "bool \<Rightarrow> tmmgr \<Rightarrow> u64 \<Rightarrow> tmmgr_error + tmmgr" where
  "free dbg m Handle =
     (case handle_to_offset_and_size m Handle of
        None \<Rightarrow> Inl (unknown_handle Handle)
      | Some (Offset, Size) \<Rightarrow>
          and_then (fhg_assert dbg (Size > 0)) (\<lambda>_.
          let PSizeL = free_segment_end m Offset;
              PSizeR = free_segment_start m (Offset + Size);
              m1 = m\<lparr>mem_free := mem_free m + Size,
                     handle_to_offset_and_size := (handle_to_offset_and_size m)(Handle := None),
                     offset_to_handle := (offset_to_handle m)(Offset := None),
                     high_water := (if Offset + Size = high_water m
                                    then Offset - (case PSizeL of None \<Rightarrow> 0 | Some l \<Rightarrow> l)
                                    else high_water m)\<rparr> in
          case (PSizeL, PSizeR) of
            (Some SizeL, Some SizeR) \<Rightarrow>
              and_then (fhg_assert dbg (Offset \<ge> SizeL)) (\<lambda>_.
              let OffsetL = Offset - SizeL; OffsetR = Offset + Size in
              and_then (delete_free_segment m1 OffsetL SizeL) (\<lambda>m2.
              and_then (delete_free_segment m2 OffsetR SizeR) (\<lambda>m3.
              Inr (insert_free_segment m3 OffsetL (SizeL + Size + SizeR)))))
          | (Some SizeL, None) \<Rightarrow>
              and_then (fhg_assert dbg (Offset \<ge> SizeL)) (\<lambda>_.
              let OffsetL = Offset - SizeL in
              and_then (delete_free_segment m1 OffsetL SizeL) (\<lambda>m2.
              Inr (insert_free_segment m2 OffsetL (SizeL + Size))))
          | (None, Some SizeR) \<Rightarrow>
              let OffsetR = Offset + Size in
              and_then (delete_free_segment m1 OffsetR SizeR) (\<lambda>m2.
              Inr (insert_free_segment m2 Offset (Size + SizeR)))
          | (None, None) \<Rightarrow> Inr (insert_free_segment m1 Offset Size)))"

definition numhandle :: "tmmgr \<Rightarrow> nat" where
  "numhandle m = card (dom (handle_to_offset_and_size m))"

end
