(* ===== verification/Segments.thy ===== *)
theory Segments
  imports Tmmgr
begin

text \<open>
  Two views of the segments kept by the memory manager of \<^verbatim>\<open>src/mmgr/tmmgr.cpp\<close>.  The first is the
  agreement of its three indexes of free segments: the buckets by size, the map by start and the
  map by end (\<open>indexes_ok\<close>), kept by the two private operations that delete and insert a free
  segment.  The second is the geometry: free and used segments tile the memory and no two free
  segments touch (\<open>tiling\<close>), kept by the three ways in which \<^verbatim>\<open>alloc\<close>, \<^verbatim>\<open>free\<close> and \<^verbatim>\<open>resize\<close> change the
  segments.  The last section is about rounding to a power of two.
\<close>

section \<open>The buckets of free segments by size\<close>

section \<open>The free list index\<close>

definition wf_buckets :: "buckets \<Rightarrow> bool" where
  "wf_buckets B \<longleftrightarrow> sorted_wrt (<) (map fst B) \<and> (\<forall>(k, offs) \<in> set B. offs \<noteq> [] \<and> distinct offs)"

definition bucket_set :: "u64 \<Rightarrow> buckets \<Rightarrow> u64 set" where
  "bucket_set s B = (case bucket_find s B of None \<Rightarrow> {} | Some offs \<Rightarrow> set offs)"

lemma bucket_set_simps [simp]:
  "bucket_set s [] = {}"
  "bucket_set s ((k, offs) # B) = (if k = s then set offs else bucket_set s B)"
  by (simp_all add: bucket_set_def)

lemma wf_buckets_Nil [simp]: "wf_buckets []"
  by (simp add: wf_buckets_def)

lemma wf_buckets_Cons [simp]:
  "wf_buckets ((k, offs) # B) \<longleftrightarrow>
     (\<forall>b \<in> set B. k < fst b) \<and> offs \<noteq> [] \<and> distinct offs \<and> wf_buckets B"
  by (auto simp: wf_buckets_def)

lemma bucket_find_None_set: "bucket_find s B = None \<longleftrightarrow> s \<notin> fst ` set B"
  by (induction s B rule: bucket_find.induct) auto

lemma bucket_set_not_key: "s \<notin> fst ` set B \<Longrightarrow> bucket_set s B = {}"
  by (simp add: bucket_set_def flip: bucket_find_None_set)

lemma bucket_set_below: "\<forall>b \<in> set B. k < fst b \<Longrightarrow> s \<le> k \<Longrightarrow> bucket_set s B = {}"
  by (rule bucket_set_not_key) auto

lemma keys_bucket_emplace: "fst ` set (bucket_emplace s off B) = insert s (fst ` set B)"
  by (induction s off B rule: bucket_emplace.induct) auto

lemma keys_bucket_erase: "fst ` set (bucket_erase s off B) \<subseteq> fst ` set B"
  by (induction s off B rule: bucket_erase.induct) (auto split: list.splits)

lemma ball_fst_iff: "(\<forall>b \<in> set B. k < fst b) \<longleftrightarrow> (\<forall>x \<in> fst ` set B. k < x)"
  by auto

lemma wf_bucket_emplace:
  "wf_buckets B \<Longrightarrow> off \<notin> bucket_set s B \<Longrightarrow> wf_buckets (bucket_emplace s off B)"
proof (induction s off B rule: bucket_emplace.induct)
  case (2 s off k offs bs)
  then show ?case
    using keys_bucket_emplace [of s off bs]
    by (auto simp: ball_fst_iff simp del: ball_simps intro: less_trans)
qed simp

lemma bucket_set_emplace [simp]:
  "wf_buckets B \<Longrightarrow>
   bucket_set t (bucket_emplace s off B) = (if t = s then insert off (bucket_set s B) else bucket_set t B)"
  by (induction s off B rule: bucket_emplace.induct) (auto simp: bucket_set_below)

lemma wf_bucket_erase: "wf_buckets B \<Longrightarrow> wf_buckets (bucket_erase s off B)"
proof (induction s off B rule: bucket_erase.induct)
  case (2 s off k offs bs)
  have "distinct (remove1 off offs)" using 2 by simp
  then show ?case
    using 2 keys_bucket_erase [of s off bs]
    by (cases "remove1 off offs") (auto simp: ball_fst_iff simp del: ball_simps)
qed simp

lemma bucket_set_erase [simp]:
  "wf_buckets B \<Longrightarrow>
   bucket_set t (bucket_erase s off B) = (if t = s then bucket_set s B - {off} else bucket_set t B)"
proof (induction s off B rule: bucket_erase.induct)
  case (2 s off k offs bs)
  have "distinct offs" using 2 by simp
  then have "set offs - {off} = set (remove1 off offs)" by simp
  then show ?case
    using 2 by (cases "remove1 off offs") (auto simp: bucket_set_below)
qed simp

lemma bucket_lower_bound_Some:
  assumes "wf_buckets B" and "bucket_lower_bound s B = Some (k, offs)"
  shows "s \<le> k" and "offs \<noteq> []" and "set offs = bucket_set k B"
    and "\<And>t. s \<le> t \<Longrightarrow> t < k \<Longrightarrow> bucket_set t B = {}"
  using assms
  by (induction s B rule: bucket_lower_bound.induct)
     (auto split: if_splits simp: bucket_set_below)

lemma bucket_lower_bound_None:
  "bucket_lower_bound s B = None \<Longrightarrow> s \<le> t \<Longrightarrow> bucket_set t B = {}"
  by (induction s B rule: bucket_lower_bound.induct) (auto split: if_splits)

section \<open>The three indexes agree\<close>

section \<open>The three indexes of the free segments agree\<close>

definition indexes_ok :: "buckets \<Rightarrow> (u64 \<rightharpoonup> u64) \<Rightarrow> (u64 \<rightharpoonup> u64) \<Rightarrow> bool" where
  "indexes_ok B F E \<longleftrightarrow>
     wf_buckets B \<and>
     (\<forall>s off. off \<in> bucket_set s B \<longleftrightarrow> F off = Some s) \<and>
     (\<forall>off s. F off = Some s \<longrightarrow> 0 < s \<and> unat off + unat s < 2 ^ 64 \<and> E (off + s) = Some s) \<and>
     (\<forall>e s. E e = Some s \<longrightarrow> s \<le> e \<and> F (e - s) = Some s)"

lemma indexes_okD:
  assumes "indexes_ok B F E"
  shows "wf_buckets B"
    and "off \<in> bucket_set s B \<longleftrightarrow> F off = Some s"
    and "F off = Some s \<Longrightarrow> 0 < s"
    and "F off = Some s \<Longrightarrow> unat off + unat s < 2 ^ 64"
    and "F off = Some s \<Longrightarrow> E (off + s) = Some s"
    and "E e = Some s \<Longrightarrow> s \<le> e"
    and "E e = Some s \<Longrightarrow> F (e - s) = Some s"
  using assms by (auto simp: indexes_ok_def)

lemma indexes_okI:
  assumes "wf_buckets B"
    and "\<And>s off. off \<in> bucket_set s B \<longleftrightarrow> F off = Some s"
    and "\<And>off s. F off = Some s \<Longrightarrow> 0 < s \<and> unat off + unat s < 2 ^ 64 \<and> E (off + s) = Some s"
    and "\<And>e s. E e = Some s \<Longrightarrow> s \<le> e \<and> F (e - s) = Some s"
  shows "indexes_ok B F E"
  using assms unfolding indexes_ok_def by blast

lemma indexes_ok_end_None:
  assumes "indexes_ok B F E"
  shows "E e = None \<longleftrightarrow> (\<forall>off s. F off = Some s \<longrightarrow> off + s \<noteq> e)"
proof -
  have "\<exists>off s. F off = Some s \<and> off + s = e" if "E e = Some s" for s
    using indexes_okD(7) [OF assms that] by (intro exI [of _ "e - s"] exI [of _ s]) auto
  then show ?thesis using indexes_okD(5) [OF assms] by fastforce
qed

lemma delete_free_segment_ok:
  assumes ok: "indexes_ok (free_offset_by_size m) (free_segment_start m) (free_segment_end m)"
    and seg: "free_segment_start m off = Some s"
  obtains B E where "delete_free_segment m off s =
      Inr (m\<lparr>free_offset_by_size := B, free_segment_start := (free_segment_start m)(off := None),
             free_segment_end := E\<rparr>)"
    and "indexes_ok B ((free_segment_start m)(off := None)) E"
proof -
  note D = indexes_okD [OF ok]
  let ?B = "bucket_erase s off (free_offset_by_size m)" and ?F = "(free_segment_start m)(off := None)"
    and ?E = "(free_segment_end m)(off + s := None)"
  have "off \<in> bucket_set s (free_offset_by_size m)" using D(2) seg by simp
  then obtain offs where "bucket_find s (free_offset_by_size m) = Some offs" "off \<in> set offs"
    by (auto simp: bucket_set_def split: option.splits)
  then have del: "delete_free_segment m off s =
      Inr (m\<lparr>free_offset_by_size := ?B, free_segment_start := ?F, free_segment_end := ?E\<rparr>)"
    by (simp add: delete_free_segment_def)
  have end_inj: "o' = off" if "free_segment_start m o' = Some s'" "o' + s' = off + s" for o' s'
  proof -
    have "free_segment_end m (off + s) = Some s'" using D(5) [OF that(1)] that(2) by simp
    then have "s' = s" using D(5) [OF seg] by simp
    with that(2) show ?thesis by simp
  qed
  have "indexes_ok ?B ?F ?E"
  proof (rule indexes_okI)
    show "wf_buckets ?B" by (simp add: wf_bucket_erase D(1))
    show "o' \<in> bucket_set t ?B \<longleftrightarrow> ?F o' = Some t" for t o'
      using D(2) seg by (auto simp: D(1))
    show "0 < t \<and> unat o' + unat t < 2 ^ 64 \<and> ?E (o' + t) = Some t" if "?F o' = Some t" for o' t
      using that D(3,4,5) end_inj by (auto split: if_splits)
    show "t \<le> e \<and> ?F (e - t) = Some t" if "?E e = Some t" for e t
      using that seg D(5) [OF seg] D(6,7) by (auto split: if_splits)
  qed
  then show thesis using that del by blast
qed

text \<open>A segment of size 0 is not recorded.\<close>

lemma insert_free_segment_ok:
  assumes ok: "indexes_ok (free_offset_by_size m) (free_segment_start m) (free_segment_end m)"
    and fits: "unat off + unat s < 2 ^ 64"
    and new: "0 < s \<Longrightarrow> free_segment_start m off = None"
      "\<And>o' t. 0 < s \<Longrightarrow> free_segment_start m o' = Some t \<Longrightarrow> o' + t \<noteq> off + s"
    and F': "F' = (if s = 0 then free_segment_start m else (free_segment_start m)(off \<mapsto> s))"
  obtains B E where "insert_free_segment m off s =
      m\<lparr>free_offset_by_size := B, free_segment_start := F', free_segment_end := E\<rparr>"
    and "indexes_ok B F' E"
proof (cases "s = 0")
  case True
  have "insert_free_segment m off s = m\<lparr>free_offset_by_size := free_offset_by_size m,
      free_segment_start := free_segment_start m, free_segment_end := free_segment_end m\<rparr>"
    using True by (simp add: insert_free_segment_def)
  then show thesis
    using ok True F' by (intro that [where B = "free_offset_by_size m" and E = "free_segment_end m"]) simp_all
next
  case False
  note D = indexes_okD [OF ok]
  have pos: "0 < s" using False by (simp add: word_neq_0_conv [symmetric])
  let ?B = "bucket_emplace s off (free_offset_by_size m)" and ?F = "(free_segment_start m)(off \<mapsto> s)"
    and ?E = "(free_segment_end m)(off + s \<mapsto> s)"
  have noend: "free_segment_end m (off + s) = None"
    using new(2) [OF pos] indexes_ok_end_None [OF ok] by simp
  have ins: "insert_free_segment m off s =
      m\<lparr>free_offset_by_size := ?B, free_segment_start := ?F, free_segment_end := ?E\<rparr>"
    using pos new(1) noend by (simp add: insert_free_segment_def map_emplace_def)
  have "indexes_ok ?B ?F ?E"
  proof (rule indexes_okI)
    show "wf_buckets ?B" using D(1,2) new(1) pos by (simp add: wf_bucket_emplace)
    show "o' \<in> bucket_set t ?B \<longleftrightarrow> ?F o' = Some t" for t o'
      using D(2) new(1) pos by (auto simp: D(1))
    show "0 < t \<and> unat o' + unat t < 2 ^ 64 \<and> ?E (o' + t) = Some t" if "?F o' = Some t" for o' t
      using that D(3,4,5) pos fits new by (auto split: if_splits)
    have "s \<le> off + s" using fits by (simp add: word_le_nat_alt unat_add_if_fits)
    then show "t \<le> e \<and> ?F (e - t) = Some t" if "?E e = Some t" for e t
      using that D(6,7) new(1) pos by (auto split: if_splits)
  qed
  then show thesis using that ins False F' by simp
qed

section \<open>Free and used segments tile the memory\<close>

section \<open>Segments tile the arena\<close>

definition seg :: "u64 \<Rightarrow> u64 \<Rightarrow> nat set" where
  "seg off s = {unat off ..< unat off + unat s}"

lemma seg_iff: "x \<in> seg off s \<longleftrightarrow> unat off \<le> x \<and> x < unat off + unat s"
  by (simp add: seg_def)

lemma seg_0 [simp]: "seg off 0 = {}"
  by (simp add: seg_def)

definition free_bytes :: "(u64 \<rightharpoonup> u64) \<Rightarrow> nat set" where
  "free_bytes F = (\<Union>off \<in> dom F. seg off (the (F off)))"

definition used_bytes :: "(u64 \<rightharpoonup> u64 \<times> u64) \<Rightarrow> nat set" where
  "used_bytes U = (\<Union>h \<in> dom U. seg (fst (the (U h))) (snd (the (U h))))"

text \<open>
  Every byte below \<open>N\<close>, and no other, lies in exactly one segment, and no free segment is
  followed by another one.
\<close>

definition tiling :: "(u64 \<rightharpoonup> u64) \<Rightarrow> (u64 \<rightharpoonup> u64 \<times> u64) \<Rightarrow> nat \<Rightarrow> bool" where
  "tiling F U N \<longleftrightarrow>
     (\<forall>off s. F off = Some s \<longrightarrow> 0 < s) \<and>
     (\<forall>h off s. U h = Some (off, s) \<longrightarrow> 0 < s) \<and>
     (\<forall>off s off' s' x. F off = Some s \<longrightarrow> F off' = Some s' \<longrightarrow>
        x \<in> seg off s \<longrightarrow> x \<in> seg off' s' \<longrightarrow> off = off') \<and>
     (\<forall>h off s h' off' s' x. U h = Some (off, s) \<longrightarrow> U h' = Some (off', s') \<longrightarrow>
        x \<in> seg off s \<longrightarrow> x \<in> seg off' s' \<longrightarrow> h = h') \<and>
     free_bytes F \<inter> used_bytes U = {} \<and>
     free_bytes F \<union> used_bytes U = {..<N} \<and>
     (\<forall>off s. F off = Some s \<longrightarrow> F (off + s) = None)"

lemma tilingD:
  assumes "tiling F U N"
  shows "F off = Some s \<Longrightarrow> 0 < s"
    and "U h = Some (off, s) \<Longrightarrow> 0 < s"
    and "F off = Some s \<Longrightarrow> F off' = Some s' \<Longrightarrow> x \<in> seg off s \<Longrightarrow> x \<in> seg off' s' \<Longrightarrow> off = off'"
    and "U h = Some (off, s) \<Longrightarrow> U h' = Some (off', s') \<Longrightarrow> x \<in> seg off s \<Longrightarrow> x \<in> seg off' s' \<Longrightarrow> h = h'"
    and "free_bytes F \<inter> used_bytes U = {}"
    and "free_bytes F \<union> used_bytes U = {..<N}"
    and "F off = Some s \<Longrightarrow> F (off + s) = None"
  using assms by (auto simp: tiling_def)

lemma tilingI:
  assumes "\<And>off s. F off = Some s \<Longrightarrow> 0 < s"
    and "\<And>h off s. U h = Some (off, s) \<Longrightarrow> 0 < s"
    and "\<And>off s off' s' x. F off = Some s \<Longrightarrow> F off' = Some s' \<Longrightarrow>
           x \<in> seg off s \<Longrightarrow> x \<in> seg off' s' \<Longrightarrow> off = off'"
    and "\<And>h off s h' off' s' x. U h = Some (off, s) \<Longrightarrow> U h' = Some (off', s') \<Longrightarrow>
           x \<in> seg off s \<Longrightarrow> x \<in> seg off' s' \<Longrightarrow> h = h'"
    and "free_bytes F \<inter> used_bytes U = {}"
    and "free_bytes F \<union> used_bytes U = {..<N}"
    and "\<And>off s. F off = Some s \<Longrightarrow> F (off + s) = None"
  shows "tiling F U N"
  unfolding tiling_def using assms by blast

lemma free_bytesI: "F off = Some s \<Longrightarrow> x \<in> seg off s \<Longrightarrow> x \<in> free_bytes F"
  by (auto simp: free_bytes_def intro!: bexI [of _ off])

lemma used_bytesI: "U h = Some (off, s) \<Longrightarrow> x \<in> seg off s \<Longrightarrow> x \<in> used_bytes U"
  by (auto simp: used_bytes_def intro!: bexI [of _ h])

lemma tiling_free_fits:
  assumes "tiling F U N" and "F off = Some s"
  shows "unat off + unat s \<le> N"
proof -
  have "0 < unat s" using tilingD(1) [OF assms] by (simp add: unat_gt_0)
  then have "unat off + unat s - 1 \<in> free_bytes F"
    using assms(2) by (intro free_bytesI) (auto simp: seg_iff)
  then have "unat off + unat s - 1 < N" using tilingD(6) [OF assms(1)] by auto
  with \<open>0 < unat s\<close> show ?thesis by simp
qed

lemma tiling_used_fits:
  assumes "tiling F U N" and "U h = Some (off, s)"
  shows "unat off + unat s \<le> N"
proof -
  have "0 < unat s" using tilingD(2) [OF assms] by (simp add: unat_gt_0)
  then have "unat off + unat s - 1 \<in> used_bytes U"
    using assms(2) by (intro used_bytesI) (auto simp: seg_iff)
  then have "unat off + unat s - 1 < N" using tilingD(6) [OF assms(1)] by auto
  with \<open>0 < unat s\<close> show ?thesis by simp
qed

text \<open>Two free segments with a common end are the same one, and so are two used ones.\<close>

lemma tiling_free_used_disj:
  assumes "tiling F U N" and "F off = Some s" and "U h = Some (off', s')" and "x \<in> seg off s"
  shows "x \<notin> seg off' s'"
  using tilingD(5) [OF assms(1)] free_bytesI [of F, OF assms(2,4)] used_bytesI [of U, OF assms(3)] by blast

lemma free_bytes_insert:
  assumes "F off = None"
  shows "free_bytes (F(off \<mapsto> s)) = free_bytes F \<union> seg off s"
proof -
  have "(\<Union>o' \<in> dom F. seg o' (the ((F(off \<mapsto> s)) o'))) = free_bytes F"
    unfolding free_bytes_def using assms by (intro SUP_cong refl) auto
  then show ?thesis by (simp add: free_bytes_def Un_commute)
qed

lemma used_bytes_insert:
  assumes "U h = None"
  shows "used_bytes (U(h \<mapsto> (off, s))) = used_bytes U \<union> seg off s"
proof -
  let ?U = "U(h \<mapsto> (off, s))"
  have "(\<Union>h' \<in> dom U. seg (fst (the (?U h'))) (snd (the (?U h')))) = used_bytes U"
    unfolding used_bytes_def using assms by (intro SUP_cong refl) auto
  then show ?thesis by (simp add: used_bytes_def Un_commute)
qed

lemma free_bytes_remove:
  assumes "F off = Some s"
    and "\<And>o' t x. F o' = Some t \<Longrightarrow> x \<in> seg o' t \<Longrightarrow> x \<in> seg off s \<Longrightarrow> o' = off"
  shows "free_bytes (F(off := None)) = free_bytes F - seg off s"
proof -
  have "free_bytes F = free_bytes ((F(off := None))(off \<mapsto> s))"
    using assms(1) by (simp add: fun_upd_idem)
  also have "\<dots> = free_bytes (F(off := None)) \<union> seg off s"
    by (rule free_bytes_insert) simp
  finally have "free_bytes F = free_bytes (F(off := None)) \<union> seg off s" .
  moreover have "free_bytes (F(off := None)) \<inter> seg off s = {}"
    using assms(2) by (fastforce simp: free_bytes_def split: if_splits)
  ultimately show ?thesis by blast
qed

lemma tiling_free_bytes_remove:
  assumes "tiling F U N" and "F off = Some s"
  shows "free_bytes (F(off := None)) = free_bytes F - seg off s"
  using assms(2) tilingD(3) [OF assms(1) _ assms(2)] by (rule free_bytes_remove)

lemma used_bytes_remove:
  assumes "tiling F U N" and "U h = Some (off, s)"
  shows "used_bytes (U(h := None)) = used_bytes U - seg off s"
proof -
  have "used_bytes U = used_bytes ((U(h := None))(h \<mapsto> (off, s)))"
    using assms(2) by (simp add: fun_upd_idem)
  also have "\<dots> = used_bytes (U(h := None)) \<union> seg off s"
    by (rule used_bytes_insert) simp
  finally have "used_bytes U = used_bytes (U(h := None)) \<union> seg off s" .
  moreover have "used_bytes (U(h := None)) \<inter> seg off s = {}"
    using tilingD(4) [OF assms(1) assms(2)] by (fastforce simp: used_bytes_def split: if_splits)
  ultimately show ?thesis by blast
qed

section \<open>Taking and giving back a segment\<close>

lemma seg_nonempty: "0 < s \<Longrightarrow> unat off \<in> seg off s"
  by (simp add: seg_iff word_less_nat_alt)

lemma tiling_start_used:
  assumes "tiling F U N" and "U h = Some (off, s)"
  shows "F off = None"
proof (rule ccontr)
  assume "F off \<noteq> None"
  then obtain t where t: "F off = Some t" by auto
  have "unat off \<in> seg off t" "unat off \<in> seg off s"
    using tilingD(1) [OF assms(1) t] tilingD(2) [OF assms] by (simp_all add: seg_nonempty)
  then show False using tiling_free_used_disj [OF assms(1) t assms(2)] by blast
qed

text \<open>Taking the first \<open>S\<close> bytes of a free segment.\<close>

lemma tiling_alloc:
  fixes F U off f S
  defines "F' \<equiv> (if f = S then F(off := None) else (F(off := None))(off + S \<mapsto> f - S))"
  assumes T: "tiling F U N" and N: "N < 2 ^ 64" and seg: "F off = Some f" and S: "0 < S" "S \<le> f"
    and h: "U h = None"
  shows "tiling F' (U(h \<mapsto> (off, S))) N"
    and "free_bytes F' = free_bytes F - seg off S"
    and "used_bytes (U(h \<mapsto> (off, S))) = used_bytes U \<union> seg off S"
    and "seg off S \<subseteq> free_bytes F"
proof -
  note D = tilingD [OF T]
  have fit: "unat off + unat f \<le> N" by (rule tiling_free_fits [OF T seg])
  have uS: "0 < unat S" "unat S \<le> unat f" using S by (simp_all add: word_to_nat unat_gt_0)
  have u: "unat (off + S) = unat off + unat S" "unat (f - S) = unat f - unat S"
    using uS fit N by (simp_all add: word_to_nat)
  have sub: "seg off S \<subseteq> seg off f" using uS by (auto simp: seg_iff)
  show subF: "seg off S \<subseteq> free_bytes F" using sub free_bytesI [of F, OF seg] by blast
  have in_f: "F o' = Some t \<Longrightarrow> x \<in> seg o' t \<Longrightarrow> x \<in> seg off f \<Longrightarrow> o' = off" for o' t x
    using D(3) seg by blast
  have free_at: "F (off + S) = None" if "f \<noteq> S"
  proof (rule ccontr)
    assume "F (off + S) \<noteq> None"
    then obtain t where t: "F (off + S) = Some t" by auto
    have "unat S < unat f" using that uS by (metis le_neq_implies_less word_unat_eq_iff)
    then have "unat (off + S) \<in> seg off f" using uS by (simp add: seg_iff u)
    with in_f [OF t seg_nonempty [OF D(1) [OF t]]] have "off + S = off" by blast
    with S show False by simp
  qed
  have part: "seg (off + S) (f - S) = seg off f - seg off S"
    using uS by (auto simp: seg_iff u)
  show fb: "free_bytes F' = free_bytes F - seg off S"
  proof (cases "f = S")
    case True
    then show ?thesis using tiling_free_bytes_remove [OF T seg] by (simp add: F'_def)
  next
    case False
    then have "free_bytes F' = (free_bytes F - seg off f) \<union> (seg off f - seg off S)"
      using free_at S by (simp add: F'_def free_bytes_insert tiling_free_bytes_remove [OF T seg] part)
    then show ?thesis using sub free_bytesI [of F, OF seg] by blast
  qed
  show ub: "used_bytes (U(h \<mapsto> (off, S))) = used_bytes U \<union> seg off S"
    using h by (rule used_bytes_insert)
  have new: "F' o' = Some t \<Longrightarrow> (F o' = Some t \<and> o' \<noteq> off) \<or> (f \<noteq> S \<and> o' = off + S \<and> t = f - S)" for o' t
    by (auto simp: F'_def split: if_splits)
  show "tiling F' (U(h \<mapsto> (off, S))) N"
  proof (rule tilingI)
    show "0 < t" if "F' o' = Some t" for o' t
      using new [OF that] D(1) S by (auto simp: word_neq_0_conv [symmetric])
    show "0 < t" if "(U(h \<mapsto> (off, S))) h' = Some (o', t)" for h' o' t
      using that D(2) S by (auto split: if_splits)
    show "o' = o''" if "F' o' = Some t" "F' o'' = Some t'" "x \<in> seg o' t" "x \<in> seg o'' t'" for o' t o'' t' x
      using new [OF that(1)] new [OF that(2)] that(3,4) D(3) in_f part by blast
    show "h' = h''" if "(U(h \<mapsto> (off, S))) h' = Some (o', t)" "(U(h \<mapsto> (off, S))) h'' = Some (o'', t')"
      "x \<in> seg o' t" "x \<in> seg o'' t'" for h' o' t h'' o'' t' x
    proof -
      have "x \<notin> seg off S" if "U g = Some (p, r)" "x \<in> seg p r" for g p r
        using tiling_free_used_disj [OF T seg that(1)] that(2) sub by blast
      then show ?thesis using that D(4) by (auto split: if_splits)
    qed
    show "free_bytes F' \<inter> used_bytes (U(h \<mapsto> (off, S))) = {}"
      unfolding fb ub using D(5) by blast
    show "free_bytes F' \<union> used_bytes (U(h \<mapsto> (off, S))) = {..<N}"
      unfolding fb ub using D(6) subF by blast
    show "F' (o' + t) = None" if "F' o' = Some t" for o' t
    proof (cases "F o' = Some t \<and> o' \<noteq> off")
      case True
      have "o' + t \<noteq> off + S" 
      proof
        assume eq: "o' + t = off + S"
        have "unat (o' + t) = unat o' + unat t"
          using tiling_free_fits [OF T, of o' t] True N by (simp add: word_to_nat)
        moreover have "0 < unat t" using D(1) [of o' t] True by (simp add: word_to_nat)
        ultimately have "unat off + unat S - 1 \<in> seg o' t" "unat off + unat S - 1 \<in> seg off f"
          using uS eq u by (auto simp: seg_iff)
        then show False using in_f True by blast
      qed
      moreover have "F (o' + t) = None" using D(7) True by blast
      ultimately show ?thesis by (simp add: F'_def)
    next
      case False
      with new [OF that] have "f \<noteq> S" "o' + t = off + f" by auto
      then show ?thesis using D(7) [OF seg] by (auto simp: F'_def)
    qed
  qed
qed

text \<open>
  Giving a used segment back, merged with the free segment that ends where it starts (\<open>sL\<close> bytes,
  none when \<open>sL\<close> is 0) and the one that starts where it ends (\<open>sR\<close> bytes).
\<close>

lemma tiling_free:
  fixes F U off s sL sR
  defines "F' \<equiv> (F(off - sL := None, off + s := None))(off - sL \<mapsto> sL + s + sR)"
  assumes T: "tiling F U N" and N: "N < 2 ^ 64" and h: "U h = Some (off, s)"
    and L: "sL \<le> off" "sL \<noteq> 0 \<Longrightarrow> F (off - sL) = Some sL"
      "sL = 0 \<Longrightarrow> \<forall>o' t. F o' = Some t \<longrightarrow> o' + t \<noteq> off"
    and R: "sR = (case F (off + s) of None \<Rightarrow> 0 | Some r \<Rightarrow> r)"
  shows "tiling F' (U(h := None)) N"
    and "free_bytes F' = free_bytes F \<union> seg off s"
    and "used_bytes (U(h := None)) = used_bytes U - seg off s"
    and "unat (off - sL) + unat (sL + s + sR) \<le> N"
    and "0 < sL + s + sR"
proof -
  note D = tilingD [OF T]
  have s: "0 < unat s" using D(2) [OF h] by (simp add: word_to_nat)
  have fit: "unat off + unat s \<le> N" by (rule tiling_used_fits [OF T h])
  have uL: "unat sL \<le> unat off" using L(1) by (simp add: word_to_nat)
  have u: "unat (off + s) = unat off + unat s" "unat (off - sL) = unat off - unat sL"
    using fit N uL by (simp_all add: word_to_nat)
  have Rfree: "F (off + s) = Some sR" if "sR \<noteq> 0" using that R by (auto split: option.splits)
  have R0: "F (off + s) = None" if "sR = 0" using that R D(1) by (force split: option.splits)
  have fitR: "unat off + unat s + unat sR \<le> N"
    using fit tiling_free_fits [OF T Rfree] u by (cases "sR = 0") auto
  have "unat (sL + s) = unat sL + unat s" using fit N uL by (simp add: word_to_nat)
  then have usum: "unat (sL + s + sR) = unat sL + unat s + unat sR"
    using fitR N uL by (simp add: word_to_nat)
  show "unat (off - sL) + unat (sL + s + sR) \<le> N" using usum u uL fitR by simp
  show pos: "0 < sL + s + sR" using usum s by (simp add: word_to_nat)
  have whole: "seg (off - sL) (sL + s + sR) = seg (off - sL) sL \<union> seg off s \<union> seg (off + s) sR"
    using uL by (auto simp: seg_iff u usum)
  have ne: "off - sL \<noteq> off + s" using u s by (auto dest!: arg_cong [where f = unat])
  have G1: "free_bytes (F(off - sL := None)) = free_bytes F - seg (off - sL) sL"
  proof (cases "sL = 0")
    case True
    then show ?thesis using tiling_start_used [OF T h] by (simp add: fun_upd_idem)
  next
    case False
    then show ?thesis using tiling_free_bytes_remove [OF T L(2)] by simp
  qed
  have G: "free_bytes (F(off - sL := None, off + s := None)) =
      free_bytes F - seg (off - sL) sL - seg (off + s) sR"
  proof (cases "sR = 0")
    case True
    then show ?thesis using R0 G1 ne by (simp add: fun_upd_idem)
  next
    case False
    have "free_bytes ((F(off - sL := None))(off + s := None)) =
        free_bytes (F(off - sL := None)) - seg (off + s) sR"
    proof (rule free_bytes_remove)
      show "(F(off - sL := None)) (off + s) = Some sR" using Rfree False ne by simp
      show "o' = off + s" if "(F(off - sL := None)) o' = Some t" "x \<in> seg o' t" "x \<in> seg (off + s) sR"
        for o' t x using that D(3) Rfree False by (auto split: if_splits)
    qed
    with G1 show ?thesis by simp
  qed
  have subL: "seg (off - sL) sL \<subseteq> free_bytes F"
    using free_bytesI [of F, OF L(2)] by (cases "sL = 0") auto
  have subR: "seg (off + s) sR \<subseteq> free_bytes F"
    using free_bytesI [of F, OF Rfree] by (cases "sR = 0") auto
  show fb: "free_bytes F' = free_bytes F \<union> seg off s"
    using subL subR ne unfolding F'_def by (subst free_bytes_insert) (auto simp: G whole)
  show ub: "used_bytes (U(h := None)) = used_bytes U - seg off s"
    using T h by (rule used_bytes_remove)
  have subU: "seg off s \<subseteq> used_bytes U" using used_bytesI [of U, OF h] by blast
  have old: "F' o' = Some t \<Longrightarrow>
      (F o' = Some t \<and> o' \<noteq> off - sL \<and> o' \<noteq> off + s) \<or> (o' = off - sL \<and> t = sL + s + sR)" for o' t
    by (auto simp: F'_def split: if_splits)
  have outside: "x \<notin> seg (off - sL) (sL + s + sR)"
    if "F o' = Some t" "o' \<noteq> off - sL" "o' \<noteq> off + s" "x \<in> seg o' t" for o' t x
  proof -
    have "x \<notin> seg off s" using tiling_free_used_disj [OF T that(1) h that(4)] .
    moreover have "x \<notin> seg (off - sL) sL"
      using D(3) [OF that(1) L(2) that(4)] that(2) by (cases "sL = 0") auto
    moreover have "x \<notin> seg (off + s) sR"
      using D(3) [OF that(1) Rfree that(4)] that(3) by (cases "sR = 0") auto
    ultimately show ?thesis by (simp add: whole)
  qed
  show "tiling F' (U(h := None)) N"
  proof (rule tilingI)
    show "0 < t" if "F' o' = Some t" for o' t
      using old [OF that] D(1) pos by blast
    show "0 < t" if "(U(h := None)) h' = Some (o', t)" for h' o' t
      using that D(2) by (auto split: if_splits)
    show "o' = o''" if "F' o' = Some t" "F' o'' = Some t'" "x \<in> seg o' t" "x \<in> seg o'' t'" for o' t o'' t' x
      using old [OF that(1)] old [OF that(2)] that(3,4) D(3) outside by metis
    show "h' = h''" if "(U(h := None)) h' = Some (o', t)" "(U(h := None)) h'' = Some (o'', t')"
      "x \<in> seg o' t" "x \<in> seg o'' t'" for h' o' t h'' o'' t' x
      using that D(4) by (auto split: if_splits)
    show "free_bytes F' \<inter> used_bytes (U(h := None)) = {}"
      unfolding fb ub using D(5) by blast
    show "free_bytes F' \<union> used_bytes (U(h := None)) = {..<N}"
      unfolding fb ub using D(6) subU by blast
    show "F' (o' + t) = None" if "F' o' = Some t" for o' t
    proof (cases "o' = off - sL")
      case True
      with that have "o' + t = off + s + sR" by (auto simp: F'_def)
      moreover have "F (off + s + sR) = None \<or> sR = 0" using D(7) [OF Rfree] by blast
      moreover have "off + s + sR \<noteq> off - sL"
      proof
        assume "off + s + sR = off - sL"
        then have "unat (off + s + sR) = unat (off - sL)" by (rule arg_cong)
        moreover have "unat (off + s + sR) = unat off + unat s + unat sR"
          using fitR N u by (simp add: unat_add_if_fits)
        ultimately show False using u(2) s by linarith
      qed
      ultimately show ?thesis by (auto simp: F'_def)
    next
      case False
      with old [OF that] have o': "F o' = Some t" "F (o' + t) = None" using D(7) by auto
      moreover have "o' + t \<noteq> off - sL"
        using o' L(2,3) by (cases "sL = 0") auto
      ultimately show ?thesis by (simp add: F'_def)
    qed
  qed
qed

section \<open>Moving the end of the memory\<close>

text \<open>
  The end of the arena moves: the last free segment changes its size from \<open>f\<close> to \<open>f'\<close> bytes
  (no segment when that is 0).
\<close>

lemma tiling_resize:
  fixes F U off f f'
  defines "F' \<equiv> (if f' = 0 then F(off := None) else F(off \<mapsto> f'))"
  assumes T: "tiling F U N" and N': "N' < 2 ^ 64"
    and old: "unat off + unat f = N" "f \<noteq> 0 \<Longrightarrow> F off = Some f"
      "f = 0 \<Longrightarrow> \<forall>o' t. F o' = Some t \<longrightarrow> unat o' + unat t \<noteq> N"
    and new: "unat off + unat f' = N'"
  shows "tiling F' U N'"
    and "free_bytes F' = (free_bytes F - seg off f) \<union> seg off f'"
    and "free_bytes F - seg off f \<subseteq> {..<unat off}"
    and "used_bytes U \<subseteq> {..<unat off}"
proof -
  note D = tilingD [OF T]
  have fit: "F o' = Some t \<Longrightarrow> unat o' + unat t \<le> N" for o' t by (rule tiling_free_fits [OF T])
  have none: "F off = None" if "f = 0"
  proof (rule ccontr)
    assume "F off \<noteq> None"
    then obtain t where t: "F off = Some t" by auto
    show False using fit [OF t] D(1) [OF t] old(1) that by (simp add: word_to_nat)
  qed
  have in_f: "o' = off" if "F o' = Some t" "x \<in> seg o' t" "unat off \<le> x" for o' t x
  proof -
    have "x < N" using fit [OF that(1)] that(2) by (simp add: seg_iff)
    then have "x \<in> seg off f" using that(3) old(1) by (simp add: seg_iff)
    moreover from this have "f \<noteq> 0" by auto
    ultimately show ?thesis using D(3) [OF that(1) old(2) that(2)] by blast
  qed
  have rem: "free_bytes (F(off := None)) = free_bytes F - seg off f"
    using none tiling_free_bytes_remove [OF T old(2)] by (cases "f = 0") (simp_all add: fun_upd_idem)
  show fb: "free_bytes F' = (free_bytes F - seg off f) \<union> seg off f'"
  proof (cases "f' = 0")
    case False
    have "free_bytes F' = free_bytes ((F(off := None))(off \<mapsto> f'))" using False by (simp add: F'_def)
    also have "\<dots> = free_bytes (F(off := None)) \<union> seg off f'" by (rule free_bytes_insert) simp
    finally show ?thesis by (simp add: rem)
  qed (simp add: F'_def rem)
  have all: "free_bytes F \<union> used_bytes U = {..<unat off} \<union> seg off f"
  proof -
    have "{..<N} = {..<unat off} \<union> seg off f" by (auto simp: seg_iff old(1) [symmetric])
    with D(6) show ?thesis by simp
  qed
  have segf: "seg off f \<subseteq> free_bytes F"
    using free_bytesI [of F, OF old(2)] by (cases "f = 0") auto
  show below: "free_bytes F - seg off f \<subseteq> {..<unat off}" using all by blast
  show ubelow: "used_bytes U \<subseteq> {..<unat off}" using all segf D(5) by blast
  have disj': "{..<unat off} \<inter> seg off f' = {}" "{..<unat off} \<inter> seg off f = {}"
    by (auto simp: seg_iff)
  have cases: "F' o' = Some t \<Longrightarrow> (F o' = Some t \<and> o' \<noteq> off) \<or> (f' \<noteq> 0 \<and> o' = off \<and> t = f')" for o' t
    by (auto simp: F'_def split: if_splits)
  show "tiling F' U N'"
  proof (rule tilingI)
    show "0 < t" if "F' o' = Some t" for o' t
      using cases [OF that] D(1) by (auto simp: word_neq_0_conv [symmetric])
    show "o' = o''" if "F' o' = Some t" "F' o'' = Some t'" "x \<in> seg o' t" "x \<in> seg o'' t'" for o' t o'' t' x
    proof -
      have low: "x \<in> seg off f' \<Longrightarrow> unat off \<le> x" by (simp add: seg_iff)
      show ?thesis
        using cases [OF that(1)] cases [OF that(2)] that(3,4) in_f low D(3) [of o' t o'' t' x]
        by (elim disjE conjE) auto
    qed
    show "free_bytes F' \<inter> used_bytes U = {}"
      unfolding fb using D(5) ubelow disj' by blast
    have "{..<N'} = {..<unat off} \<union> seg off f'" using new by (auto simp: seg_iff)
    moreover have "(free_bytes F - seg off f) \<union> used_bytes U = {..<unat off}"
      using all ubelow disj'(2) by blast
    ultimately show "free_bytes F' \<union> used_bytes U = {..<N'}" unfolding fb by blast
    show "F' (o' + t) = None" if "F' o' = Some t" for o' t
    proof (cases "F o' = Some t \<and> o' \<noteq> off")
      case True
      then have "F (o' + t) = None" using D(7) by blast
      moreover have "o' + t \<noteq> off"
      proof (cases "f = 0")
        case f0: True
        have "unat o' + unat t \<le> N" "unat o' + unat t \<noteq> N" using fit old(3) f0 True by auto
        moreover have "N < 2 ^ 64" using old(1) f0 u64_lt [of off] by simp
        ultimately have "unat (o' + t) \<noteq> unat off"
          using old(1) f0 by (simp add: unat_add_if_fits)
        then show ?thesis by blast
      next
        case False
        then show ?thesis using old(2) calculation by auto
      qed
      ultimately show ?thesis by (simp add: F'_def)
    next
      case False
      with cases [OF that] have ot: "f' \<noteq> 0" "o' = off" "t = f'" by auto
      have "F (off + f') = None"
      proof (rule ccontr)
        assume "F (off + f') \<noteq> None"
        then obtain r where r: "F (off + f') = Some r" by auto
        have "unat (off + f') = N'" using new N' by (simp add: unat_add_if_fits)
        then have "off + f' = off"
          using in_f [OF r seg_nonempty [OF D(1) [OF r]]] new by simp
        with ot show False by simp
      qed
      then show ?thesis using ot by (auto simp: F'_def)
    qed
    show "0 < t" if "U h = Some (o', t)" for h o' t by (rule D(2) [OF that])
    show "h = h'" if "U h = Some (o', t)" "U h' = Some (o'', t')" "x \<in> seg o' t" "x \<in> seg o'' t'"
      for h o' t h' o'' t' x by (rule D(4) [OF that])
  qed
qed

section \<open>Alignment\<close>

section \<open>Alignment to powers of two\<close>

lemma unat_pow2: "k < 64 \<Longrightarrow> unat (2 ^ k :: u64) = 2 ^ k"
proof -
  assume "k < 64"
  then have "(2::nat) ^ k < 2 ^ 64" by (rule power_strict_increasing) simp
  then have "unat (of_nat (2 ^ k) :: u64) = 2 ^ k" by (simp only: unat_of_nat) simp
  then show ?thesis by simp
qed

lemma alignDown_pow2:
  assumes "k < 64"
  shows "unat (alignDown x (2 ^ k)) = unat x - unat x mod 2 ^ k"
proof -
  have "x AND NOT (mask k) = x - take_bit k x"
  proof -
    have "x - take_bit k x = x AND NOT (take_bit k x)"
      by (rule disjunctive_diff_eq_and_not) (rule bit_eqI, simp add: bit_simps)
    also have "\<dots> = x AND NOT (mask k)"
      by (rule bit_eqI) (auto simp: bit_simps)
    finally show ?thesis by simp
  qed
  moreover have "unat (take_bit k x) = unat x mod 2 ^ k"
    by (metis take_bit_eq_mod unsigned_take_bit_eq)
  ultimately show ?thesis
    by (simp add: alignDown_def mask_eq_exp_minus_1 [symmetric] word_to_nat)
qed

lemma alignDown_pow2_dvd: "k < 64 \<Longrightarrow> 2 ^ k dvd unat (alignDown x (2 ^ k))"
  by (simp add: alignDown_pow2 minus_mod_eq_mult_div)

lemma alignDown_pow2_le: "k < 64 \<Longrightarrow> alignDown x (2 ^ k) \<le> x"
  by (simp add: word_to_nat alignDown_pow2)

lemma alignDown_pow2_id: "k < 64 \<Longrightarrow> 2 ^ k dvd unat x \<Longrightarrow> alignDown x (2 ^ k) = x"
  by (simp add: word_unat_eq_iff alignDown_pow2 dvd_imp_mod_0)

text \<open>
  The size handed out is the least multiple of the alignment that is not below the request,
  provided the rounding does not wrap.
\<close>

lemma alignUp_pow2:
  assumes k: "k < 64" and fits: "unat x + (2 ^ k - 1) < 2 ^ 64"
  shows "2 ^ k dvd unat (alignUp x (2 ^ k))" and "x \<le> alignUp x (2 ^ k)"
    and "unat (alignUp x (2 ^ k)) < unat x + 2 ^ k"
proof -
  have "unat (x + (2 ^ k - 1)) = unat x + (2 ^ k - 1)"
    using fits k by (simp add: word_to_nat unat_pow2)
  then have "unat (x + 2 ^ k - 1) = unat x + (2 ^ k - 1)" by (simp add: algebra_simps)
  then have eq: "unat (alignUp x (2 ^ k)) = (unat x + (2 ^ k - 1)) - (unat x + (2 ^ k - 1)) mod 2 ^ k"
    by (simp add: alignUp_def alignDown_pow2 k)
  show "2 ^ k dvd unat (alignUp x (2 ^ k))" by (simp add: alignUp_def alignDown_pow2_dvd k)
  have "(unat x + (2 ^ k - 1)) mod 2 ^ k < 2 ^ k" by (rule mod_less_divisor) simp
  then have "(unat x + (2 ^ k - 1)) mod 2 ^ k \<le> 2 ^ k - 1" by linarith
  then show "x \<le> alignUp x (2 ^ k)" unfolding word_le_nat_alt eq by linarith
  show "unat (alignUp x (2 ^ k)) < unat x + 2 ^ k"
    unfolding eq by (simp add: less_imp_diff_less)
qed

end
