(* ===== verification/Tmmgr_Invariant.thy ===== *)
theory Tmmgr_Invariant
  imports Segments
begin

text \<open>
  The invariant of the memory manager (\<open>tmmgr_inv\<close>): the indexes agree, the segments tile the
  memory, the two maps of handles are inverse to each other, the counter of free bytes and the
  high water mark are exact, and everything is aligned.  The lemmas determine the results of
  \<^verbatim>\<open>alloc\<close>, \<^verbatim>\<open>free\<close> and \<^verbatim>\<open>resize\<close> on a state that satisfies it and show that it is kept.
\<close>

section \<open>The invariant\<close>

section \<open>The invariant\<close>

definition aligned :: "tmmgr \<Rightarrow> bool" where
  "aligned m \<longleftrightarrow>
     (\<exists>k < 64. align m = 2 ^ k) \<and>
     unat (align m) dvd unat (mem_size m) \<and>
     (\<forall>off s. free_segment_start m off = Some s \<longrightarrow>
        unat (align m) dvd unat off \<and> unat (align m) dvd unat s) \<and>
     (\<forall>h off s. handle_to_offset_and_size m h = Some (off, s) \<longrightarrow>
        unat (align m) dvd unat off \<and> unat (align m) dvd unat s)"

definition handles_ok :: "tmmgr \<Rightarrow> bool" where
  "handles_ok m \<longleftrightarrow>
     (\<forall>h off s. handle_to_offset_and_size m h = Some (off, s) \<longrightarrow> offset_to_handle m off = Some h) \<and>
     (\<forall>off h. offset_to_handle m off = Some h \<longrightarrow> (\<exists>s. handle_to_offset_and_size m h = Some (off, s)))"

definition high_water_ok :: "tmmgr \<Rightarrow> bool" where
  "high_water_ok m \<longleftrightarrow>
     used_bytes (handle_to_offset_and_size m) \<subseteq> {..<unat (high_water m)} \<and>
     (high_water m = 0 \<or> unat (high_water m) - 1 \<in> used_bytes (handle_to_offset_and_size m))"

definition tmmgr_inv :: "tmmgr \<Rightarrow> bool" where
  "tmmgr_inv m \<longleftrightarrow>
     indexes_ok (free_offset_by_size m) (free_segment_start m) (free_segment_end m) \<and>
     tiling (free_segment_start m) (handle_to_offset_and_size m) (unat (mem_size m)) \<and>
     handles_ok m \<and>
     unat (mem_free m) = card (free_bytes (free_segment_start m)) \<and>
     high_water_ok m \<and>
     aligned m"

lemma tmmgr_invD:
  assumes "tmmgr_inv m"
  shows "indexes_ok (free_offset_by_size m) (free_segment_start m) (free_segment_end m)"
    and "tiling (free_segment_start m) (handle_to_offset_and_size m) (unat (mem_size m))"
    and "handles_ok m"
    and "unat (mem_free m) = card (free_bytes (free_segment_start m))"
    and "high_water_ok m"
    and "aligned m"
  using assms by (simp_all add: tmmgr_inv_def)

lemma free_bytes_finite [simp, intro]: "finite (free_bytes F)"
  by (simp add: free_bytes_def seg_def)

lemma used_bytes_finite [simp, intro]: "finite (used_bytes U)"
  by (simp add: used_bytes_def seg_def)

lemma card_seg [simp]: "card (seg off s) = unat s"
  by (simp add: seg_def)

lemma seg_finite [simp, intro]: "finite (seg off s)"
  by (simp add: seg_def)

lemma mem_size_lt: "unat (mem_size m) < 2 ^ 64"
  using u64_lt by simp

lemma tmmgr_init_inv:
  assumes "k < 64"
  shows "tmmgr_inv (tmmgr_init MemSize (2 ^ k))"
proof -
  define size where "size = alignDown MemSize (2 ^ k)"
  define m0 where "m0 = \<lparr>handle_to_offset_and_size = Map.empty, offset_to_handle = Map.empty,
         free_offset_by_size = [], free_segment_start = Map.empty,
         free_segment_end = Map.empty, align = 2 ^ k, mem_size = size, mem_free = size,
         high_water = 0\<rparr>"
  let ?F = "if size = 0 then Map.empty else [0 \<mapsto> size]"
  have dvd: "2 ^ k dvd unat size" by (simp add: size_def alignDown_pow2_dvd assms)
  have "indexes_ok (free_offset_by_size m0) (free_segment_start m0) (free_segment_end m0)"
    by (simp add: indexes_ok_def m0_def)
  then obtain B E where ins: "insert_free_segment m0 0 size =
      m0\<lparr>free_offset_by_size := B, free_segment_start := ?F, free_segment_end := E\<rparr>"
    and ok: "indexes_ok B ?F E"
    by (rule insert_free_segment_ok [of m0 0 size ?F]) (use u64_lt [of size] in \<open>simp_all add: m0_def\<close>)
  have fb: "free_bytes ?F = {..<unat size}"
    by (auto simp: free_bytes_def seg_def)
  have til: "tiling ?F Map.empty (unat size)"
    by (rule tilingI) (auto simp: fb used_bytes_def word_neq_0_conv split: if_splits)
  define m1 where "m1 = m0\<lparr>free_offset_by_size := B, free_segment_start := ?F, free_segment_end := E\<rparr>"
  have "handles_ok m1" by (simp add: m1_def m0_def handles_ok_def)
  moreover have "high_water_ok m1" by (simp add: m1_def m0_def high_water_ok_def used_bytes_def)
  moreover have "aligned m1" using dvd assms by (auto simp: m1_def m0_def aligned_def unat_pow2)
  ultimately have "tmmgr_inv m1"
    using ok til fb by (simp add: tmmgr_inv_def) (simp add: m1_def m0_def)
  moreover have "tmmgr_init MemSize (2 ^ k) = insert_free_segment m0 0 size"
    by (simp add: tmmgr_init_def size_def m0_def Let_def)
  ultimately show ?thesis by (simp add: ins m1_def)
qed

lemma free_segment_le_mem_free:
  assumes "tmmgr_inv m" and "free_segment_start m off = Some s"
  shows "s \<le> mem_free m"
proof -
  have "seg off s \<subseteq> free_bytes (free_segment_start m)"
    using free_bytesI [of "free_segment_start m", OF assms(2)] by blast
  then have "card (seg off s) \<le> card (free_bytes (free_segment_start m))"
    by (intro card_mono) auto
  then show ?thesis using tmmgr_invD(4) [OF assms(1)] by (simp add: word_to_nat)
qed

section \<open>Allocation: the new state\<close>

lemma fhg_assert_True [simp]: "fhg_assert dbg True = Inr ()"
  by (simp add: fhg_assert_def)

lemma map_emplace_None [simp]: "m k = None \<Longrightarrow> map_emplace m k v = m(k \<mapsto> v)"
  by (simp add: map_emplace_def)

text \<open>The start of a free segment is not the offset of any handle.\<close>

lemma free_start_no_handle:
  assumes "tmmgr_inv m" and "free_segment_start m off = Some f"
  shows "offset_to_handle m off = None"
proof (rule ccontr)
  assume "offset_to_handle m off \<noteq> None"
  then obtain h where "offset_to_handle m off = Some h" by blast
  then obtain s where h: "handle_to_offset_and_size m h = Some (off, s)"
    using tmmgr_invD(3) [OF assms(1)] unfolding handles_ok_def by blast
  show False
    using tiling_start_used [of "free_segment_start m", OF tmmgr_invD(2) [OF assms(1)] h] assms(2)
    by simp
qed

lemma handles_insert:
  assumes U: "\<And>h off s. U h = Some (off, s) \<Longrightarrow> O' off = Some h"
    and O: "\<And>off h. O' off = Some h \<Longrightarrow> \<exists>s. U h = Some (off, s)"
    and new: "U h = None" "O' off = None"
  shows "(U(h \<mapsto> (off, s))) k = Some (p, t) \<Longrightarrow> (O'(off \<mapsto> h)) p = Some k"
    and "(O'(off \<mapsto> h)) p = Some k \<Longrightarrow> \<exists>t. (U(h \<mapsto> (off, s))) k = Some (p, t)"
  subgoal using U [of k p t] new by (auto split: if_splits)
  subgoal using O [of p k] new by (auto split: if_splits)
  done

text \<open>
  Taking the first \<open>S\<close> bytes of a free segment of \<open>f\<close> bytes for the handle \<open>h\<close> keeps the
  invariant, whatever the two remaining indexes \<open>B\<close> and \<open>E\<close> look like.
\<close>

lemma tmmgr_inv_take:
  assumes inv: "tmmgr_inv m" and S: "0 < S" "S \<le> f" and seg: "free_segment_start m off = Some f"
    and new: "handle_to_offset_and_size m h = None" and dvd: "unat (align m) dvd unat S"
    and F': "F' = (if f = S then (free_segment_start m)(off := None)
                   else ((free_segment_start m)(off := None))(off + S \<mapsto> f - S))"
    and ok: "indexes_ok B F' E"
  shows "tmmgr_inv (m\<lparr>mem_free := mem_free m - S,
      high_water := (if high_water m < off + S then off + S else high_water m),
      free_offset_by_size := B, free_segment_start := F', free_segment_end := E,
      handle_to_offset_and_size := (handle_to_offset_and_size m)(h \<mapsto> (off, S)),
      offset_to_handle := (offset_to_handle m)(off \<mapsto> h)\<rparr>)" (is "tmmgr_inv ?m")
proof -
  let ?F = "free_segment_start m" and ?U = "handle_to_offset_and_size m" and ?N = "unat (mem_size m)"
  let ?U' = "?U(h \<mapsto> (off, S))"
  note D = tmmgr_invD [OF inv]
  note A = tiling_alloc [of ?F ?U ?N off f S h, OF D(2) mem_size_lt seg S new, folded F']
  have fit: "unat off + unat f \<le> ?N" by (rule tiling_free_fits [of ?F, OF D(2) seg])
  have uS: "0 < unat S" "unat S \<le> unat f" using S by (simp_all add: word_to_nat)
  have u: "unat (off + S) = unat off + unat S" "unat (f - S) = unat f - unat S"
    using uS fit mem_size_lt [of m] by (simp_all add: word_to_nat)
  have "handles_ok ?m"
    using handles_insert [of ?U "offset_to_handle m" h off, OF _ _ new free_start_no_handle [OF inv seg]] D(3)
    unfolding handles_ok_def by simp
  moreover have "unat (mem_free ?m) = card (free_bytes F')"
  proof -
    have "S \<le> mem_free m" using free_segment_le_mem_free [OF inv seg] S(2) by simp
    then have "unat (mem_free m - S) = unat (mem_free m) - unat S" by (simp add: word_to_nat)
    also have "\<dots> = card (free_bytes ?F - seg off S)"
      using A(4) D(4) by (simp add: card_Diff_subset)
    finally show ?thesis by (simp add: A(2))
  qed
  moreover have "high_water_ok ?m"
  proof -
    have "used_bytes ?U \<subseteq> {..<unat (high_water m)}"
        "high_water m = 0 \<or> unat (high_water m) - 1 \<in> used_bytes ?U"
      using D(5) by (auto simp: high_water_ok_def)
    moreover have "unat off + unat S - 1 \<in> seg off S" using uS by (simp add: seg_iff)
    moreover have "seg off S \<subseteq> {..<unat off + unat S}" by (auto simp: seg_iff)
    ultimately show ?thesis
      by (fastforce simp: high_water_ok_def A(3) word_less_nat_alt u)
  qed
  moreover have "aligned ?m"
  proof -
    have "unat (align m) dvd unat off" "unat (align m) dvd unat f"
      using D(6) seg by (auto simp: aligned_def)
    then have "unat (align m) dvd unat (off + S)" "unat (align m) dvd unat (f - S)"
        "unat (align m) dvd unat off"
      using dvd by (auto simp: u)
    then show ?thesis
      using D(6) dvd by (auto simp: aligned_def F' split: if_splits)
  qed
  ultimately show ?thesis using A(1) ok by (simp add: tmmgr_inv_def)
qed

section \<open>Allocation: the operation\<close>

definition taken :: "tmmgr \<Rightarrow> u64 \<Rightarrow> u64 \<Rightarrow> u64 \<Rightarrow> (u64 \<rightharpoonup> u64)" where
  "taken m off f S = (if f = S then (free_segment_start m)(off := None)
                      else ((free_segment_start m)(off := None))(off + S \<mapsto> f - S))"

lemma delete_ok:
  assumes "indexes_ok (free_offset_by_size m) F (free_segment_end m)" and "free_segment_start m = F"
    and "F off = Some s"
  obtains B E where "delete_free_segment m off s =
      Inr (m\<lparr>free_offset_by_size := B, free_segment_start := F(off := None), free_segment_end := E\<rparr>)"
    and "indexes_ok B (F(off := None)) E"
proof (rule delete_free_segment_ok [of m off s])
  show "indexes_ok (free_offset_by_size m) (free_segment_start m) (free_segment_end m)"
    "free_segment_start m off = Some s" using assms by simp_all
qed (use assms(2) that in blast)

lemma insert_ok:
  assumes "indexes_ok (free_offset_by_size m) F (free_segment_end m)" and F: "free_segment_start m = F"
    and fits: "unat off + unat s < 2 ^ 64"
    and new: "0 < s \<Longrightarrow> F off = None" "\<And>o' t. 0 < s \<Longrightarrow> F o' = Some t \<Longrightarrow> o' + t \<noteq> off + s"
    and F': "F' = (if s = 0 then F else F(off \<mapsto> s))"
  obtains B E where "insert_free_segment m off s =
      m\<lparr>free_offset_by_size := B, free_segment_start := F', free_segment_end := E\<rparr>"
    and "indexes_ok B F' E"
proof (rule insert_free_segment_ok [of m off s F'])
  show "indexes_ok (free_offset_by_size m) (free_segment_start m) (free_segment_end m)"
    using assms(1) F by simp
  show "F' = (if s = 0 then free_segment_start m else (free_segment_start m)(off \<mapsto> s))"
    using F F' by simp
qed (use fits new F that in blast)+

lemma tiling_free_inside:
  assumes T: "tiling F U N" and "F off = Some f" and "0 < S" "S < f" and "N < 2 ^ 64"
  shows "F (off + S) = None"
proof (rule ccontr)
  assume "F (off + S) \<noteq> None"
  then obtain t where t: "F (off + S) = Some t" by blast
  have fit: "unat off + unat f \<le> N" by (rule tiling_free_fits [of F, OF T assms(2)])
  have n: "0 < unat S" "unat S < unat f" using assms(3,4) by (simp_all add: word_to_nat unat_gt_0)
  then have u: "unat (off + S) = unat off + unat S" using fit assms(5) by (simp add: word_to_nat)
  have "0 < unat t" using tilingD(1) [of F, OF T t] by (simp add: word_to_nat)
  then have "unat (off + S) \<in> seg off f" "unat (off + S) \<in> seg (off + S) t"
    using u n by (simp_all add: seg_iff)
  from tilingD(3) [of F, OF T assms(2) t this] show False using n(1) u by simp
qed

lemma alloc_success:
  fixes dbg m h size
  defines "S \<equiv> alignUp size (align m)"
  assumes inv: "tmmgr_inv m" and S: "0 < S" "unat (align m) dvd unat S" "S \<le> mem_free m"
    and new: "handle_to_offset_and_size m h = None"
    and lb: "bucket_lower_bound S (free_offset_by_size m) = Some (k, offs)"
  obtains B E where
    "alloc dbg m h size = Inr (m\<lparr>mem_free := mem_free m - S,
       high_water := (if high_water m < hd offs + S then hd offs + S else high_water m),
       free_offset_by_size := B, free_segment_start := taken m (hd offs) k S, free_segment_end := E,
       handle_to_offset_and_size := (handle_to_offset_and_size m)(h \<mapsto> (hd offs, S)),
       offset_to_handle := (offset_to_handle m)(hd offs \<mapsto> h)\<rparr>, (hd offs, S))"
    and "indexes_ok B (taken m (hd offs) k S) E"
    and "free_segment_start m (hd offs) = Some k" and "S \<le> k"
    and "\<And>o' t. free_segment_start m o' = Some t \<Longrightarrow> S \<le> t \<Longrightarrow> k \<le> t"
proof -
  let ?off = "hd offs" and ?F = "free_segment_start m"
  note ok = tmmgr_invD(1) [OF inv]
  note I = indexes_okD [OF ok]
  note L = bucket_lower_bound_Some [OF I(1) lb]
  have seg: "?F ?off = Some k" using L(2,3) I(2) by (metis hd_in_set)
  have best: "k \<le> t" if "?F o' = Some t" "S \<le> t" for o' t
    using L(4) [OF that(2)] I(2) [of o' t] that(1) by (metis empty_iff not_le)
  define m1 where "m1 = m\<lparr>mem_free := mem_free m - S,
      high_water := (if high_water m < ?off + S then ?off + S else high_water m)\<rparr>"
  obtain B1 E1 where del: "delete_free_segment m1 ?off k =
      Inr (m1\<lparr>free_offset_by_size := B1, free_segment_start := ?F(?off := None), free_segment_end := E1\<rparr>)"
    and ok1: "indexes_ok B1 (?F(?off := None)) E1"
    by (rule delete_ok [of m1 ?F ?off k]) (use ok seg in \<open>simp_all add: m1_def\<close>)
  have fit: "unat ?off + unat k < 2 ^ 64" by (rule I(4) [OF seg])
  have uS: "unat S \<le> unat k" using L(1) by (simp add: word_to_nat)
  have u: "unat (?off + S) = unat ?off + unat S" "unat (k - S) = unat k - unat S"
    using uS fit by (simp_all add: word_to_nat)
  have sum: "?off + S + (k - S) = ?off + k" by simp
  note T = tmmgr_invD(2) [OF inv]
  define m2 where "m2 = m1\<lparr>free_offset_by_size := B1, free_segment_start := ?F(?off := None), free_segment_end := E1\<rparr>"
  have free_off: "(?F(?off := None)) (?off + S) = None" if "0 < k - S"
    using that L(1) tiling_free_inside [of ?F, OF T seg S(1) _ mem_size_lt] by (cases "S = k") auto
  have no_end: "o' + t \<noteq> ?off + S + (k - S)" if "(?F(?off := None)) o' = Some t" for o' t
    using that I(5) [of o' t] I(5) [OF seg] sum by (auto split: if_splits)
  obtain B E where ins: "insert_free_segment m2 (?off + S) (k - S) =
      m2\<lparr>free_offset_by_size := B, free_segment_start := taken m ?off k S, free_segment_end := E\<rparr>"
    and ok2: "indexes_ok B (taken m ?off k S) E"
    by (rule insert_ok [of m2 "?F(?off := None)" "?off + S" "k - S" "taken m ?off k S"])
       (use ok1 u uS fit free_off no_end in \<open>simp_all add: m2_def taken_def\<close>)
  have asserts: "free_segment_end m (?off + k) = Some k" "S \<le> k" using I(5) [OF seg] L(1) by simp_all
  have "alloc dbg m h size =
      Inr (m2\<lparr>free_offset_by_size := B, free_segment_start := taken m ?off k S, free_segment_end := E,
            handle_to_offset_and_size := (handle_to_offset_and_size m)(h \<mapsto> (?off, S)),
            offset_to_handle := (offset_to_handle m)(?off \<mapsto> h)\<rparr>, (?off, S))"
    using S new lb seg asserts del ins free_start_no_handle [OF inv seg]
    unfolding alloc_def S_def [symmetric] Let_def m1_def [symmetric] m2_def [symmetric]
    by (simp add: m2_def m1_def)
  then show thesis using ok2 seg L(1) best by (intro that [where B = B and E = E]) (simp_all add: m2_def m1_def)
qed

section \<open>Release: the operation\<close>

definition merged :: "tmmgr \<Rightarrow> u64 \<Rightarrow> u64 \<Rightarrow> u64 \<Rightarrow> u64 \<Rightarrow> (u64 \<rightharpoonup> u64)" where
  "merged m off s sL sR =
     ((free_segment_start m)(off - sL := None, off + s := None))(off - sL \<mapsto> sL + s + sR)"

definition left_free :: "tmmgr \<Rightarrow> u64 \<Rightarrow> u64" where
  "left_free m off = (case free_segment_end m off of None \<Rightarrow> 0 | Some l \<Rightarrow> l)"

definition right_free :: "tmmgr \<Rightarrow> u64 \<Rightarrow> u64" where
  "right_free m off = (case free_segment_start m off of None \<Rightarrow> 0 | Some r \<Rightarrow> r)"

lemma left_free:
  assumes "indexes_ok (free_offset_by_size m) (free_segment_start m) (free_segment_end m)"
  shows "left_free m off \<le> off"
    and "left_free m off \<noteq> 0 \<Longrightarrow> free_segment_start m (off - left_free m off) = Some (left_free m off)"
    and "left_free m off \<noteq> 0 \<Longrightarrow> free_segment_end m off = Some (left_free m off)"
    and "left_free m off = 0 \<Longrightarrow> free_segment_end m off = None"
    and "left_free m off = 0 \<Longrightarrow> \<forall>o' t. free_segment_start m o' = Some t \<longrightarrow> o' + t \<noteq> off"
proof -
  note I = indexes_okD [OF assms]
  show "left_free m off \<le> off"
    using I(6) [of off] by (auto simp: left_free_def split: option.splits)
  show "free_segment_start m (off - left_free m off) = Some (left_free m off)" if "left_free m off \<noteq> 0"
    using that I(7) [of off] by (auto simp: left_free_def split: option.splits)
  show "free_segment_end m off = Some (left_free m off)" if "left_free m off \<noteq> 0"
    using that by (auto simp: left_free_def split: option.splits)
  show none: "free_segment_end m off = None" if "left_free m off = 0"
    using that I(7) [of off] I(3) by (fastforce simp: left_free_def split: option.splits)
  show "\<forall>o' t. free_segment_start m o' = Some t \<longrightarrow> o' + t \<noteq> off" if "left_free m off = 0"
    using none [OF that] indexes_ok_end_None [OF assms] by blast
qed

lemma right_free:
  assumes "indexes_ok B (free_segment_start m) E"
  shows "right_free m off \<noteq> 0 \<Longrightarrow> free_segment_start m off = Some (right_free m off)"
    and "right_free m off = 0 \<Longrightarrow> free_segment_start m off = None"
  using indexes_okD(3) [OF assms, of off] by (auto simp: right_free_def split: option.splits)

text \<open>After the neighbours are gone no free segment ends where the merged one ends.\<close>

lemma merged_end_new:
  assumes inv: "tmmgr_inv m" and h: "handle_to_offset_and_size m h = Some (off, s)"
    and o': "free_segment_start m o' = Some t" "o' \<noteq> off + s"
  shows "o' + t \<noteq> off + s + right_free m (off + s)"
proof
  assume eq: "o' + t = off + s + right_free m (off + s)"
  let ?F = "free_segment_start m" and ?U = "handle_to_offset_and_size m"
  note I = indexes_okD [OF tmmgr_invD(1) [OF inv]] and T = tmmgr_invD(2) [OF inv]
  show False
  proof (cases "right_free m (off + s) = 0")
    case False
    note R = right_free(1) [OF tmmgr_invD(1) [OF inv] False]
    have "t = right_free m (off + s)" using I(5) [OF o'(1)] I(5) [OF R] eq by simp
    then show False using eq o'(2) by simp
  next
    case True
    have fit: "unat o' + unat t \<le> unat (mem_size m)" "unat off + unat s \<le> unat (mem_size m)"
      by (rule tiling_free_fits [of ?F, OF T o'(1)], rule tiling_used_fits [of ?F ?U, OF T h])
    then have u: "unat (o' + t) = unat o' + unat t" "unat (off + s) = unat off + unat s"
      using mem_size_lt [of m] by (simp_all add: word_to_nat)
    then have e: "unat o' + unat t = unat off + unat s" using eq True by simp
    have "0 < unat t" "0 < unat s"
      using tilingD(1) [of ?F, OF T o'(1)] tilingD(2) [of ?F ?U, OF T h] by (simp_all add: word_to_nat)
    then have "unat off + unat s - 1 \<in> seg o' t" "unat off + unat s - 1 \<in> seg off s"
      using e by (auto simp: seg_iff)
    then show False using tiling_free_used_disj [of ?F ?U, OF T o'(1) h] by blast
  qed
qed

definition delete_opt :: "tmmgr \<Rightarrow> u64 \<Rightarrow> u64 \<Rightarrow> tmmgr_error + tmmgr" where
  "delete_opt m off s = (if s = 0 then Inr m else delete_free_segment m off s)"

lemma delete_opt_ok:
  assumes ok: "indexes_ok (free_offset_by_size m) F (free_segment_end m)" and F: "free_segment_start m = F"
    and "s \<noteq> 0 \<Longrightarrow> F off = Some s" and "s = 0 \<Longrightarrow> F off = None"
  obtains B E where "delete_opt m off s =
      Inr (m\<lparr>free_offset_by_size := B, free_segment_start := F(off := None), free_segment_end := E\<rparr>)"
    and "indexes_ok B (F(off := None)) E"
proof (cases "s = 0")
  case True
  have "F(off := None) = F" using assms(4) [OF True] by (simp add: fun_upd_idem)
  then show thesis
    using ok F True by (intro that [where B = "free_offset_by_size m" and E = "free_segment_end m"])
      (simp_all add: delete_opt_def)
next
  case False
  show thesis
    by (rule delete_ok [OF ok F assms(3) [OF False]])
       (use False that in \<open>simp add: delete_opt_def\<close>)
qed

lemma free_eq:
  fixes m h off s
  defines "sL \<equiv> left_free m off" and "sR \<equiv> right_free m (off + s)"
  defines "m1 \<equiv> m\<lparr>mem_free := mem_free m + s,
     handle_to_offset_and_size := (handle_to_offset_and_size m)(h := None),
     offset_to_handle := (offset_to_handle m)(off := None),
     high_water := (if off + s = high_water m then off - sL else high_water m)\<rparr>"
  assumes inv: "tmmgr_inv m" and h: "handle_to_offset_and_size m h = Some (off, s)"
  shows "free dbg m h =
     and_then (delete_opt m1 (off - sL) sL) (\<lambda>m2. and_then (delete_opt m2 (off + s) sR) (\<lambda>m3.
     Inr (insert_free_segment m3 (off - sL) (sL + s + sR))))"
proof -
  note ok = tmmgr_invD(1) [OF inv]
  have s: "0 < s" using tilingD(2) [of _ "handle_to_offset_and_size m", OF tmmgr_invD(2) [OF inv] h] .
  have hw: "(case free_segment_end m off of None \<Rightarrow> 0 | Some l \<Rightarrow> l) = sL" by (simp add: sL_def left_free_def)
  have L: "free_segment_end m off = (if sL = 0 then None else Some sL)"
    using left_free(3,4) [OF ok, of off] by (simp add: sL_def)
  have R: "free_segment_start m (off + s) = (if sR = 0 then None else Some sR)"
    using right_free [OF ok, of "off + s"] by (simp add: sR_def)
  have le: "sL \<le> off" using left_free(1) [OF ok] by (simp add: sL_def)
  show ?thesis
    using h s le unfolding free_def hw Let_def
    by (cases "sL = 0"; cases "sR = 0") (simp_all add: L R delete_opt_def m1_def)
qed

lemma free_success:
  fixes m h off s
  defines "sL \<equiv> left_free m off" and "sR \<equiv> right_free m (off + s)"
  assumes inv: "tmmgr_inv m" and h: "handle_to_offset_and_size m h = Some (off, s)"
  obtains B E where "free dbg m h = Inr (m\<lparr>mem_free := mem_free m + s,
     handle_to_offset_and_size := (handle_to_offset_and_size m)(h := None),
     offset_to_handle := (offset_to_handle m)(off := None),
     high_water := (if off + s = high_water m then off - sL else high_water m),
     free_offset_by_size := B, free_segment_start := merged m off s sL sR, free_segment_end := E\<rparr>)"
   and "indexes_ok B (merged m off s sL sR) E"
proof -
  let ?F = "free_segment_start m" and ?U = "handle_to_offset_and_size m"
  note ok = tmmgr_invD(1) [OF inv] and T = tmmgr_invD(2) [OF inv]
  note L = left_free [OF ok, of off, folded sL_def]
  note R = right_free [OF ok, of "off + s", folded sR_def]
  have R': "sR = (case ?F (off + s) of None \<Rightarrow> 0 | Some r \<Rightarrow> r)" by (simp add: sR_def right_free_def)
  note M = tiling_free [of ?F ?U, OF T mem_size_lt h L(1,2,5) R']
  have FL: "?F off = None" by (rule tiling_start_used [of ?F ?U, OF T h])
  define m1 where "m1 = m\<lparr>mem_free := mem_free m + s, handle_to_offset_and_size := ?U(h := None),
     offset_to_handle := (offset_to_handle m)(off := None),
     high_water := (if off + s = high_water m then off - sL else high_water m)\<rparr>"
  obtain B1 E1 where d1: "delete_opt m1 (off - sL) sL = Inr (m1\<lparr>free_offset_by_size := B1,
      free_segment_start := ?F(off - sL := None), free_segment_end := E1\<rparr>)"
    and ok1: "indexes_ok B1 (?F(off - sL := None)) E1"
    by (rule delete_opt_ok [of m1 ?F sL "off - sL"]) (use ok L(2) FL in \<open>simp_all add: m1_def\<close>)
  define m2 where "m2 = m1\<lparr>free_offset_by_size := B1,
      free_segment_start := ?F(off - sL := None), free_segment_end := E1\<rparr>"
  have sep: "off - sL \<noteq> off + s"
  proof -
    have "off - sL \<le> off" using L(1) by (simp add: word_to_nat)
    moreover have "off < off + s"
      using tiling_used_fits [of ?F ?U, OF T h] mem_size_lt [of m] tilingD(2) [of ?F ?U, OF T h]
      by (simp add: word_to_nat)
    ultimately show ?thesis by (metis not_le)
  qed
  obtain B2 E2 where d2: "delete_opt m2 (off + s) sR = Inr (m2\<lparr>free_offset_by_size := B2,
      free_segment_start := ?F(off - sL := None, off + s := None), free_segment_end := E2\<rparr>)"
    and ok2: "indexes_ok B2 (?F(off - sL := None, off + s := None)) E2"
    by (rule delete_opt_ok [of m2 "?F(off - sL := None)" sR "off + s"])
       (use ok1 R sep in \<open>auto simp: m2_def\<close>)
  define m3 where "m3 = m2\<lparr>free_offset_by_size := B2,
      free_segment_start := ?F(off - sL := None, off + s := None), free_segment_end := E2\<rparr>"
  have sum: "off - sL + (sL + s + sR) = off + s + sR" by simp
  obtain B E where ins: "insert_free_segment m3 (off - sL) (sL + s + sR) = m3\<lparr>free_offset_by_size := B,
      free_segment_start := merged m off s sL sR, free_segment_end := E\<rparr>"
    and ok3: "indexes_ok B (merged m off s sL sR) E"
  proof (rule insert_ok [of m3 "?F(off - sL := None, off + s := None)" "off - sL" "sL + s + sR" "merged m off s sL sR"])
    show "unat (off - sL) + unat (sL + s + sR) < 2 ^ 64" using M(4) mem_size_lt [of m] by simp
    show "o' + t \<noteq> off - sL + (sL + s + sR)"
      if "(?F(off - sL := None, off + s := None)) o' = Some t" for o' t
      using merged_end_new [OF inv h, of o' t] that unfolding sum sR_def by (auto split: if_splits)
    show "merged m off s sL sR = (if sL + s + sR = 0 then ?F(off - sL := None, off + s := None)
        else (?F(off - sL := None, off + s := None))(off - sL \<mapsto> sL + s + sR))"
      using M(5) unfolding merged_def by (metis less_irrefl)
  qed (use ok2 in \<open>simp_all add: m3_def\<close>)
  have "free dbg m h = Inr (m3\<lparr>free_offset_by_size := B,
      free_segment_start := merged m off s sL sR, free_segment_end := E\<rparr>)"
    using free_eq [OF inv h, of dbg] d1 d2 ins
    unfolding sL_def [symmetric] sR_def [symmetric] m1_def [symmetric]
    by (simp add: m2_def [symmetric] m3_def [symmetric])
  then show thesis using ok3 by (intro that [where B = B and E = E]) (simp_all add: m3_def m2_def m1_def)
qed

section \<open>Release: the new state\<close>

lemma pow2_dvd_unat_add:
  fixes a b :: u64
  assumes "k < 64" "2 ^ k dvd unat a" "2 ^ k dvd unat b"
  shows "2 ^ k dvd unat (a + b)"
proof -
  have "(2::nat) ^ k dvd 2 ^ 64" using assms(1) by (intro le_imp_power_dvd) simp
  then show ?thesis using assms(2,3) by (simp add: unat_word_ariths dvd_mod)
qed

lemma pow2_dvd_unat_sub:
  fixes a b :: u64
  assumes "2 ^ k dvd unat a" "2 ^ k dvd unat b" "b \<le> a"
  shows "2 ^ k dvd unat (a - b)"
  using assms by (simp add: unat_sub word_le_nat_alt)

lemma tiling_before_free:
  assumes T: "tiling F U N" and N: "N < 2 ^ 64" and p: "F p = Some f" "0 < unat p"
  shows "unat p - 1 \<in> used_bytes U"
proof (rule ccontr)
  note D = tilingD [OF T]
  assume "unat p - 1 \<notin> used_bytes U"
  moreover have "unat p - 1 < N" using tiling_free_fits [of F, OF T p(1)] D(1) [OF p(1)] by (simp add: word_to_nat)
  ultimately have "unat p - 1 \<in> free_bytes F" using D(6) by auto
  then obtain o' t where o': "F o' = Some t" "unat p - 1 \<in> seg o' t" by (auto simp: free_bytes_def)
  have "o' \<noteq> p" using o'(2) p(2) by (auto simp: seg_iff)
  moreover have "unat p \<in> seg p f" using D(1) [OF p(1)] by (simp add: seg_iff word_to_nat)
  ultimately have "unat p \<notin> seg o' t" using D(3) [OF o'(1) p(1)] by blast
  then have "unat o' + unat t = unat p" using o'(2) p(2) by (auto simp: seg_iff)
  moreover have "unat (o' + t) = unat o' + unat t"
    using tiling_free_fits [of F, OF T o'(1)] N by (simp add: word_to_nat)
  ultimately have "o' + t = p" by (simp add: word_unat_eq_iff)
  then show False using D(7) [OF o'(1)] p(1) by simp
qed

lemma handles_remove:
  assumes U: "\<And>h off s. U h = Some (off, s) \<Longrightarrow> O' off = Some h"
    and O: "\<And>off h. O' off = Some h \<Longrightarrow> \<exists>s. U h = Some (off, s)"
    and h: "U h = Some (off, s)"
  shows "(U(h := None)) k = Some (p, t) \<Longrightarrow> (O'(off := None)) p = Some k"
    and "(O'(off := None)) p = Some k \<Longrightarrow> \<exists>t. (U(h := None)) k = Some (p, t)"
  subgoal using U [of k p t] U [OF h] by (auto split: if_splits)
  subgoal using O [of p k] h by (auto split: if_splits)
  done

lemma high_water_free:
  assumes hw: "used_bytes U \<subseteq> {..<w}" "w = 0 \<or> w - 1 \<in> used_bytes U"
    and h: "U h = Some (off, s)" and s: "0 < unat s"
    and used: "used_bytes U' = used_bytes U - seg off s"
    and free: "\<And>x. unat off - l \<le> x \<Longrightarrow> x < unat off + unat s \<Longrightarrow> x \<notin> used_bytes U'"
    and before: "0 < unat off - l \<Longrightarrow> unat off - l - 1 \<in> used_bytes U'"
    and w': "w' = (if unat off + unat s = w then unat off - l else w)"
  shows "used_bytes U' \<subseteq> {..<w'}" and "w' = 0 \<or> w' - 1 \<in> used_bytes U'"
proof -
  have last: "unat off + unat s - 1 \<in> used_bytes U"
    by (rule used_bytesI [of U, OF h]) (use s in \<open>simp add: seg_iff\<close>)
  show "used_bytes U' \<subseteq> {..<w'}"
  proof
    fix x assume x: "x \<in> used_bytes U'"
    then have "x < w" using used hw(1) by auto
    then show "x \<in> {..<w'}" using free [of x] x w' by (cases "unat off - l \<le> x") (auto split: if_splits)
  qed
  show "w' = 0 \<or> w' - 1 \<in> used_bytes U'"
  proof (cases "unat off + unat s = w")
    case True
    then show ?thesis using before w' by (cases "unat off - l = 0") auto
  next
    case False
    have "unat off + unat s - 1 < w" using last hw(1) by auto
    then have "w - 1 \<notin> seg off s" using False s by (auto simp: seg_iff)
    then show ?thesis using hw(2) w' used False by auto
  qed
qed

lemma tmmgr_inv_give:
  fixes m h off s
  defines "sL \<equiv> left_free m off" and "sR \<equiv> right_free m (off + s)"
  assumes inv: "tmmgr_inv m" and h: "handle_to_offset_and_size m h = Some (off, s)"
    and ok': "indexes_ok B (merged m off s sL sR) E"
  shows "tmmgr_inv (m\<lparr>mem_free := mem_free m + s,
     handle_to_offset_and_size := (handle_to_offset_and_size m)(h := None),
     offset_to_handle := (offset_to_handle m)(off := None),
     high_water := (if off + s = high_water m then off - sL else high_water m),
     free_offset_by_size := B, free_segment_start := merged m off s sL sR, free_segment_end := E\<rparr>)"
    (is "tmmgr_inv ?m")
proof -
  let ?F = "free_segment_start m" and ?U = "handle_to_offset_and_size m"
  note D = tmmgr_invD [OF inv]
  note L = left_free [OF D(1), of off, folded sL_def]
  note R = right_free [OF D(1), of "off + s", folded sR_def]
  have R': "sR = (case ?F (off + s) of None \<Rightarrow> 0 | Some r \<Rightarrow> r)" by (simp add: sR_def right_free_def)
  note M = tiling_free [of ?F ?U, OF D(2) mem_size_lt h L(1,2,5) R', folded merged_def]
  have s: "0 < unat s" using tilingD(2) [of ?F ?U, OF D(2) h] by (simp add: word_to_nat)
  have fit: "unat off + unat s \<le> unat (mem_size m)" by (rule tiling_used_fits [of ?F ?U, OF D(2) h])
  have uL: "unat (off - sL) = unat off - unat sL" using L(1) by (simp add: unat_sub word_le_nat_alt)
  have u: "unat (off + s) = unat off + unat s" using fit mem_size_lt [of m] by (simp add: word_to_nat)
  have "handles_ok ?m"
    using handles_remove [of ?U "offset_to_handle m" h off s, OF _ _ h] D(3)
    unfolding handles_ok_def by simp
  moreover have "unat (mem_free ?m) = card (free_bytes (merged m off s sL sR))"
  proof -
    have "seg off s \<inter> free_bytes ?F = {}"
      using used_bytesI [of ?U, OF h] tilingD(5) [OF D(2)] by blast
    then have c: "card (free_bytes ?F \<union> seg off s) = unat (mem_free m) + unat s"
      using D(4) by (simp add: card_Un_disjoint Int_commute)
    have "free_bytes ?F \<union> seg off s \<subseteq> {..<unat (mem_size m)}"
      using tilingD(6) [OF M(1)] M(2) by blast
    then have "card (free_bytes ?F \<union> seg off s) \<le> unat (mem_size m)"
      using card_mono [of "{..<unat (mem_size m)}"] by fastforce
    then show ?thesis using c M(2) mem_size_lt [of m] by (simp add: word_to_nat)
  qed
  moreover have "high_water_ok ?m"
  proof -
    have F': "merged m off s sL sR (off - sL) = Some (sL + s + sR)" by (simp add: merged_def)
    have free: "x \<notin> used_bytes (?U(h := None))"
      if "unat off - unat sL \<le> x" "x < unat off + unat s" for x
    proof -
      have "x \<in> free_bytes (merged m off s sL sR)"
      proof (cases "x < unat off")
        case True
        then have "x \<in> seg (off - sL) sL" "sL \<noteq> 0" using that uL by (auto simp: seg_iff)
        then show ?thesis using M(2) free_bytesI [of ?F, OF L(2)] by blast
      next
        case False
        then show ?thesis using that M(2) by (simp add: seg_iff)
      qed
      then show ?thesis using tilingD(5) [OF M(1)] by blast
    qed
    have before: "unat off - unat sL - 1 \<in> used_bytes (?U(h := None))" if "0 < unat off - unat sL"
      using tiling_before_free [of "merged m off s sL sR", OF M(1) mem_size_lt F'] that uL by simp
    have hw: "used_bytes ?U \<subseteq> {..<unat (high_water m)}"
        "unat (high_water m) = 0 \<or> unat (high_water m) - 1 \<in> used_bytes ?U"
      using D(5) by (auto simp: high_water_ok_def)
    have w': "unat (high_water ?m) =
        (if unat off + unat s = unat (high_water m) then unat off - unat sL else unat (high_water m))"
      using u uL by (auto simp: word_unat_eq_iff)
    show ?thesis
      using high_water_free [of ?U, OF hw h s M(3) free before w'] unfolding high_water_ok_def
      by (auto simp: word_unat_eq_iff)
  qed
  moreover have "aligned ?m"
  proof -
    obtain k where k: "k < 64" "align m = 2 ^ k" using D(6) by (auto simp: aligned_def)
    have dvdU: "2 ^ k dvd unat off" "2 ^ k dvd unat s"
      using D(6) h k unat_pow2 [OF k(1)] by (auto simp: aligned_def)
    have dvdF: "2 ^ k dvd unat p \<and> 2 ^ k dvd unat f" if "?F p = Some f" for p f
      using D(6) that k unat_pow2 [OF k(1)] by (auto simp: aligned_def)
    have dL: "2 ^ k dvd unat sL" using dvdF [OF L(2)] by (cases "sL = 0") auto
    have dR: "2 ^ k dvd unat sR" using dvdF [OF R(1)] by (cases "sR = 0") auto
    have "2 ^ k dvd unat (off - sL)" "2 ^ k dvd unat (sL + s + sR)"
      using pow2_dvd_unat_sub [OF dvdU(1) dL L(1)]
        pow2_dvd_unat_add [OF k(1) pow2_dvd_unat_add [OF k(1) dL dvdU(2)] dR] by simp_all
    then show ?thesis
      using D(6) dvdF k unat_pow2 [OF k(1)] by (auto simp: aligned_def merged_def split: if_splits)
  qed
  ultimately show ?thesis using M(1) ok' by (simp add: tmmgr_inv_def)
qed

section \<open>Resizing: the operation\<close>

text \<open>The high water mark is the start of the free segment at the end of the memory, if any.\<close>

lemma high_water_end:
  assumes inv: "tmmgr_inv m"
  shows "high_water m = mem_size m - left_free m (mem_size m)"
proof -
  let ?N = "mem_size m" and ?F = "free_segment_start m" and ?U = "handle_to_offset_and_size m"
  let ?f = "left_free m ?N"
  note D = tmmgr_invD [OF inv]
  note L = left_free [OF D(1), of ?N]
  have u: "unat (?N - ?f) = unat ?N - unat ?f" using L(1) by (simp add: unat_sub word_le_nat_alt)
  have hw: "used_bytes ?U \<subseteq> {..<unat (high_water m)}"
      "unat (high_water m) = 0 \<or> unat (high_water m) - 1 \<in> used_bytes ?U"
    using D(5) by (auto simp: high_water_ok_def)
  have above: "x \<notin> used_bytes ?U" if "unat ?N - unat ?f \<le> x" for x
  proof (cases "x < unat ?N")
    case True
    then have "x \<in> seg (?N - ?f) ?f" "?f \<noteq> 0" using that u by (auto simp: seg_iff)
    then show ?thesis using free_bytesI [of ?F, OF L(2)] tilingD(5) [OF D(2)] by blast
  next
    case False
    then show ?thesis using tilingD(6) [OF D(2)] by auto
  qed
  have below: "unat ?N - unat ?f - 1 \<in> used_bytes ?U" if pos: "0 < unat ?N - unat ?f"
  proof (cases "?f = 0")
    case False
    then show ?thesis using tiling_before_free [of ?F, OF D(2) mem_size_lt L(2)] pos u by simp
  next
    case True
    have "unat ?N - 1 \<notin> free_bytes ?F"
    proof
      assume "unat ?N - 1 \<in> free_bytes ?F"
      then obtain o' t where o': "?F o' = Some t" "unat ?N - 1 \<in> seg o' t" by (auto simp: free_bytes_def)
      then have "unat o' + unat t = unat ?N"
        using tiling_free_fits [of ?F, OF D(2) o'(1)] pos True by (auto simp: seg_iff)
      then have "o' + t = ?N" using mem_size_lt [of m] by (simp add: word_to_nat word_unat_eq_iff)
      then show False using L(5) [OF True] o'(1) by blast
    qed
    moreover have "unat ?N - 1 < unat ?N" using pos by simp
    ultimately show ?thesis using tilingD(6) [OF D(2)] True by auto
  qed
  have "unat (high_water m) = unat ?N - unat ?f"
  proof (rule antisym)
    show "unat (high_water m) \<le> unat ?N - unat ?f"
      using hw(2) above [of "unat (high_water m) - 1"] by linarith
    show "unat ?N - unat ?f \<le> unat (high_water m)"
      using below hw(1) by (cases "unat ?N - unat ?f = 0") auto
  qed
  then show ?thesis using u by (simp add: word_unat_eq_iff)
qed

lemma used_count:
  assumes inv: "tmmgr_inv m"
  shows "unat (mem_size m - mem_free m) = card (used_bytes (handle_to_offset_and_size m))"
    and "mem_size m - mem_free m \<le> high_water m"
    and "high_water m \<le> mem_size m"
proof -
  let ?F = "free_segment_start m" and ?U = "handle_to_offset_and_size m"
  note D = tmmgr_invD [OF inv]
  have "card (free_bytes ?F \<union> used_bytes ?U) = unat (mem_free m) + card (used_bytes ?U)"
    using tilingD(5) [OF D(2)] D(4) by (simp add: card_Un_disjoint)
  then have N: "unat (mem_size m) = unat (mem_free m) + card (used_bytes ?U)"
    using tilingD(6) [OF D(2)] by simp
  then show c: "unat (mem_size m - mem_free m) = card (used_bytes ?U)" by (simp add: word_to_nat)
  have "card (used_bytes ?U) \<le> card {..<unat (high_water m)}"
    using D(5) by (intro card_mono) (auto simp: high_water_ok_def)
  then show "mem_size m - mem_free m \<le> high_water m" using c by (simp add: word_to_nat)
  show "high_water m \<le> mem_size m"
    using left_free(1) [OF D(1), of "mem_size m"] high_water_end [OF inv] by (simp add: word_to_nat)
qed

lemma resize_eq:
  fixes m new
  defines "N' \<equiv> alignDown new (align m)"
  assumes inv: "tmmgr_inv m" and hw: "high_water m \<le> N'" and ne: "N' \<noteq> mem_size m"
  shows "resize dbg m new = and_then (delete_opt m (high_water m) (left_free m (mem_size m))) (\<lambda>m1.
    let m2 = insert_free_segment m1 (high_water m) (N' - high_water m) in
    Inr (m2\<lparr>mem_size := N', mem_free := mem_free m2 + (N' - mem_size m)\<rparr>))"
proof -
  let ?f = "left_free m (mem_size m)"
  note D = tmmgr_invD [OF inv] and C = used_count [OF inv]
  have off: "mem_size m - ?f = high_water m" using high_water_end [OF inv] by simp
  have L: "free_segment_end m (mem_size m) = (if ?f = 0 then None else Some ?f)"
    using left_free(3,4) [OF D(1), of "mem_size m"] by simp
  have nofail: "\<not> N' < mem_size m - mem_free m" "\<not> N' < high_water m" using C(2) hw by auto
  have g: "N' > mem_size m" if "?f = 0" using that off hw ne by (simp add: less_le)
  have a: "N' > mem_size m \<or> mem_size m - N' \<le> ?f"
  proof (cases "N' > mem_size m")
    case False
    then have "unat (mem_size m - N') = unat (mem_size m) - unat N'" by (simp add: unat_sub not_less)
    moreover have "unat (high_water m) = unat (mem_size m) - unat ?f"
      using left_free(1) [OF D(1), of "mem_size m"] off by (metis unat_sub)
    ultimately have "mem_size m - N' \<le> ?f" using hw unfolding word_le_nat_alt by linarith
    then show ?thesis ..
  qed simp
  have f': "?f + (N' - mem_size m) = N' - high_water m" "?f - (mem_size m - N') = N' - high_water m"
    using off by (simp_all add: algebra_simps)
  show ?thesis
  proof (cases "?f = 0")
    case True
    then have "high_water m = mem_size m" using off by simp
    then show ?thesis
      using nofail ne g [OF True] True L unfolding resize_def N'_def [symmetric]
      by (simp add: delete_opt_def Let_def)
  next
    case False
    have d: "x - (mem_size m - N') = x + (N' - mem_size m)" for x :: u64 by simp
    show ?thesis
      using nofail ne a False L unfolding resize_def N'_def [symmetric]
      by (cases "N' > mem_size m") (simp_all add: delete_opt_def Let_def off f' d and_then_assoc)
  qed
qed

section \<open>Resizing: the segment at the end\<close>

definition resized :: "tmmgr \<Rightarrow> u64 \<Rightarrow> (u64 \<rightharpoonup> u64)" where
  "resized m N' = (if N' - high_water m = 0 then (free_segment_start m)(high_water m := None)
                   else (free_segment_start m)(high_water m \<mapsto> N' - high_water m))"

lemma end_segment:
  fixes m
  defines "f \<equiv> left_free m (mem_size m)"
  assumes inv: "tmmgr_inv m"
  shows "unat (high_water m) + unat f = unat (mem_size m)"
    and "f \<noteq> 0 \<Longrightarrow> free_segment_start m (high_water m) = Some f"
    and "f = 0 \<Longrightarrow> free_segment_start m (high_water m) = None"
    and "f = 0 \<Longrightarrow> \<forall>o' t. free_segment_start m o' = Some t \<longrightarrow> unat o' + unat t \<noteq> unat (mem_size m)"
proof -
  note D = tmmgr_invD [OF inv] and W = high_water_end [OF inv]
  note L = left_free [OF D(1), of "mem_size m", folded f_def]
  show "unat (high_water m) + unat f = unat (mem_size m)"
    using L(1) W by (simp add: f_def [symmetric] unat_sub word_le_nat_alt)
  show "free_segment_start m (high_water m) = Some f" if "f \<noteq> 0" using L(2) that W by (simp add: f_def)
  have fits: "unat o' + unat t \<le> unat (mem_size m) \<and> 0 < unat t" if "free_segment_start m o' = Some t" for o' t
    using tiling_free_fits [of "free_segment_start m", OF D(2) that] tilingD(1) [of "free_segment_start m", OF D(2) that]
    by (simp add: word_to_nat)
  show "free_segment_start m (high_water m) = None" if "f = 0"
  proof (rule ccontr)
    assume "free_segment_start m (high_water m) \<noteq> None"
    then show False using fits that W by (fastforce simp: f_def)
  qed
  show "\<forall>o' t. free_segment_start m o' = Some t \<longrightarrow> unat o' + unat t \<noteq> unat (mem_size m)" if "f = 0"
  proof (intro allI impI notI)
    fix o' t assume o': "free_segment_start m o' = Some t" "unat o' + unat t = unat (mem_size m)"
    then have "o' + t = mem_size m" using mem_size_lt [of m] by (simp add: word_to_nat word_unat_eq_iff)
    then show False using L(5) [OF that] o'(1) by blast
  qed
qed

lemma tiling_resized:
  fixes m N'
  defines "f \<equiv> left_free m (mem_size m)" and "F \<equiv> free_segment_start m"
  assumes inv: "tmmgr_inv m" and hw: "high_water m \<le> N'"
  shows "tiling (resized m N') (handle_to_offset_and_size m) (unat N')"
    and "free_bytes (resized m N') = (free_bytes F - seg (high_water m) f) \<union> seg (high_water m) (N' - high_water m)"
    and "free_bytes F - seg (high_water m) f \<subseteq> {..<unat (high_water m)}"
proof -
  note E = end_segment [OF inv, folded f_def F_def]
  have u: "unat (high_water m) + unat (N' - high_water m) = unat N'"
    using hw by (simp add: unat_sub word_le_nat_alt)
  have N': "unat N' < 2 ^ 64" using u64_lt by simp
  note T = tiling_resize [of F, OF tmmgr_invD(2) [OF inv, folded F_def] N' E(1,2,4) u]
  show "tiling (resized m N') (handle_to_offset_and_size m) (unat N')"
    "free_bytes (resized m N') = (free_bytes F - seg (high_water m) f) \<union> seg (high_water m) (N' - high_water m)"
    "free_bytes F - seg (high_water m) f \<subseteq> {..<unat (high_water m)}"
    unfolding resized_def F_def [symmetric] using T(1,2,3) by blast+
qed

lemma resized_end_new:
  assumes inv: "tmmgr_inv m" and hw: "high_water m \<le> N'" and pos: "0 < N' - high_water m"
    and o': "free_segment_start m o' = Some t" "o' \<noteq> high_water m"
  shows "o' + t \<noteq> N'"
proof
  let ?F = "free_segment_start m" and ?f = "left_free m (mem_size m)"
  assume eq: "o' + t = N'"
  note T = tmmgr_invD(2) [OF inv]
  have "unat (o' + t) = unat o' + unat t"
    using tiling_free_fits [of ?F, OF T o'(1)] mem_size_lt [of m] by (simp add: word_to_nat)
  then have last: "unat N' - 1 \<in> seg o' t"
    using eq tilingD(1) [of ?F, OF T o'(1)] by (auto simp: seg_iff word_to_nat)
  have "unat N' - 1 \<notin> seg (high_water m) ?f"
    using tilingD(3) [of ?F, OF T o'(1) end_segment(2) [OF inv] last] o'(2) by (cases "?f = 0") auto
  then have "unat N' - 1 < unat (high_water m)"
    using free_bytesI [of ?F, OF o'(1) last] tiling_resized(3) [OF inv hw] by blast
  then show False using pos hw by (simp add: word_less_nat_alt unat_sub word_le_nat_alt)
qed

lemma resize_success:
  fixes m new
  defines "N' \<equiv> alignDown new (align m)"
  assumes inv: "tmmgr_inv m" and hw: "high_water m \<le> N'"
  obtains B E where "resize dbg m new = Inr (m\<lparr>mem_size := N', mem_free := mem_free m + (N' - mem_size m),
     free_offset_by_size := B, free_segment_start := resized m N', free_segment_end := E\<rparr>)"
    and "indexes_ok B (resized m N') E"
proof (cases "N' = mem_size m")
  case True
  note E = end_segment [OF inv] and C = used_count [OF inv]
  have "resized m N' = free_segment_start m"
    using E(2,3) high_water_end [OF inv] True by (auto simp: resized_def fun_upd_idem)
  moreover have "resize dbg m new = Inr m" 
    using C(3) order_trans [OF C(2,3)] True by (simp add: resize_def N'_def [symmetric] Let_def not_less)
  ultimately show thesis
    using True tmmgr_invD(1) [OF inv]
    by (intro that [where B = "free_offset_by_size m" and E = "free_segment_end m"]) simp_all
next
  case False
  let ?F = "free_segment_start m" and ?f = "left_free m (mem_size m)" and ?hw = "high_water m"
  note ok = tmmgr_invD(1) [OF inv] and E = end_segment [OF inv]
  obtain B1 E1 where d: "delete_opt m ?hw ?f = Inr (m\<lparr>free_offset_by_size := B1,
      free_segment_start := ?F(?hw := None), free_segment_end := E1\<rparr>)"
    and ok1: "indexes_ok B1 (?F(?hw := None)) E1"
    by (rule delete_opt_ok [of m ?F ?f ?hw]) (use ok E(2,3) in auto)
  define m1 where "m1 = m\<lparr>free_offset_by_size := B1, free_segment_start := ?F(?hw := None), free_segment_end := E1\<rparr>"
  have u: "unat ?hw + unat (N' - ?hw) = unat N'" using hw by (simp add: unat_sub word_le_nat_alt)
  have no_end: "o' + t \<noteq> ?hw + (N' - ?hw)" if "(?F(?hw := None)) o' = Some t" "0 < N' - ?hw" for o' t
    using resized_end_new [OF inv hw, of o' t] that by (auto split: if_splits)
  obtain B2 E2 where i: "insert_free_segment m1 ?hw (N' - ?hw) = m1\<lparr>free_offset_by_size := B2,
      free_segment_start := resized m N', free_segment_end := E2\<rparr>"
    and ok2: "indexes_ok B2 (resized m N') E2"
    by (rule insert_ok [of m1 "?F(?hw := None)" ?hw "N' - ?hw" "resized m N'"])
       (use ok1 u u64_lt [of N'] no_end in \<open>auto simp: m1_def resized_def\<close>)
  show thesis
    using resize_eq [OF inv, of new dbg, folded N'_def, OF hw False] d i ok2
    by (intro that [where B = B2 and E = E2]) (simp_all add: m1_def)
qed

section \<open>Resizing: the new state\<close>

lemma tmmgr_inv_resized:
  assumes inv: "tmmgr_inv m" and hw: "high_water m \<le> N'" and dvd: "unat (align m) dvd unat N'"
    and ok': "indexes_ok B (resized m N') E"
  shows "tmmgr_inv (m\<lparr>mem_size := N', mem_free := mem_free m + (N' - mem_size m),
     free_offset_by_size := B, free_segment_start := resized m N', free_segment_end := E\<rparr>)" (is "tmmgr_inv ?m")
proof -
  let ?F = "free_segment_start m" and ?f = "left_free m (mem_size m)" and ?hw = "high_water m"
  let ?f' = "N' - ?hw" and ?c = "card (free_bytes ?F - seg ?hw ?f)"
  note D = tmmgr_invD [OF inv] and E = end_segment [OF inv] and T = tiling_resized [OF inv hw]
  have u: "unat ?hw + unat ?f' = unat N'" using hw by (simp add: unat_sub word_le_nat_alt)
  have "unat (mem_free ?m) = card (free_bytes (resized m N'))"
  proof -
    have "seg ?hw ?f \<subseteq> free_bytes ?F" using E(2) free_bytesI [of ?F] by (cases "?f = 0") auto
    then have c: "unat (mem_free m) = ?c + unat ?f"
      using D(4) card_Diff_subset [of "seg ?hw ?f" "free_bytes ?F"] card_mono [of "free_bytes ?F" "seg ?hw ?f"]
      by simp
    have "(free_bytes ?F - seg ?hw ?f) \<inter> seg ?hw ?f' = {}" using T(3) by (fastforce simp: seg_iff)
    then have c': "card (free_bytes (resized m N')) = ?c + unat ?f'" using T(2) by (simp add: card_Un_disjoint)
    have "?c \<le> unat ?hw" using card_mono [OF _ T(3)] by simp
    then have small: "?c + unat ?f' < 2 ^ 64" using u u64_lt [of N'] by simp
    have "mem_free m = of_nat ?c + ?f" 
    proof -
      have "mem_free m = of_nat (unat (mem_free m))" by simp
      then show ?thesis unfolding c by simp
    qed
    moreover have "N' - mem_size m = ?f' - ?f" using high_water_end [OF inv] by simp
    ultimately have A: "mem_free m + (N' - mem_size m) = of_nat (?c + unat ?f')" by simp
    have "unat (of_nat (?c + unat ?f') :: u64) = ?c + unat ?f'"
      using small by (simp only: unat_of_nat) simp
    then have "unat (mem_free m + (N' - mem_size m)) = ?c + unat ?f'" unfolding A .
    then show ?thesis using c' by simp
  qed
  moreover have "aligned ?m"
  proof -
    obtain k where k: "k < 64" "align m = 2 ^ k" using D(6) by (auto simp: aligned_def)
    have dN: "2 ^ k dvd unat (mem_size m)" "2 ^ k dvd unat N'"
      using D(6) dvd k unat_pow2 [OF k(1)] by (auto simp: aligned_def)
    have dF: "2 ^ k dvd unat p \<and> 2 ^ k dvd unat t" if "?F p = Some t" for p t
      using D(6) that k unat_pow2 [OF k(1)] by (auto simp: aligned_def)
    have dh: "2 ^ k dvd unat ?hw" using dF [OF E(2)] dN(1) E(1) by (cases "?f = 0") auto
    then have "2 ^ k dvd unat ?f'" using pow2_dvd_unat_sub [OF dN(2) _ hw] by blast
    then show ?thesis
      using D(6) dh dN k unat_pow2 [OF k(1)] by (auto simp: aligned_def resized_def split: if_splits)
  qed
  moreover have "handles_ok ?m = handles_ok m" "high_water_ok ?m = high_water_ok m"
    by (simp_all add: handles_ok_def high_water_ok_def)
  ultimately show ?thesis using T(1) ok' D(3,5) by (simp add: tmmgr_inv_def)
qed

section \<open>Specification of the operations\<close>

lemma alignUp_align:
  assumes "aligned m" and "0 < req" and "unat req + (unat (align m) - 1) < 2 ^ 64"
  shows "req \<le> alignUp req (align m)" and "0 < alignUp req (align m)"
    and "unat (align m) dvd unat (alignUp req (align m))"
    and "unat (alignUp req (align m)) < unat req + unat (align m)"
proof -
  obtain k where k: "k < 64" "align m = 2 ^ k" using assms(1) by (auto simp: aligned_def)
  note A = alignUp_pow2 [OF k(1), of req] and p = unat_pow2 [OF k(1)]
  have fits: "unat req + (2 ^ k - 1) < 2 ^ 64" using assms(3) k(2) p by simp
  show le: "req \<le> alignUp req (align m)" using A(2) [OF fits] k(2) by simp
  then show "0 < alignUp req (align m)" using assms(2) by (simp add: word_less_nat_alt word_le_nat_alt)
  show "unat (align m) dvd unat (alignUp req (align m))"
    "unat (alignUp req (align m)) < unat req + unat (align m)"
    using A(1,3) [OF fits] k(2) p by simp_all
qed

lemma alloc_spec:
  assumes inv: "tmmgr_inv m" and R: "0 < req" "unat req + (unat (align m) - 1) < 2 ^ 64"
  defines "S \<equiv> alignUp req (align m)"
  shows "case alloc dbg m h req of
      Inl e \<Rightarrow>
        e = insufficient_memory h req S (mem_free m) \<and> mem_free m < S \<or>
        e = duplicate_handle h \<and> h \<in> dom (handle_to_offset_and_size m) \<or>
        e = insufficient_contiguous_memory h req S (mem_free m) \<and>
          (\<forall>off t. free_segment_start m off = Some t \<longrightarrow> t < S)
    | Inr (m', off, s) \<Rightarrow>
        tmmgr_inv m' \<and> s = S \<and> req \<le> S \<and> unat S < unat req + unat (align m) \<and>
        unat (align m) dvd unat off \<and> h \<notin> dom (handle_to_offset_and_size m) \<and>
        handle_to_offset_and_size m' = (handle_to_offset_and_size m)(h \<mapsto> (off, s)) \<and>
        seg off s \<subseteq> free_bytes (free_segment_start m) \<and>
        free_bytes (free_segment_start m') = free_bytes (free_segment_start m) - seg off s \<and>
        (\<exists>f. free_segment_start m off = Some f \<and>
             (\<forall>o' t. free_segment_start m o' = Some t \<longrightarrow> S \<le> t \<longrightarrow> f \<le> t)) \<and>
        align m' = align m \<and> mem_size m' = mem_size m"
proof -
  note D = tmmgr_invD [OF inv]
  note A = alignUp_align [OF D(6) R, folded S_def]
  consider (nomem) "mem_free m < S" | (dup) "\<not> mem_free m < S" "handle_to_offset_and_size m h \<noteq> None"
    | (frag) "\<not> mem_free m < S" "handle_to_offset_and_size m h = None" "bucket_lower_bound S (free_offset_by_size m) = None"
    | (fit) k offs where "\<not> mem_free m < S" "handle_to_offset_and_size m h = None"
        "bucket_lower_bound S (free_offset_by_size m) = Some (k, offs)"
    by (metis option.exhaust surj_pair)
  then show ?thesis
  proof cases
    case nomem
    then show ?thesis by (simp add: alloc_def S_def [symmetric])
  next
    case dup
    then show ?thesis by (auto simp: alloc_def S_def [symmetric])
  next
    case frag
    have "t < S" if "free_segment_start m off = Some t" for off t
      using bucket_lower_bound_None [OF frag(3), of t] indexes_okD(2) [OF D(1), of off t] that by force
    then show ?thesis using frag by (simp add: alloc_def S_def [symmetric])
  next
    case fit
    then have le: "S \<le> mem_free m" by simp
    obtain B E where
      al: "alloc dbg m h req = Inr (m\<lparr>mem_free := mem_free m - S,
         high_water := (if high_water m < hd offs + S then hd offs + S else high_water m),
         free_offset_by_size := B, free_segment_start := taken m (hd offs) k S, free_segment_end := E,
         handle_to_offset_and_size := (handle_to_offset_and_size m)(h \<mapsto> (hd offs, S)),
         offset_to_handle := (offset_to_handle m)(hd offs \<mapsto> h)\<rparr>, (hd offs, S))" (is "_ = Inr (?m, _)")
      and ok: "indexes_ok B (taken m (hd offs) k S) E"
      and F: "free_segment_start m (hd offs) = Some k" and k: "S \<le> k"
      and best: "\<And>o' t. free_segment_start m o' = Some t \<Longrightarrow> S \<le> t \<Longrightarrow> k \<le> t"
      by (rule alloc_success [where dbg = dbg, OF inv, of req h, folded S_def, OF A(2,3) le fit(2,3)]) (rule that)
    have "tmmgr_inv ?m" by (rule tmmgr_inv_take [OF inv A(2) k F fit(2) A(3) taken_def ok])
    moreover note T = tiling_alloc [of "free_segment_start m" "handle_to_offset_and_size m" _ "hd offs" k S h,
        OF D(2) mem_size_lt F A(2) k fit(2), folded taken_def]
    moreover have "unat (align m) dvd unat (hd offs)" using D(6) F unfolding aligned_def by blast
    ultimately show ?thesis unfolding al using A(1,4) F fit(2) best by simp blast
  qed
qed

lemma free_spec:
  assumes inv: "tmmgr_inv m"
  shows "case free dbg m h of
      Inl e \<Rightarrow> e = unknown_handle h \<and> h \<notin> dom (handle_to_offset_and_size m)
    | Inr m' \<Rightarrow> tmmgr_inv m' \<and>
        (\<exists>off s. handle_to_offset_and_size m h = Some (off, s) \<and>
           free_bytes (free_segment_start m') = free_bytes (free_segment_start m) \<union> seg off s) \<and>
        handle_to_offset_and_size m' = (handle_to_offset_and_size m)(h := None) \<and>
        high_water m' \<le> high_water m \<and> align m' = align m \<and> mem_size m' = mem_size m"
proof (cases "handle_to_offset_and_size m h")
  case None
  then show ?thesis by (auto simp: free_def)
next
  case (Some p)
  obtain off s where h: "handle_to_offset_and_size m h = Some (off, s)" using Some by (cases p) simp
  let ?L = "left_free m off" and ?R = "right_free m (off + s)"
  note D = tmmgr_invD [OF inv]
  note T = tiling_free [of "free_segment_start m" "handle_to_offset_and_size m", OF D(2) mem_size_lt h
      left_free(1,2,5) [OF D(1)] right_free_def, folded merged_def]
  obtain B E where fr: "free dbg m h = Inr (m\<lparr>mem_free := mem_free m + s,
     handle_to_offset_and_size := (handle_to_offset_and_size m)(h := None),
     offset_to_handle := (offset_to_handle m)(off := None),
     high_water := (if off + s = high_water m then off - ?L else high_water m),
     free_offset_by_size := B, free_segment_start := merged m off s ?L ?R, free_segment_end := E\<rparr>)"
   and ok: "indexes_ok B (merged m off s ?L ?R) E"
    by (rule free_success [where dbg = dbg, OF inv h]) (rule that)
  have "off - ?L \<le> off" using left_free(1) [OF D(1), of off] by (simp add: word_to_nat)
  moreover have "off \<le> off + s"
    using tiling_used_fits [of _ "handle_to_offset_and_size m", OF D(2) h] mem_size_lt [of m] by (simp add: word_to_nat)
  ultimately have "off + s = high_water m \<Longrightarrow> off - ?L \<le> high_water m" by (metis order_trans)
  then show ?thesis
    unfolding fr using tmmgr_inv_give [OF inv h ok] T(2) h by simp
qed

lemma alignDown_align:
  assumes "aligned m"
  shows "unat (align m) dvd unat (alignDown n (align m))" and "alignDown n (align m) \<le> n"
    and "unat (align m) dvd unat n \<Longrightarrow> alignDown n (align m) = n"
  using assms alignDown_pow2_dvd alignDown_pow2_le alignDown_pow2_id unat_pow2
  by (auto simp: aligned_def)

lemma resize_spec:
  fixes m new
  assumes inv: "tmmgr_inv m"
  defines "N' \<equiv> alignDown new (align m)"
  shows "case resize dbg m new of
      Inl e \<Rightarrow> N' < high_water m \<and>
        (e = below_mem_used new N' (mem_size m) (mem_free m) \<or> e = below_high_water new N' (high_water m))
    | Inr m' \<Rightarrow> tmmgr_inv m' \<and> high_water m \<le> N' \<and> mem_size m' = N' \<and>
        handle_to_offset_and_size m' = handle_to_offset_and_size m \<and>
        high_water m' = high_water m \<and> align m' = align m"
proof (cases "high_water m \<le> N'")
  case True
  obtain B E where r: "resize dbg m new = Inr (m\<lparr>mem_size := N', mem_free := mem_free m + (N' - mem_size m),
     free_offset_by_size := B, free_segment_start := resized m N', free_segment_end := E\<rparr>)"
    and ok: "indexes_ok B (resized m N') E"
    by (rule resize_success [where dbg = dbg and new = new, OF inv True [unfolded N'_def], folded N'_def]) (rule that)
  have "unat (align m) dvd unat N'" using alignDown_align(1) tmmgr_invD(6) [OF inv] by (simp add: N'_def)
  then show ?thesis
    unfolding r using tmmgr_inv_resized [OF inv True _ ok] True by simp
next
  case False
  then show ?thesis
    using used_count(2) [OF inv] by (auto simp: resize_def N'_def [symmetric] Let_def not_le)
qed

end
