(* ===== verification/Tmmgr_Properties.thy ===== *)
theory Tmmgr_Properties
  imports Tmmgr_Invariant
begin

text \<open>
  The properties of the memory manager of \<^verbatim>\<open>src/mmgr/tmmgr.cpp\<close>: what its three operations do in every
  case, that a release undoes an allocation, and that reachable blocks never overlap.
\<close>

section \<open>The handles determine the free segments\<close>

text \<open>The byte behind a free segment is used unless the memory ends there.\<close>

lemma tiling_after_free:
  assumes T: "tiling F U N" and N: "N < 2 ^ 64" and p: "F p = Some f" and "unat p + unat f < N"
  shows "unat p + unat f \<notin> free_bytes F"
proof
  note D = tilingD [of F, OF T]
  assume "unat p + unat f \<in> free_bytes F"
  then obtain o' t where o': "F o' = Some t" "unat p + unat f \<in> seg o' t" by (auto simp: free_bytes_def)
  have f: "0 < unat f" using D(1) [OF p] by (simp add: word_to_nat)
  have u: "unat (p + f) = unat p + unat f" using assms(4) N by (simp add: word_to_nat)
  have "unat p + unat f - 1 \<in> seg p f" using f by (simp add: seg_iff)
  moreover have "o' \<noteq> p" using o'(2) p o'(1) by (auto simp: seg_iff)
  ultimately have "unat p + unat f - 1 \<notin> seg o' t" using D(3) [OF o'(1) p] by blast
  then have "unat o' = unat (p + f)" using o'(2) f u by (auto simp: seg_iff)
  then have "o' = p + f" by (simp add: word_unat_eq_iff)
  then show False using D(7) [OF p] o'(1) by simp
qed

lemma tiling_free_start_unique:
  assumes T: "tiling F U N" "tiling F' U' N" and N: "N < 2 ^ 64" and eq: "used_bytes U = used_bytes U'"
    and p: "F p = Some f"
  shows "F' p \<noteq> None"
proof -
  have fr: "free_bytes F = free_bytes F'"
    using tilingD(5,6) [OF T(1)] tilingD(5,6) [OF T(2)] eq by blast
  have "unat p \<in> seg p f" using tilingD(1) [of F, OF T(1) p] by (simp add: seg_iff word_to_nat)
  then have "unat p \<in> free_bytes F'" using free_bytesI [of F, OF p] fr by blast
  then obtain o' t where o': "F' o' = Some t" "unat p \<in> seg o' t" by (auto simp: free_bytes_def)
  have "\<not> unat o' < unat p"
  proof
    assume less: "unat o' < unat p"
    then have "unat p - 1 \<in> seg o' t" using o'(2) by (auto simp: seg_iff)
    then have "unat p - 1 \<in> free_bytes F" using free_bytesI [of F', OF o'(1)] fr by blast
    moreover have "unat p - 1 \<in> used_bytes U" using tiling_before_free [of F, OF T(1) N p] less by simp
    ultimately show False using tilingD(5) [OF T(1)] by blast
  qed
  then have "o' = p" using o'(2) by (auto simp: seg_iff word_unat_eq_iff)
  then show ?thesis using o'(1) by simp
qed

lemma tiling_unique:
  assumes T: "tiling F U N" "tiling F' U' N" and N: "N < 2 ^ 64" and eq: "used_bytes U = used_bytes U'"
  shows "F = F'"
proof (rule ext)
  fix p
  have fr: "free_bytes F = free_bytes F'"
    using tilingD(5,6) [OF T(1)] tilingD(5,6) [OF T(2)] eq by blast
  have le: "unat f \<le> unat t"
    if "tiling G V N" "G p = Some f" "tiling H W N" "H p = Some t" "free_bytes G = free_bytes H" for G V H W f t
  proof (rule ccontr)
    assume "\<not> unat f \<le> unat t"
    then have "unat p + unat t \<in> seg p f" by (simp add: seg_iff)
    then have "unat p + unat t \<in> free_bytes H" using free_bytesI [of G, OF that(2)] that(5) by blast
    moreover have "unat p + unat t < N"
      using tiling_free_fits [of G, OF that(1,2)] \<open>\<not> unat f \<le> unat t\<close> by simp
    ultimately show False using tiling_after_free [of H, OF that(3) N that(4)] by blast
  qed
  show "F p = F' p"
  proof (cases "F p")
    case None
    then show ?thesis using tiling_free_start_unique [of F' U' N F U p, OF T(2,1) N eq [symmetric]] by fastforce
  next
    case (Some f)
    then obtain t where t: "F' p = Some t"
      using tiling_free_start_unique [of F U N F' U' p, OF T N eq] by blast
    have "unat f = unat t" using le [OF T(1) Some T(2) t fr] le [OF T(2) t T(1) Some fr [symmetric]] by simp
    then show ?thesis using Some t by (simp add: word_unat_eq_iff)
  qed
qed
text \<open>
  The size of the memory and the handles determine everything else, up to the order of the offsets
  in a bucket.
\<close>

lemma tmmgr_determined:
  assumes inv: "tmmgr_inv m" "tmmgr_inv m'"
    and eq: "handle_to_offset_and_size m' = handle_to_offset_and_size m" "mem_size m' = mem_size m"
  shows "free_segment_start m' = free_segment_start m"
    and "free_segment_end m' = free_segment_end m"
    and "mem_free m' = mem_free m"
    and "high_water m' = high_water m"
    and "offset_to_handle m' = offset_to_handle m"
proof -
  note D = tmmgr_invD [OF inv(1)] and D' = tmmgr_invD [OF inv(2)]
  show F: "free_segment_start m' = free_segment_start m"
    by (rule tiling_unique [OF D'(2) D(2) [folded eq]]) (use eq mem_size_lt in auto)
  have sub: "E' e = Some s" if "indexes_ok B F E" "indexes_ok B' F E'" "E e = Some s" for B F E B' E' e s
    using indexes_okD(7) [OF that(1,3)] indexes_okD(5) [OF that(2), of "e - s" s] by simp
  show E: "free_segment_end m' = free_segment_end m"
  proof (rule ext)
    fix e
    show "free_segment_end m' e = free_segment_end m e"
      using sub [OF D(1) D'(1) [unfolded F], of e] sub [OF D'(1) [unfolded F] D(1), of e]
      by (cases "free_segment_end m' e"; cases "free_segment_end m e") auto
  qed
  show "mem_free m' = mem_free m" using D(4) D'(4) F by (simp add: word_unat_eq_iff)
  show "high_water m' = high_water m"
    using high_water_end [OF inv(1)] high_water_end [OF inv(2)] eq E by (simp add: left_free_def)
  have subO: "offset_to_handle x off = Some h" if "handles_ok x" "handles_ok y"
    "handle_to_offset_and_size x = handle_to_offset_and_size y" "offset_to_handle y off = Some h" for x y off h
    using that unfolding handles_ok_def by metis
  show "offset_to_handle m' = offset_to_handle m"
  proof (rule ext)
    fix off
    show "offset_to_handle m' off = offset_to_handle m off"
      using subO [OF D(3) D'(3) eq(1) [symmetric], of off] subO [OF D'(3) D(3) eq(1), of off]
      by (cases "offset_to_handle m' off"; cases "offset_to_handle m off") auto
  qed
qed

lemma free_plus_used:
  assumes "tmmgr_inv m"
  shows "unat (mem_free m) + card (used_bytes (handle_to_offset_and_size m)) = unat (mem_size m)"
proof -
  note D = tmmgr_invD [OF assms]
  have "card (free_bytes (free_segment_start m) \<union> used_bytes (handle_to_offset_and_size m)) =
      unat (mem_free m) + card (used_bytes (handle_to_offset_and_size m))"
    using tilingD(5) [OF D(2)] D(4) by (simp add: card_Un_disjoint)
  then show ?thesis using tilingD(6) [OF D(2)] by simp
qed

section \<open>Reachable states\<close>

text \<open>
  The states of a manager whose alignment is a power of two and whose callers never ask for zero
  bytes or for a size that cannot be rounded up in 64 bits.
\<close>

inductive tmmgr_reachable :: "bool \<Rightarrow> tmmgr \<Rightarrow> bool" for dbg where
  init: "k < 64 \<Longrightarrow> tmmgr_reachable dbg (tmmgr_init n (2 ^ k))"
| alloc: "tmmgr_reachable dbg m \<Longrightarrow> 0 < req \<Longrightarrow> unat req + (unat (align m) - 1) < 2 ^ 64 \<Longrightarrow>
    alloc dbg m h req = Inr (m', r) \<Longrightarrow> tmmgr_reachable dbg m'"
| free: "tmmgr_reachable dbg m \<Longrightarrow> free dbg m h = Inr m' \<Longrightarrow> tmmgr_reachable dbg m'"
| resize: "tmmgr_reachable dbg m \<Longrightarrow> resize dbg m n = Inr m' \<Longrightarrow> tmmgr_reachable dbg m'"

lemma tmmgr_reachable_inv: "tmmgr_reachable dbg m \<Longrightarrow> tmmgr_inv m"
proof (induction rule: tmmgr_reachable.induct)
  case (init k n)
  then show ?case by (rule tmmgr_init_inv)
next
  case (alloc m req h m' r)
  then show ?case using alloc_spec [where dbg = dbg and h = h, OF alloc.IH alloc.hyps(2,3)] by (cases r) simp
next
  case (free m h m')
  then show ?case using free_spec [where dbg = dbg and h = h, OF free.IH] by simp
next
  case (resize m n m')
  then show ?case using resize_spec [where dbg = dbg and new = n, OF resize.IH] by simp
qed

section \<open>Properties\<close>

lemma pow_4: "(2 :: u64) ^ 2 = 4"
  by simp

lemma init_64_4: "tmmgr_inv (tmmgr_init 64 4)"
  using tmmgr_init_inv [of 2 64] by simp

lemma alloc_example:
  "(case alloc True (tmmgr_init 64 4) 7 10 of Inl _ \<Rightarrow> None | Inr (m', r) \<Rightarrow> Some r) = Some (0, 12)"
  by code_simp

lemma align_init: "align (tmmgr_init n a) = a"
  by (simp add: tmmgr_init_def insert_free_segment_def Let_def)



lemma one_block:
  "\<exists>m. tmmgr_reachable True m \<and> tmmgr_inv m \<and> handle_to_offset_and_size m 7 = Some (0, 12)"
proof -
  obtain m where m: "alloc True (tmmgr_init 64 4) 7 10 = Inr (m, 0, 12)"
    using alloc_example by (auto split: sum.splits)
  have "tmmgr_reachable True m"
    by (rule tmmgr_reachable.alloc [OF tmmgr_reachable.init [of 2 True 64] _ _ m [folded pow_4]])
       (simp_all add: align_init)
  moreover have "handle_to_offset_and_size m 7 = Some (0, 12)"
    using alloc_spec [where dbg = True and h = 7 and req = 10, OF init_64_4] m by (simp add: align_init)
  ultimately show ?thesis using tmmgr_reachable_inv by blast
qed

text \<open>
  C9: On a well-formed manager \<^verbatim>\<open>free\<close> fails only for an unknown handle; otherwise exactly the block
  of the handle becomes free, the handle is forgotten, the high water mark does not grow and the
  manager stays well-formed (in particular the block is merged with both neighbours).
\<close>

theorem free_correct:
  assumes "tmmgr_inv m"
  shows "case free dbg m h of
      Inl e \<Rightarrow> e = unknown_handle h \<and> h \<notin> dom (handle_to_offset_and_size m)
    | Inr m' \<Rightarrow> tmmgr_inv m' \<and>
        (\<exists>off s. handle_to_offset_and_size m h = Some (off, s) \<and>
           free_bytes (free_segment_start m') = free_bytes (free_segment_start m) \<union> seg off s) \<and>
        handle_to_offset_and_size m' = (handle_to_offset_and_size m)(h := None) \<and>
        high_water m' \<le> high_water m \<and> align m' = align m \<and> mem_size m' = mem_size m"
  by (rule free_spec [OF assms])

theorem free_correct_witness:
  "\<exists>m. handle_to_offset_and_size m 7 = Some (0, 12) \<and>
     (case free True m 7 of Inl _ \<Rightarrow> False | Inr m' \<Rightarrow> tmmgr_inv m' \<and> handle_to_offset_and_size m' 7 = None)"
proof -
  obtain m where m: "tmmgr_inv m" "handle_to_offset_and_size m 7 = Some (0, 12)" using one_block by blast
  then show ?thesis
    using free_correct [OF m(1), where dbg = True and h = 7] by (intro exI [of _ m]) (auto split: sum.splits)
qed

text \<open>
  C10: \<^verbatim>\<open>resize\<close> succeeds exactly if the new size, rounded down to the alignment, is not below the
  high water mark; then the manager has the new size, keeps all handles and stays well-formed.
\<close>

theorem resize_correct:
  assumes "tmmgr_inv m"
  shows "case resize dbg m n of
      Inl e \<Rightarrow> alignDown n (align m) < high_water m \<and>
        (e = below_mem_used n (alignDown n (align m)) (mem_size m) (mem_free m) \<or>
         e = below_high_water n (alignDown n (align m)) (high_water m))
    | Inr m' \<Rightarrow> tmmgr_inv m' \<and> high_water m \<le> alignDown n (align m) \<and> mem_size m' = alignDown n (align m) \<and>
        handle_to_offset_and_size m' = handle_to_offset_and_size m \<and>
        high_water m' = high_water m \<and> align m' = align m"
  by (rule resize_spec [OF assms])

theorem resize_correct_witness:
  "case resize True (tmmgr_init 64 4) 30 of Inl _ \<Rightarrow> False | Inr m' \<Rightarrow> tmmgr_inv m' \<and> mem_size m' = 28"
proof -
  have "high_water (tmmgr_init 64 4) = 0" by (simp add: tmmgr_init_def insert_free_segment_def Let_def)
  moreover have "alignDown 30 4 = (28 :: u64)" by code_simp
  ultimately show ?thesis
    using resize_correct [OF init_64_4, where dbg = True and n = 30] by (auto simp: align_init split: sum.splits)
qed

text \<open>
  C11: Freeing a block right after allocating it succeeds and restores the manager: its handles, its
  free segments by start and by end, its counters and its high water mark.
\<close>

theorem alloc_free_roundtrip:
  assumes "tmmgr_inv m" and "0 < req" and "unat req + (unat (align m) - 1) < 2 ^ 64"
    and "alloc dbg m h req = Inr (m1, r)"
  shows "\<exists>m2. free dbg m1 h = Inr m2 \<and>
    handle_to_offset_and_size m2 = handle_to_offset_and_size m \<and> offset_to_handle m2 = offset_to_handle m \<and>
    free_segment_start m2 = free_segment_start m \<and> free_segment_end m2 = free_segment_end m \<and>
    mem_free m2 = mem_free m \<and> mem_size m2 = mem_size m \<and> high_water m2 = high_water m"
proof -
  have A: "tmmgr_inv m1" "handle_to_offset_and_size m h = None"
      "handle_to_offset_and_size m1 = (handle_to_offset_and_size m)(h \<mapsto> r)" "mem_size m1 = mem_size m"
    using alloc_spec [where dbg = dbg and h = h, OF assms(1-3)] assms(4) by (cases r; auto)+
  obtain m2 where m2: "free dbg m1 h = Inr m2"
    using free_spec [where dbg = dbg and h = h, OF A(1)] A(3) by (cases "free dbg m1 h") auto
  have B: "tmmgr_inv m2" "handle_to_offset_and_size m2 = handle_to_offset_and_size m" "mem_size m2 = mem_size m"
    using free_spec [where dbg = dbg and h = h, OF A(1)] A m2 by (auto simp: fun_upd_idem)
  show ?thesis using m2 tmmgr_determined [OF assms(1) B] B by blast
qed

theorem alloc_free_roundtrip_witness:
  "\<exists>m1 m2. alloc True (tmmgr_init 64 4) 7 10 = Inr (m1, 0, 12) \<and> free True m1 7 = Inr m2 \<and>
     mem_free m2 = 64 \<and> high_water m2 = 0"
proof -
  obtain m1 where m1: "alloc True (tmmgr_init 64 4) 7 10 = Inr (m1, 0, 12)"
    using alloc_example by (auto split: sum.splits)
  have "mem_free (tmmgr_init 64 4) = 64" by code_simp
  moreover have "high_water (tmmgr_init 64 4) = 0" by code_simp
  ultimately show ?thesis
    using alloc_free_roundtrip [OF init_64_4 _ _ m1] m1 by (auto simp: align_init)
qed

text \<open>
  C12: In every reachable state the blocks of two different handles share no byte, every block lies
  inside the memory, and the counter of free bytes is the size of the memory minus the bytes of
  all blocks.
\<close>

theorem reachable_blocks_disjoint:
  assumes "tmmgr_reachable dbg m"
  shows "(\<forall>h off s h' off' s'. handle_to_offset_and_size m h = Some (off, s) \<longrightarrow>
            handle_to_offset_and_size m h' = Some (off', s') \<longrightarrow> h \<noteq> h' \<longrightarrow> seg off s \<inter> seg off' s' = {}) \<and>
    (\<forall>h off s. handle_to_offset_and_size m h = Some (off, s) \<longrightarrow> unat off + unat s \<le> unat (mem_size m)) \<and>
    unat (mem_free m) + (\<Sum>h \<in> dom (handle_to_offset_and_size m). unat (snd (the (handle_to_offset_and_size m h))))
      = unat (mem_size m)"
proof (intro conjI allI impI)
  let ?U = "handle_to_offset_and_size m"
  note T = tmmgr_invD(2) [OF tmmgr_reachable_inv [OF assms]]
  show disj: "seg off s \<inter> seg off' s' = {}" if "?U h = Some (off, s)" "?U h' = Some (off', s')" "h \<noteq> h'" for h off s h' off' s'
    using tilingD(4) [of _ ?U, OF T that(1,2)] that(3) by blast
  show "unat off + unat s \<le> unat (mem_size m)" if "?U h = Some (off, s)" for h off s
    by (rule tiling_used_fits [of _ ?U, OF T that])
  have "card (used_bytes ?U) = (\<Sum>h \<in> dom ?U. card (seg (fst (the (?U h))) (snd (the (?U h)))))"
    unfolding used_bytes_def by (rule card_UN_disjoint) (use disj in fastforce)+
  moreover have "unat (mem_free m) + card (used_bytes ?U) = unat (mem_size m)"
    by (rule free_plus_used [OF tmmgr_reachable_inv [OF assms]])
  ultimately show "unat (mem_free m) + (\<Sum>h \<in> dom ?U. unat (snd (the (?U h)))) = unat (mem_size m)" by simp
qed

theorem reachable_blocks_disjoint_witness:
  "\<exists>m. tmmgr_reachable True m \<and> handle_to_offset_and_size m 7 = Some (0, 12) \<and>
     unat (mem_free m) + (\<Sum>h \<in> dom (handle_to_offset_and_size m). unat (snd (the (handle_to_offset_and_size m h))))
       = unat (mem_size m)"
  using one_block reachable_blocks_disjoint by blast

end
