(* ===== verification/Dtmmgr.thy ===== *)
theory Dtmmgr
  imports Tmmgr_Properties
begin

text \<open>
  The memory manager of \<^verbatim>\<open>src/mmgr/dtmmgr.cpp\<close>: two managers of \<^verbatim>\<open>tmmgr.cpp\<close> share one memory.  The blocks
  of \<^verbatim>\<open>ARENA_UP\<close> start at offset 0; the offsets of \<^verbatim>\<open>ARENA_DOWN\<close> are mirrored at the end of the memory.
  After every operation on one arena the other one is resized to what lies beyond the high water
  mark of the first.  The locale \<open>resizable_arena\<close> is the interface of an arena; its interpretation
  on the model of \<^verbatim>\<open>tmmgr.cpp\<close> gives that the resize never fails and that the arenas never meet.
\<close>

section \<open>Model\<close>

datatype Arena_t = ARENA_UP | ARENA_DOWN

fun other :: "Arena_t \<Rightarrow> Arena_t" where
  "other ARENA_UP = ARENA_DOWN"
| "other ARENA_DOWN = ARENA_UP"

record dtmmgr =
  arena :: "Arena_t \<Rightarrow> tmmgr"
  total_size :: u64

definition dtmmgr_init :: "u64 \<Rightarrow> u64 \<Rightarrow> dtmmgr" where
  "dtmmgr_init MemSize Align =
     (let arenas = (\<lambda>_. tmmgr_init MemSize Align) in
      \<lparr>arena = arenas, total_size = mem_size (arenas ARENA_UP)\<rparr>)"

definition dt_alloc :: "bool \<Rightarrow> dtmmgr \<Rightarrow> u64 \<Rightarrow> Arena_t \<Rightarrow> u64 \<Rightarrow> tmmgr_error + dtmmgr \<times> (u64 \<times> u64)" where
  "dt_alloc dbg d Handle Arena Size =
     and_then (alloc dbg (arena d Arena) Handle Size) (\<lambda>(a, offset, s).
     let d1 = d\<lparr>arena := (arena d)(Arena := a)\<rparr> in
     and_then (resize dbg (arena d1 (other Arena)) (total_size d1 - high_water (arena d1 Arena))) (\<lambda>b.
     let d2 = d1\<lparr>arena := (arena d1)(other Arena := b)\<rparr> in
     if Arena = ARENA_DOWN
     then and_then (fhg_assert dbg (total_size d2 \<ge> offset + s)) (\<lambda>_.
            Inr (d2, (total_size d2 - (offset + s), s)))
     else Inr (d2, (offset, s))))"

definition dt_free :: "bool \<Rightarrow> dtmmgr \<Rightarrow> u64 \<Rightarrow> Arena_t \<Rightarrow> tmmgr_error + dtmmgr" where
  "dt_free dbg d Handle Arena =
     and_then (free dbg (arena d Arena) Handle) (\<lambda>a.
     let d1 = d\<lparr>arena := (arena d)(Arena := a)\<rparr> in
     and_then (resize dbg (arena d1 (other Arena)) (total_size d1 - high_water (arena d1 Arena))) (\<lambda>b.
     Inr (d1\<lparr>arena := (arena d1)(other Arena := b)\<rparr>)))"

definition dt_memfree :: "dtmmgr \<Rightarrow> u64" where
  "dt_memfree d = max (mem_free (arena d ARENA_UP)) (mem_free (arena d ARENA_DOWN))"

definition dt_numhandle :: "dtmmgr \<Rightarrow> Arena_t \<Rightarrow> nat" where
  "dt_numhandle d Arena = numhandle (arena d Arena)"

section \<open>Two arenas that grow towards each other\<close>

text \<open>
  What the pair of arenas relies on: an arena that keeps its blocks below its high water mark and
  that can be resized to any aligned size that is not below this mark.
\<close>

locale resizable_arena =
  fixes arena_inv :: "'a \<Rightarrow> bool"
    and unit_of :: "'a \<Rightarrow> u64"
    and size_of :: "'a \<Rightarrow> u64"
    and top_of :: "'a \<Rightarrow> u64"
    and blocks_of :: "'a \<Rightarrow> (u64 \<rightharpoonup> u64 \<times> u64)"
    and set_size :: "'a \<Rightarrow> u64 \<Rightarrow> 'e + 'a"
  assumes top_le: "arena_inv a \<Longrightarrow> top_of a \<le> size_of a"
    and block_below: "arena_inv a \<Longrightarrow> blocks_of a h = Some (off, s) \<Longrightarrow> unat off + unat s \<le> unat (top_of a)"
    and unit_top: "arena_inv a \<Longrightarrow> unat (unit_of a) dvd unat (top_of a)"
    and set_size_ok: "arena_inv a \<Longrightarrow> top_of a \<le> n \<Longrightarrow> unat (unit_of a) dvd unat n \<Longrightarrow>
      \<exists>a'. set_size a n = Inr a' \<and> arena_inv a' \<and> size_of a' = n \<and> top_of a' = top_of a \<and>
        unit_of a' = unit_of a \<and> blocks_of a' = blocks_of a"
begin

definition paired :: "u64 \<Rightarrow> 'a \<Rightarrow> 'a \<Rightarrow> bool" where
  "paired M a b \<longleftrightarrow> arena_inv a \<and> arena_inv b \<and> unit_of a = unit_of b \<and> unat (unit_of a) dvd unat M \<and>
     top_of a \<le> M \<and> top_of b \<le> M \<and> size_of a = M - top_of b \<and> size_of b = M - top_of a"

lemma paired_sym: "paired M a b \<longleftrightarrow> paired M b a"
  by (auto simp: paired_def)

text \<open>After any operation on the arena \<open>a\<close> that keeps its size the other one can follow.\<close>

lemma other_follows:
  assumes p: "paired M a b" and a': "arena_inv a'" "size_of a' = size_of a" "unit_of a' = unit_of a"
  shows "\<exists>b'. set_size b (M - top_of a') = Inr b' \<and> paired M a' b' \<and> blocks_of b' = blocks_of b"
proof -
  have P: "arena_inv b" "unit_of b = unit_of a'" "unat (unit_of a') dvd unat M" "top_of b \<le> M"
      "size_of a' = M - top_of b" using p a' by (auto simp: paired_def)
  have u: "unat (top_of a') \<le> unat M - unat (top_of b)" "unat (top_of b) \<le> unat M"
    using top_le [OF a'(1)] P(4,5) by (simp_all add: unat_sub word_le_nat_alt)
  have le: "top_of a' \<le> M" using u by (simp add: word_le_nat_alt)
  have "top_of b \<le> M - top_of a'" using u le by (simp add: word_le_nat_alt unat_sub)
  moreover have "unat (unit_of b) dvd unat (M - top_of a')"
    using P(2,3) unit_top [OF a'(1)] le by (simp add: unat_sub)
  ultimately obtain b' where "set_size b (M - top_of a') = Inr b'" "arena_inv b'" "size_of b' = M - top_of a'"
      "top_of b' = top_of b" "unit_of b' = unit_of b" "blocks_of b' = blocks_of b"
    using set_size_ok [OF P(1)] by blast
  then show ?thesis using a' P le by (auto simp: paired_def)
qed

text \<open>Blocks of the first arena never meet the mirrored blocks of the second one.\<close>

lemma mirrored_disjoint:
  assumes p: "paired M a b" and h: "blocks_of a h = Some (off, s)" "blocks_of b h' = Some (off', s')"
  shows "unat off + unat s \<le> unat M - (unat off' + unat s')" and "unat off' + unat s' \<le> unat M"
proof -
  have "top_of a \<le> size_of a" "size_of a = M - top_of b" "top_of b \<le> M"
    using p top_le [of a] by (auto simp: paired_def)
  then have "unat (top_of a) \<le> unat M - unat (top_of b)" "unat (top_of b) \<le> unat M"
    by (simp_all add: unat_sub word_le_nat_alt)
  moreover have "unat off + unat s \<le> unat (top_of a)" "unat off' + unat s' \<le> unat (top_of b)"
    using p block_below h by (auto simp: paired_def)
  ultimately show "unat off + unat s \<le> unat M - (unat off' + unat s')" "unat off' + unat s' \<le> unat M"
    by linarith+
qed

end

lemma high_water_above:
  assumes inv: "tmmgr_inv m" and h: "handle_to_offset_and_size m h = Some (off, s)"
  shows "unat off + unat s \<le> unat (high_water m)"
proof -
  let ?U = "handle_to_offset_and_size m"
  have "0 < unat s" using tilingD(2) [of _ ?U, OF tmmgr_invD(2) [OF inv] h] by (simp add: word_to_nat)
  then have "unat off + unat s - 1 \<in> used_bytes ?U"
    by (intro used_bytesI [of ?U, OF h]) (simp add: seg_iff)
  then have "unat off + unat s - 1 < unat (high_water m)"
    using tmmgr_invD(5) [OF inv] by (auto simp: high_water_ok_def)
  then show ?thesis by simp
qed

lemma high_water_aligned:
  assumes inv: "tmmgr_inv m"
  shows "unat (align m) dvd unat (high_water m)"
proof -
  note E = end_segment [OF inv] and D = tmmgr_invD(6) [OF inv]
  show ?thesis
  proof (cases "left_free m (mem_size m) = 0")
    case True
    then show ?thesis using E(1) D by (simp add: aligned_def)
  next
    case False
    then show ?thesis using E(2) D unfolding aligned_def by blast
  qed
qed

interpretation tm: resizable_arena tmmgr_inv align mem_size high_water handle_to_offset_and_size "resize dbg" for dbg
proof
  fix m :: tmmgr and n
  assume inv: "tmmgr_inv m"
  show "high_water m \<le> mem_size m" by (rule used_count(3) [OF inv])
  show "unat off + unat s \<le> unat (high_water m)" if "handle_to_offset_and_size m h = Some (off, s)" for h off s
    by (rule high_water_above [OF inv that])
  show "unat (align m) dvd unat (high_water m)" by (rule high_water_aligned [OF inv])
  assume n: "high_water m \<le> n" "unat (align m) dvd unat n"
  then have "alignDown n (align m) = n" using alignDown_align(3) tmmgr_invD(6) [OF inv] by blast
  then show "\<exists>m'. resize dbg m n = Inr m' \<and> tmmgr_inv m' \<and> mem_size m' = n \<and> high_water m' = high_water m \<and>
      align m' = align m \<and> handle_to_offset_and_size m' = handle_to_offset_and_size m"
    using resize_spec [OF inv, where dbg = dbg and new = n] n(1) by (cases "resize dbg m n") auto
qed

text \<open>
  The invariant: both arenas are well-formed and each one ends where the blocks of the other one
  begin.
\<close>

definition dt_inv :: "dtmmgr \<Rightarrow> bool" where
  "dt_inv d \<longleftrightarrow> (let up = arena d ARENA_UP; down = arena d ARENA_DOWN; M = total_size d in
     tmmgr_inv up \<and> tmmgr_inv down \<and> align up = align down \<and> unat (align up) dvd unat M \<and>
     high_water up \<le> M \<and> high_water down \<le> M \<and>
     mem_size up = M - high_water down \<and> mem_size down = M - high_water up)"

lemma dt_inv_paired: "dt_inv d \<longleftrightarrow> tm.paired (total_size d) (arena d A) (arena d (other A))"
  by (cases A) (auto simp: dt_inv_def tm.paired_def Let_def)

lemma other_neq [simp]: "other A \<noteq> A" "A \<noteq> other A"
  by (cases A; simp)+

lemma dt_inv_update:
  assumes "dt_inv d" and "tmmgr_inv a" "mem_size a = mem_size (arena d A)" "align a = align (arena d A)"
  obtains b where "resize dbg (arena d (other A)) (total_size d - high_water a) = Inr b"
    and "dt_inv (d\<lparr>arena := (arena d)(A := a, other A := b)\<rparr>)"
    and "handle_to_offset_and_size b = handle_to_offset_and_size (arena d (other A))"
  using tm.other_follows [OF assms(1) [unfolded dt_inv_paired [of d A]] assms(2-4), of dbg]
  by (force simp: dt_inv_paired [of _ A] that)

lemma dt_init_inv:
  assumes "k < 64"
  shows "dt_inv (dtmmgr_init n (2 ^ k))"
proof -
  let ?m = "tmmgr_init n (2 ^ k)"
  have "high_water ?m = 0" "align ?m = 2 ^ k"
    by (simp_all add: tmmgr_init_def insert_free_segment_def Let_def)
  moreover have "unat (align ?m) dvd unat (mem_size ?m)"
    using tmmgr_invD(6) [OF tmmgr_init_inv [OF assms]] by (simp add: aligned_def)
  ultimately show ?thesis
    using tmmgr_init_inv [OF assms, of n] by (simp add: dt_inv_def dtmmgr_init_def Let_def)
qed

text \<open>Where the block of a handle lies in the managed memory.\<close>

definition dt_block :: "dtmmgr \<Rightarrow> Arena_t \<Rightarrow> u64 \<Rightarrow> (u64 \<times> u64) option" where
  "dt_block d A h = map_option (\<lambda>(off, s). (if A = ARENA_DOWN then total_size d - (off + s) else off, s))
     (handle_to_offset_and_size (arena d A) h)"

lemma dt_block_seg:
  assumes inv: "dt_inv d" and h: "dt_block d A h = Some (off, s)"
  obtains off0 where "handle_to_offset_and_size (arena d A) h = Some (off0, s)"
    and "unat off0 + unat s \<le> unat (total_size d)"
    and "unat off = (if A = ARENA_DOWN then unat (total_size d) - (unat off0 + unat s) else unat off0)"
proof -
  obtain off0 where b: "handle_to_offset_and_size (arena d A) h = Some (off0, s)"
    and off: "off = (if A = ARENA_DOWN then total_size d - (off0 + s) else off0)"
    using h unfolding dt_block_def by force
  have inv': "tmmgr_inv (arena d A)" "high_water (arena d A) \<le> total_size d"
    using inv by (cases A; simp add: dt_inv_def Let_def)+
  have le: "unat off0 + unat s \<le> unat (total_size d)"
    using high_water_above [OF inv'(1) b] inv'(2) by (simp add: word_le_nat_alt)
  then have "unat (off0 + s) = unat off0 + unat s" using u64_lt [of "total_size d"] by (simp add: word_to_nat)
  then have "unat off = (if A = ARENA_DOWN then unat (total_size d) - (unat off0 + unat s) else unat off0)"
    using off le by (simp add: unat_sub word_le_nat_alt)
  then show thesis using that b le by blast
qed

lemma dt_alloc_spec:
  assumes inv: "dt_inv d" and n: "0 < n" "unat n + (unat (align (arena d A)) - 1) < 2 ^ 64"
  shows "case dt_alloc dbg d h A n of
      Inl e \<Rightarrow> alloc dbg (arena d A) h n = Inl e
    | Inr (d', off, s) \<Rightarrow> dt_inv d' \<and> n \<le> s \<and> total_size d' = total_size d \<and> dt_block d A h = None \<and>
        dt_block d' = (dt_block d)(A := (dt_block d A)(h \<mapsto> (off, s)))"
proof -
  have invA: "tmmgr_inv (arena d A)" using inv by (cases A; simp add: dt_inv_def Let_def)
  note S = alloc_spec [where dbg = dbg and h = h, OF invA n]
  show ?thesis
  proof (cases "alloc dbg (arena d A) h n")
    case (Inl e)
    then show ?thesis by (simp add: dt_alloc_def)
  next
    case (Inr r)
    obtain a off s where r: "alloc dbg (arena d A) h n = Inr (a, off, s)" using Inr by (cases r) simp
    have a: "tmmgr_inv a" "mem_size a = mem_size (arena d A)" "align a = align (arena d A)" "n \<le> s"
        "handle_to_offset_and_size a = (handle_to_offset_and_size (arena d A))(h \<mapsto> (off, s))"
        "handle_to_offset_and_size (arena d A) h = None"
      using S r by auto
    obtain b where b: "resize dbg (arena d (other A)) (total_size d - high_water a) = Inr b"
      and inv': "dt_inv (d\<lparr>arena := (arena d)(A := a, other A := b)\<rparr>)" (is "dt_inv ?d")
      and hb: "handle_to_offset_and_size b = handle_to_offset_and_size (arena d (other A))"
      by (rule dt_inv_update [OF inv a(1-3), of dbg])
    have "high_water a \<le> total_size d" using inv' by (cases A; simp add: dt_inv_def Let_def)
    then have "unat off + unat s \<le> unat (total_size d)"
      using high_water_above [OF a(1), of h off s] a(5) by (simp add: word_le_nat_alt)
    then have le: "off + s \<le> total_size d" using u64_lt [of "total_size d"] by (simp add: word_to_nat)
    have blocks: "dt_block ?d =
        (dt_block d)(A := (dt_block d A)(h \<mapsto> (if A = ARENA_DOWN then total_size d - (off + s) else off, s)))"
      using a(5) hb by (cases A) (auto simp: fun_eq_iff dt_block_def split: Arena_t.splits)
    show ?thesis
      using r b inv' le a(4,6) blocks by (cases A) (simp_all add: dt_alloc_def Let_def, simp_all add: dt_block_def)
  qed
qed

lemma dt_free_spec:
  assumes inv: "dt_inv d"
  shows "case dt_free dbg d h A of
      Inl e \<Rightarrow> e = unknown_handle h \<and> dt_block d A h = None
    | Inr d' \<Rightarrow> dt_inv d' \<and> total_size d' = total_size d \<and> dt_block d A h \<noteq> None \<and>
        dt_block d' = (dt_block d)(A := (dt_block d A)(h := None))"
proof -
  have invA: "tmmgr_inv (arena d A)" using inv by (cases A; simp add: dt_inv_def Let_def)
  note S = free_spec [where dbg = dbg and h = h, OF invA]
  show ?thesis
  proof (cases "free dbg (arena d A) h")
    case (Inl e)
    then show ?thesis using S by (auto simp: dt_free_def dt_block_def)
  next
    case (Inr a)
    then have a: "tmmgr_inv a" "mem_size a = mem_size (arena d A)" "align a = align (arena d A)"
        "handle_to_offset_and_size a = (handle_to_offset_and_size (arena d A))(h := None)"
        "handle_to_offset_and_size (arena d A) h \<noteq> None"
      using S by auto
    obtain b where b: "resize dbg (arena d (other A)) (total_size d - high_water a) = Inr b"
      and inv': "dt_inv (d\<lparr>arena := (arena d)(A := a, other A := b)\<rparr>)" (is "dt_inv ?d")
      and hb: "handle_to_offset_and_size b = handle_to_offset_and_size (arena d (other A))"
      by (rule dt_inv_update [OF inv a(1-3), of dbg])
    have "dt_block ?d = (dt_block d)(A := (dt_block d A)(h := None))"
      using a(4) hb by (cases A) (auto simp: fun_eq_iff dt_block_def split: Arena_t.splits)
    moreover have "dt_block d A h \<noteq> None" using a(5) by (auto simp: dt_block_def)
    ultimately show ?thesis
      using Inr b inv' by (simp add: dt_free_def Let_def)
  qed
qed

lemma dt_blocks_apart:
  assumes inv: "dt_inv d" and b: "dt_block d A h = Some (off, s)" "dt_block d A' h' = Some (off', s')"
    and ne: "(A, h) \<noteq> (A', h')"
  shows "seg off s \<inter> seg off' s' = {}"
proof -
  have disj: "seg off s \<inter> seg off' s' = {}"
    if "dt_block d ARENA_UP h = Some (off, s)" "dt_block d ARENA_DOWN h' = Some (off', s')" for h off s h' off' s'
  proof -
    note t = that
    obtain p where p: "handle_to_offset_and_size (arena d ARENA_UP) h = Some (p, s)"
        "unat off = (if ARENA_UP = ARENA_DOWN then unat (total_size d) - (unat p + unat s) else unat p)"
      by (rule dt_block_seg [OF inv t(1)])
    obtain q where q: "handle_to_offset_and_size (arena d ARENA_DOWN) h' = Some (q, s')"
        "unat off' = (if ARENA_DOWN = ARENA_DOWN then unat (total_size d) - (unat q + unat s') else unat q)"
      by (rule dt_block_seg [OF inv t(2)])
    show ?thesis
      using tm.mirrored_disjoint [OF inv [unfolded dt_inv_paired [of d ARENA_UP]], of h p s h' q s'] p q
      by (auto simp: seg_iff)
  qed
  show ?thesis
  proof (cases "A = A'")
    case True
    obtain p where p: "handle_to_offset_and_size (arena d A) h = Some (p, s)" "unat p + unat s \<le> unat (total_size d)"
        "unat off = (if A = ARENA_DOWN then unat (total_size d) - (unat p + unat s) else unat p)"
      using dt_block_seg [OF inv b(1)] by blast
    obtain q where q: "handle_to_offset_and_size (arena d A) h' = Some (q, s')" "unat q + unat s' \<le> unat (total_size d)"
        "unat off' = (if A = ARENA_DOWN then unat (total_size d) - (unat q + unat s') else unat q)"
      using dt_block_seg [OF inv b(2)] True by blast
    have "tmmgr_inv (arena d A)" using inv by (cases A; simp add: dt_inv_def Let_def)
    then have D: "seg p s \<inter> seg q s' = {}"
      using tilingD(4) [of _ "handle_to_offset_and_size (arena d A)", OF tmmgr_invD(2) p(1) q(1)] ne True by blast
    show ?thesis
    proof (rule ccontr)
      assume "seg off s \<inter> seg off' s' \<noteq> {}"
      then obtain x where x: "x \<in> seg off s" "x \<in> seg off' s'" by blast
      let ?y = "if A = ARENA_DOWN then unat (total_size d) - 1 - x else x"
      have "?y \<in> seg p s \<inter> seg q s'" using x p(2,3) q(2,3) by (auto simp: seg_iff split: if_splits)
      then show False using D by blast
    qed
  next
    case False
    then show ?thesis using b disj [of h off s h' off' s'] disj [of h' off' s' h off s] by (cases A; cases A') auto
  qed
qed

section \<open>Properties\<close>

inductive dt_reachable :: "bool \<Rightarrow> dtmmgr \<Rightarrow> bool" for dbg where
  init: "k < 64 \<Longrightarrow> dt_reachable dbg (dtmmgr_init n (2 ^ k))"
| alloc: "dt_reachable dbg d \<Longrightarrow> 0 < n \<Longrightarrow> unat n + (unat (align (arena d A)) - 1) < 2 ^ 64 \<Longrightarrow>
    dt_alloc dbg d h A n = Inr (d', r) \<Longrightarrow> dt_reachable dbg d'"
| free: "dt_reachable dbg d \<Longrightarrow> dt_free dbg d h A = Inr d' \<Longrightarrow> dt_reachable dbg d'"

lemma dt_reachable_inv: "dt_reachable dbg d \<Longrightarrow> dt_inv d"
proof (induction rule: dt_reachable.induct)
  case (init k n)
  then show ?case by (rule dt_init_inv)
next
  case (alloc d n A h d' r)
  then show ?case using dt_alloc_spec [where dbg = dbg and h = h, OF alloc.IH alloc.hyps(2,3)] by (cases r) simp
next
  case (free d h A d')
  then show ?case using dt_free_spec [where dbg = dbg and h = h and A = A, OF free.IH] by simp
qed

text \<open>
  C13: In every reachable state an allocation either fails with an error of the arena it was asked
  of, or it returns a block at least as large as requested and changes no other block of either
  arena: resizing the other arena never fails and the assertion on the mirrored offset holds.
\<close>

theorem dt_alloc_correct:
  assumes "dt_reachable dbg d" and "0 < n" and "unat n + (unat (align (arena d A)) - 1) < 2 ^ 64"
  shows "case dt_alloc dbg d h A n of
      Inl e \<Rightarrow> alloc dbg (arena d A) h n = Inl e \<and> e \<noteq> assertion_failed \<and> e \<noteq> undefined_behaviour
    | Inr (d', off, s) \<Rightarrow> dt_reachable dbg d' \<and> n \<le> s \<and> dt_block d A h = None \<and>
        dt_block d' = (dt_block d)(A := (dt_block d A)(h \<mapsto> (off, s)))"
proof (cases "dt_alloc dbg d h A n")
  case (Inl e)
  have inv: "tmmgr_inv (arena d A)" using dt_reachable_inv [OF assms(1)] by (cases A; simp add: dt_inv_def Let_def)
  have "alloc dbg (arena d A) h n = Inl e"
    using dt_alloc_spec [where dbg = dbg and h = h, OF dt_reachable_inv [OF assms(1)] assms(2,3)] Inl by simp
  then show ?thesis using alloc_spec [where dbg = dbg and h = h, OF inv assms(2,3)] Inl by auto
next
  case (Inr r)
  then show ?thesis
    using dt_alloc_spec [where dbg = dbg and h = h, OF dt_reachable_inv [OF assms(1)] assms(2,3)]
      dt_reachable.alloc [OF assms, where h = h] by (cases r) auto
qed

lemma dt_init_reachable: "dt_reachable True (dtmmgr_init 64 4)"
  using dt_reachable.init [of 2 True 64] by simp

lemma dt_align_init: "align (arena (dtmmgr_init n a) A) = a"
  by (simp add: dtmmgr_init_def align_init Let_def)

lemma dt_alloc_example:
  "(case dt_alloc True (dtmmgr_init 64 4) 7 ARENA_DOWN 10 of Inl _ \<Rightarrow> None | Inr (d', r) \<Rightarrow> Some r) = Some (52, 12)"
  by code_simp

theorem dt_alloc_correct_witness:
  "\<exists>d. dt_alloc True (dtmmgr_init 64 4) 7 ARENA_DOWN 10 = Inr (d, 52, 12) \<and> dt_block d ARENA_DOWN 7 = Some (52, 12)"
proof -
  obtain d where "dt_alloc True (dtmmgr_init 64 4) 7 ARENA_DOWN 10 = Inr (d, 52, 12)"
    using dt_alloc_example by (auto split: sum.splits)
  then show ?thesis
    using dt_alloc_correct [OF dt_init_reachable, where n = 10 and A = ARENA_DOWN and h = 7]
    by (simp add: dt_align_init)
qed

text \<open>
  C14: In every reachable state the blocks of different handles, of the same arena or of the two
  different ones, share no byte and lie inside the managed memory.
\<close>

theorem dt_blocks_disjoint:
  assumes "dt_reachable dbg d" and "dt_block d A h = Some (off, s)"
  shows "unat off + unat s \<le> unat (total_size d) \<and>
    (\<forall>A' h' off' s'. dt_block d A' h' = Some (off', s') \<longrightarrow> (A, h) \<noteq> (A', h') \<longrightarrow> seg off s \<inter> seg off' s' = {})"
proof (intro conjI allI impI)
  note inv = dt_reachable_inv [OF assms(1)]
  show "unat off + unat s \<le> unat (total_size d)"
    by (rule dt_block_seg [OF inv assms(2)]) (auto split: if_splits)
  show "seg off s \<inter> seg off' s' = {}" if "dt_block d A' h' = Some (off', s')" "(A, h) \<noteq> (A', h')" for A' h' off' s'
    by (rule dt_blocks_apart [OF inv assms(2) that])
qed

theorem dt_blocks_disjoint_witness:
  "\<exists>d. dt_reachable True d \<and> dt_block d ARENA_DOWN 7 = Some (52, 12) \<and> 52 + 12 \<le> unat (total_size d)"
proof -
  obtain d where d: "dt_alloc True (dtmmgr_init 64 4) 7 ARENA_DOWN 10 = Inr (d, 52, 12)"
    using dt_alloc_example by (auto split: sum.splits)
  have r: "dt_reachable True d" by (rule dt_reachable.alloc [OF dt_init_reachable _ _ d]) (simp_all add: dt_align_init)
  have b: "dt_block d ARENA_DOWN 7 = Some (52, 12)"
    using dt_alloc_spec [OF dt_reachable_inv [OF dt_init_reachable], where n = 10 and A = ARENA_DOWN and h = 7 and dbg = True] d
    by (simp add: dt_align_init)
  show ?thesis using r b dt_blocks_disjoint [OF r b] by auto
qed

end
