(* ===== verification/BitSet.thy ===== *)
theory BitSet
  imports Prelude
begin

text \<open>
  The sets of unsigned numbers of \<^verbatim>\<open>src/we/type/bitsetofint.cpp\<close>: a vector of 64-bit blocks.  The lemmas
  relate every operation to the set of numbers whose bit is set: insertion, deletion, membership,
  the three bitwise operations, equality up to trailing zero blocks, the parallel bit count and
  the textual form.  That a vector can be enlarged as far as needed is assumed (allocation failure
  is not modelled).
\<close>

section \<open>Model\<close>

datatype bitset = Bitset (container: "u64 list")

definition block_of :: "u64 \<Rightarrow> nat" where
  "block_of x = unat (drop_bit 6 x)"

definition bit_of :: "u64 \<Rightarrow> u64" where
  "bit_of x = push_bit (unat (x AND 63)) 1"

definition vector_resize :: "nat \<Rightarrow> u64 list \<Rightarrow> u64 list" where
  "vector_resize n c = take n c @ replicate (n - length c) 0"

definition ins :: "bitset \<Rightarrow> u64 \<Rightarrow> bitset" where
  "ins t x =
     (let c = (if block_of x \<ge> length (container t)
               then vector_resize (block_of x + 1) (container t) else container t) in
      Bitset (c[block_of x := c ! block_of x OR bit_of x]))"

function pop_zeros :: "u64 list \<Rightarrow> u64 list" where
  "pop_zeros c = (if c \<noteq> [] \<and> last c = 0 then pop_zeros (butlast c) else c)"
  by pat_completeness auto
termination by (relation "measure length") auto

declare pop_zeros.simps [simp del]

definition del :: "bitset \<Rightarrow> u64 \<Rightarrow> bitset" where
  "del t x =
     (let c = container t in
      if block_of x < length c
      then Bitset (pop_zeros (c[block_of x := c ! block_of x AND NOT (bit_of x)]))
      else t)"

definition is_element :: "bitset \<Rightarrow> u64 \<Rightarrow> bool" where
  "is_element t x \<longleftrightarrow>
     block_of x < length (container t) \<and> container t ! block_of x AND bit_of x \<noteq> 0"

definition hamming_weight :: "u64 \<Rightarrow> u64" where
  "hamming_weight block =
     (let m1 = 0x5555555555555555; m2 = 0x3333333333333333;
          m4 = 0x0f0f0f0f0f0f0f0f; h01 = 0x0101010101010101;
          block = block - (drop_bit 1 block AND m1);
          block = (block AND m2) + (drop_bit 2 block AND m2);
          block = (block + drop_bit 4 block) AND m4 in
      drop_bit 56 (block * h01))"

definition bs_count :: "bitset \<Rightarrow> u64" where
  "bs_count t = foldl (\<lambda>cnt block. cnt + hamming_weight block) 0 (container t)"

text \<open>The callback of \<^verbatim>\<open>list\<close> is called with these values, in this order.\<close>

fun list_bits :: "nat \<Rightarrow> u64 \<Rightarrow> u64 \<Rightarrow> u64 list" where
  "list_bits 0 x block = []"
| "list_bits (Suc bits) x block =
     (if block AND 1 \<noteq> 0 then [x] else []) @ list_bits bits (x + 1) (drop_bit 1 block)"

fun list_blocks :: "u64 \<Rightarrow> u64 list \<Rightarrow> u64 list" where
  "list_blocks x [] = []"
| "list_blocks x (block # blocks) = list_bits 64 x block @ list_blocks (x + 64) blocks"

definition list_elements :: "bitset \<Rightarrow> u64 list" where
  "list_elements t = list_blocks 0 (container t)"

definition elements :: "bitset \<Rightarrow> u64 set" where
  "elements t = set (list_elements t)"

definition block_at :: "bitset \<Rightarrow> nat \<Rightarrow> u64" where
  "block_at t i = (if i < length (container t) then container t ! i else 0)"

definition bitwise :: "(u64 \<Rightarrow> u64 \<Rightarrow> u64) \<Rightarrow> bitset \<Rightarrow> bitset \<Rightarrow> bitset" where
  "bitwise f lhs rhs = Bitset (map (\<lambda>i. f (block_at lhs i) (block_at rhs i))
     [0..<max (length (container lhs)) (length (container rhs))])"

definition bitset_or :: "bitset \<Rightarrow> bitset \<Rightarrow> bitset" where "bitset_or = bitwise (OR)"
definition bitset_and :: "bitset \<Rightarrow> bitset \<Rightarrow> bitset" where "bitset_and = bitwise (AND)"
definition bitset_xor :: "bitset \<Rightarrow> bitset \<Rightarrow> bitset" where "bitset_xor = bitwise (XOR)"

fun eq_blocks :: "u64 list \<Rightarrow> u64 list \<Rightarrow> bool" where
  "eq_blocks (x # xs) (y # ys) = (if x \<noteq> y then False else eq_blocks xs ys)"
| "eq_blocks xs ys = (list_all (\<lambda>x. x = 0) xs \<and> list_all (\<lambda>y. y = 0) ys)"

definition bitset_eq :: "bitset \<Rightarrow> bitset \<Rightarrow> bool" where
  "bitset_eq x y = eq_blocks (container x) (container y)"

fun less_blocks :: "u64 list \<Rightarrow> u64 list \<Rightarrow> bool" where
  "less_blocks xs [] = False"
| "less_blocks [] (y # ys) = True"
| "less_blocks (x # xs) (y # ys) = (x < y \<or> \<not> y < x \<and> less_blocks xs ys)"

definition bitset_less :: "bitset \<Rightarrow> bitset \<Rightarrow> bool" where
  "bitset_less x y = less_blocks (container x) (container y)"

definition hex_char :: "nat \<Rightarrow> char" where
  "hex_char n = ''0123456789abcdef'' ! n"

definition hex_digits_of :: "u64 \<Rightarrow> string" where
  "hex_digits_of v = map (\<lambda>i. hex_char (unat (drop_bit (4 * (15 - i)) v AND 15))) [0..<16]"

definition to_hex :: "bitset \<Rightarrow> string" where
  "to_hex t = ''0x/'' @ concat (map (\<lambda>v. hex_digits_of v @ ''/'') (container t))"

definition hex_value :: "char \<Rightarrow> nat option" where
  "hex_value c =
     (let n = of_char c in
      if 48 \<le> n \<and> n \<le> 57 then Some (n - 48)
      else if 97 \<le> n \<and> n \<le> 102 then Some (n - 87)
      else if 65 \<le> n \<and> n \<le> 70 then Some (n - 55)
      else None)"

fun read_hex_digits :: "u64 \<Rightarrow> bool \<Rightarrow> string \<Rightarrow> u64 \<times> bool \<times> string" where
  "read_hex_digits v found [] = (v, found, [])"
| "read_hex_digits v found (c # cs) =
     (case hex_value c of
        None \<Rightarrow> (v, found, c # cs)
      | Some d \<Rightarrow> read_hex_digits (16 * v + of_nat d) True cs)"

definition read_sign :: "string \<Rightarrow> bool \<times> string" where
  "read_sign s = (case s of [] \<Rightarrow> (False, [])
     | c # r \<Rightarrow> if c = CHR ''-'' then (True, r) else if c = CHR ''+'' then (False, r) else (False, s))"

definition read_hex_prefix :: "string \<Rightarrow> bool \<times> string" where
  "read_hex_prefix s = (case s of [] \<Rightarrow> (False, [])
     | c # r \<Rightarrow> if c \<noteq> CHR ''0'' then (False, s)
         else (case r of [] \<Rightarrow> (True, [])
               | x # r' \<Rightarrow> if x = CHR ''x'' \<or> x = CHR ''X'' then (False, r') else (True, r)))"

definition stream_hex :: "string \<Rightarrow> u64 \<times> bool \<times> bool" where
  "stream_hex s =
     (let (negative, s1) = read_sign s;
          (zero, s2) = read_hex_prefix s1;
          (v, found, rest) = read_hex_digits 0 zero s2;
          fail = \<not> found in
      (if fail then 0 else if negative then - v else v, fail, rest = []))"

function from_hex_loop :: "u64 list \<Rightarrow> string \<Rightarrow> u64 list \<times> string" where
  "from_hex_loop bs pos =
     (if pos \<noteq> [] \<and> hd pos = CHR ''/'' then
        let pos = tl pos in
        if length pos \<ge> 16 then
          let (value, fail, eof) = stream_hex (take 16 pos) in
          if fail \<and> \<not> eof then (bs, pos)
          else from_hex_loop (bs @ [value]) (drop 16 pos)
        else from_hex_loop bs pos
      else (bs, pos))"
  by pat_completeness auto
termination by (relation "measure (length \<circ> snd)") auto

declare from_hex_loop.simps [simp del]

definition from_hex_iter :: "string \<Rightarrow> (bitset \<times> string) option" where
  "from_hex_iter pos =
     (if take 2 pos = ''0x'' then
        let (bs, rest) = from_hex_loop [] (drop 2 pos) in Some (Bitset bs, rest)
      else None)"

datatype from_hex_error = missing_prefix | rest_after_parsing string

definition from_hex :: "string \<Rightarrow> from_hex_error + bitset" where
  "from_hex s =
     (case from_hex_iter s of
        None \<Rightarrow> Inl missing_prefix
      | Some (t, pos) \<Rightarrow> if pos \<noteq> [] then Inl (rest_after_parsing pos) else Inr t)"

section \<open>Bits of the container\<close>

lemma block_of_eq: "block_of x = unat x div 64"
  unfolding block_of_def unat_drop_bit_eq by (simp add: drop_bit_eq_div)

lemma bit_index_eq: "unat (x AND 63) = unat x mod 64"
proof -
  have "x AND 63 = take_bit 6 x" by (simp add: take_bit_eq_mask mask_eq_exp_minus_1)
  then have "unat (x AND 63) = take_bit 6 (unat x)" by (simp only: unsigned_take_bit_eq)
  then show ?thesis by (simp add: take_bit_eq_mod)
qed

lemma bit_bit_of: "n < 64 \<Longrightarrow> bit (bit_of x) n \<longleftrightarrow> n = unat x mod 64"
  by (auto simp: bit_of_def bit_simps bit_index_eq)

lemma and_bit_of: "w AND bit_of x \<noteq> 0 \<longleftrightarrow> bit w (unat x mod 64)"
  by (simp add: bit_of_def bit_index_eq bit_iff_and_push_bit_not_eq_0)

definition cbit :: "u64 list \<Rightarrow> nat \<Rightarrow> bool" where
  "cbit c n \<longleftrightarrow> n div 64 < length c \<and> bit (c ! (n div 64)) (n mod 64)"

lemma is_element_cbit: "is_element t x \<longleftrightarrow> cbit (container t) (unat x)"
  by (simp add: is_element_def cbit_def block_of_eq and_bit_of)

lemma cbit_Nil [simp]: "\<not> cbit [] n"
  by (simp add: cbit_def)

lemma cbit_Cons: "cbit (b # c) n \<longleftrightarrow> (if n < 64 then bit b n else cbit c (n - 64))"
proof (cases "n < 64")
  case False
  then have "n div 64 = Suc ((n - 64) div 64)" "n mod 64 = (n - 64) mod 64"
    by (simp_all add: le_div_geq le_mod_geq)
  then show ?thesis using False by (simp add: cbit_def)
qed (simp add: cbit_def)

lemma all_zero_cbit:
  "list_all (\<lambda>x. x = 0) c \<longleftrightarrow> (\<forall>n. \<not> cbit c n)"
proof (induction c)
  case (Cons b c)
  have "b = 0 \<longleftrightarrow> (\<forall>n < 64. \<not> bit b n)"
    by (auto simp: bit_eq_iff)
  moreover have "(\<forall>n. \<not> cbit (b # c) n) \<longleftrightarrow> (\<forall>n < 64. \<not> bit b n) \<and> (\<forall>n. \<not> cbit c n)" (is "?l \<longleftrightarrow> ?r")
  proof
    assume l: ?l
    have "\<not> bit b n" if "n < 64" for n using l [rule_format, of n] that by (simp add: cbit_Cons)
    moreover have "\<not> cbit c n" for n using l [rule_format, of "n + 64"] by (simp add: cbit_Cons)
    ultimately show ?r by blast
  qed (simp add: cbit_Cons)
  ultimately show ?case using Cons by simp
qed simp

lemma cbit_append_zeros [simp]: "cbit (c @ replicate k 0) n \<longleftrightarrow> cbit c n"
  by (auto simp: cbit_def nth_append)

lemma cbit_pop_zeros [simp]: "cbit (pop_zeros c) n \<longleftrightarrow> cbit c n"
proof (induction c rule: pop_zeros.induct)
  case (1 c)
  show ?case
  proof (cases "c \<noteq> [] \<and> last c = 0")
    case True
    then have "c = butlast c @ replicate 1 0" by (metis append_butlast_last_id replicate_0 replicate_Suc One_nat_def)
    then have "cbit c n \<longleftrightarrow> cbit (butlast c) n" by (metis cbit_append_zeros)
    then show ?thesis using 1 True by (simp add: pop_zeros.simps [of c])
  next
    case False
    then show ?thesis by (auto simp: pop_zeros.simps [of c])
  qed
qed

lemma cbit_update:
  assumes "unat x div 64 < length c"
  shows "cbit (c[unat x div 64 := w]) n \<longleftrightarrow> (if n div 64 = unat x div 64 then bit w (n mod 64) else cbit c n)"
  using assms by (auto simp: cbit_def nth_list_update)

lemma div_mod_64_eq: "n div 64 = m div 64 \<Longrightarrow> n mod 64 = m mod 64 \<longleftrightarrow> n = (m :: nat)"
  by (metis div_mult_mod_eq)

lemma cbit_ins: "cbit (container (ins t x)) n \<longleftrightarrow> n = unat x \<or> cbit (container t) n"
proof -
  let ?c = "container t" and ?i = "unat x div 64"
  define c where "c = (if ?i \<ge> length ?c then vector_resize (?i + 1) ?c else ?c)"
  have c: "?i < length c" "\<And>n. cbit c n \<longleftrightarrow> cbit ?c n"
    by (auto simp: c_def vector_resize_def)
  have "container (ins t x) = c[?i := c ! ?i OR bit_of x]"
    by (simp add: ins_def block_of_eq c_def Let_def)
  then have "cbit (container (ins t x)) n \<longleftrightarrow>
      (if n div 64 = ?i then bit (c ! ?i) (n mod 64) \<or> n mod 64 = unat x mod 64 else cbit c n)"
    using cbit_update [OF c(1)] by (simp add: bit_or_iff bit_bit_of)
  moreover have "cbit c n \<longleftrightarrow> bit (c ! ?i) (n mod 64)" if "n div 64 = ?i"
    using c(1) that by (simp add: cbit_def)
  ultimately show ?thesis using c(2) [of n] div_mod_64_eq [of n "unat x"] by auto
qed

lemma cbit_del: "cbit (container (del t x)) n \<longleftrightarrow> n \<noteq> unat x \<and> cbit (container t) n"
proof (cases "unat x div 64 < length (container t)")
  case True
  let ?i = "unat x div 64" and ?c = "container t"
  have "bit (NOT (bit_of x)) (n mod 64) \<longleftrightarrow> n mod 64 \<noteq> unat x mod 64"
    by (simp add: bit_not_iff bit_bit_of)
  then have "cbit (container (del t x)) n \<longleftrightarrow>
      (if n div 64 = ?i then bit (?c ! ?i) (n mod 64) \<and> n mod 64 \<noteq> unat x mod 64 else cbit ?c n)"
    using True cbit_update [OF True] by (simp add: del_def block_of_eq Let_def bit_and_iff)
  then show ?thesis using True div_mod_64_eq [of n "unat x"] by (auto simp: cbit_def)
next
  case False
  then show ?thesis by (auto simp: del_def block_of_eq cbit_def)
qed

lemma cbit_bitwise:
  assumes f: "\<And>a b n. n < 64 \<Longrightarrow> bit (f a b) n \<longleftrightarrow> g (bit a n) (bit b n)" and g: "\<not> g False False"
  shows "cbit (container (bitwise f t u)) n \<longleftrightarrow> g (cbit (container t) n) (cbit (container u) n)"
proof (cases "n div 64 < max (length (container t)) (length (container u))")
  case True
  then have "cbit (container (bitwise f t u)) n \<longleftrightarrow>
      g (bit (block_at t (n div 64)) (n mod 64)) (bit (block_at u (n div 64)) (n mod 64))"
    by (simp add: bitwise_def cbit_def f)
  then show ?thesis by (simp add: block_at_def cbit_def)
next
  case False
  then have "\<not> n div 64 < length (container t)" "\<not> n div 64 < length (container u)" by simp_all
  then show ?thesis using g False by (simp add: bitwise_def cbit_def)
qed

lemma eq_blocks_cbit: "eq_blocks xs ys \<longleftrightarrow> (\<forall>n. cbit xs n = cbit ys n)"
proof (induction xs ys rule: eq_blocks.induct)
  case (1 x xs y ys)
  have low: "x = y \<longleftrightarrow> (\<forall>n < 64. bit x n = bit y n)"
    by (auto simp: bit_eq_iff) 
  have "(\<forall>n. cbit (x # xs) n = cbit (y # ys) n) \<longleftrightarrow> (\<forall>n < 64. bit x n = bit y n) \<and> (\<forall>n. cbit xs n = cbit ys n)"
    (is "?l \<longleftrightarrow> ?r")
  proof
    assume l: ?l
    have "bit x n = bit y n" if "n < 64" for n using l [rule_format, of n] that by (simp add: cbit_Cons)
    moreover have "cbit xs n = cbit ys n" for n using l [rule_format, of "n + 64"] by (simp add: cbit_Cons)
    ultimately show ?r by blast
  qed (simp add: cbit_Cons)
  then show ?case using 1 low by auto
qed (simp_all add: all_zero_cbit)

section \<open>Counting bits\<close>

fun digits_val :: "nat \<Rightarrow> nat list \<Rightarrow> nat" where
  "digits_val w [] = 0"
| "digits_val w (d # ds) = d + 2 ^ w * digits_val w ds"

fun evens :: "'a list \<Rightarrow> 'a list" and odds :: "'a list \<Rightarrow> 'a list" where
  "evens [] = []"
| "evens (x # xs) = x # odds xs"
| "odds [] = []"
| "odds (x # xs) = evens xs"

fun pair_sums :: "nat list \<Rightarrow> nat list" where
  "pair_sums (a # b # ds) = (a + b) # pair_sums ds"
| "pair_sums ds = ds"

definition low_mask :: "nat \<Rightarrow> nat \<Rightarrow> nat" where
  "low_mask w m = digits_val (2 * w) (replicate m (2 ^ w - 1))"

lemma low_mask_simps:
  "low_mask w 0 = 0" "low_mask w (Suc m) = (2 ^ w - 1) + 2 ^ (2 * w) * low_mask w m"
  by (simp_all add: low_mask_def)

lemma and_split:
  fixes a c x y :: nat
  assumes "a < 2 ^ k" "c < 2 ^ k"
  shows "(a + 2 ^ k * x) AND (c + 2 ^ k * y) = (a AND c) + 2 ^ k * (x AND y)"
proof -
  have t: "take_bit k (a + 2 ^ k * x) = a" "drop_bit k (a + 2 ^ k * x) = x"
    "take_bit k (c + 2 ^ k * y) = c" "drop_bit k (c + 2 ^ k * y) = y"
    using assms by (simp_all add: take_bit_eq_mod drop_bit_eq_div)
  show ?thesis (is "?z = _")
    using bits_ident [of k ?z] t by (simp add: take_bit_and drop_bit_and push_bit_eq_mult ac_simps)
qed

lemma digits_val_bound:
  "\<forall>d \<in> set ds. d < 2 ^ w \<Longrightarrow> digits_val w ds < 2 ^ (w * length ds)"
proof (induction ds)
  case (Cons d ds)
  then have "digits_val w ds + 1 \<le> 2 ^ (w * length ds)" by simp
  then have "2 ^ w * (digits_val w ds + 1) \<le> 2 ^ w * 2 ^ (w * length ds)" by (rule mult_le_mono2)
  moreover have "d < 2 ^ w" using Cons by simp
  ultimately show ?case by (simp add: power_add)
qed simp

lemma and_low_mask:
  assumes "\<forall>d \<in> set ds. d < 2 ^ w" and "length ds = 2 * m"
  shows "digits_val w ds AND low_mask w m = digits_val (2 * w) (evens ds)"
    and "digits_val w ds div 2 ^ w AND low_mask w m = digits_val (2 * w) (odds ds)"
proof -
  have "digits_val w ds AND low_mask w m = digits_val (2 * w) (evens ds) \<and>
      digits_val w ds div 2 ^ w AND low_mask w m = digits_val (2 * w) (odds ds)"
    using assms
  proof (induction ds arbitrary: m rule: pair_sums.induct)
    case (1 a b ds)
    let ?v = "digits_val w ds"
    obtain m' where m: "m = Suc m'" "length ds = 2 * m'" using 1(3) by (cases m) auto
    have lt: "a < 2 ^ w" "b < 2 ^ w" using 1(2) by auto
    have IH: "?v AND low_mask w m' = digits_val (2 * w) (evens ds)"
      "?v div 2 ^ w AND low_mask w m' = digits_val (2 * w) (odds ds)" using 1 m by auto
    have e: "(2::nat) ^ (2 * w) = 2 ^ w * 2 ^ w" by (simp add: mult_2 power_add)
    have mask: "(d + 2 ^ w * c) AND (2 ^ w - 1) = d" if "d < 2 ^ w" for c d :: nat
    proof -
      have "(d + 2 ^ w * c) AND (2 ^ w - 1) = take_bit w (d + 2 ^ w * c)"
        by (simp only: take_bit_eq_mask mask_eq_exp_minus_1)
      then show ?thesis using that by (simp add: take_bit_eq_mod)
    qed
    have low: "d + 2 ^ w * c < 2 ^ (2 * w)" if "d < 2 ^ w" "c < 2 ^ w" for c d :: nat
    proof -
      have "2 ^ w * (c + 1) \<le> 2 ^ w * (2 ^ w :: nat)" using that(2) by (intro mult_le_mono2) simp
      then show ?thesis using that(1) e by simp
    qed
    have ev: "digits_val w (a # b # ds) = (a + 2 ^ w * b) + 2 ^ (2 * w) * ?v" by (simp add: e distrib_left mult.assoc)
    have od: "digits_val w (a # b # ds) div 2 ^ w = (b + 2 ^ w * (?v mod 2 ^ w)) + 2 ^ (2 * w) * (?v div 2 ^ w)"
    proof -
      have "2 ^ w * ?v = 2 ^ w * (?v mod 2 ^ w) + 2 ^ (2 * w) * (?v div 2 ^ w)"
        unfolding e by (metis distrib_left mod_mult_div_eq mult.assoc)
      moreover have "digits_val w (a # b # ds) div 2 ^ w = b + 2 ^ w * ?v" using lt by simp
      ultimately show ?thesis by simp
    qed
    have lt': "(2::nat) ^ w - 1 < 2 ^ (2 * w)" using low [of "2 ^ w - 1" 0] by simp
    have "?v mod 2 ^ w < 2 ^ w" by simp
    note sp = and_split [OF low [OF lt] lt'] and_split [OF low [OF lt(2) this] lt']
    show ?case
      unfolding od unfolding ev m(1) low_mask_simps sp mask [OF lt(1)] mask [OF lt(2)] IH by simp
  qed (auto simp: low_mask_simps)
  then show "digits_val w ds AND low_mask w m = digits_val (2 * w) (evens ds)"
    "digits_val w ds div 2 ^ w AND low_mask w m = digits_val (2 * w) (odds ds)" by simp_all
qed

lemma val_evens_odds:
  "length ds = 2 * m \<Longrightarrow> digits_val w ds = digits_val (2 * w) (evens ds) + 2 ^ w * digits_val (2 * w) (odds ds)"
proof (induction ds arbitrary: m rule: pair_sums.induct)
  case (1 a b ds)
  then obtain m' where "length ds = 2 * m'" by (cases m) auto
  with 1 have "digits_val w ds = digits_val (2 * w) (evens ds) + 2 ^ w * digits_val (2 * w) (odds ds)" by blast
  then show ?case by (simp add: mult_2 power_add distrib_left mult.assoc)
qed auto

lemma val_pair_sums:
  "length ds = 2 * m \<Longrightarrow> digits_val k (evens ds) + digits_val k (odds ds) = digits_val k (pair_sums ds)"
proof (induction ds arbitrary: m rule: pair_sums.induct)
  case (1 a b ds)
  then obtain m' where "length ds = 2 * m'" by (cases m) auto
  with 1 have "digits_val k (evens ds) + digits_val k (odds ds) = digits_val k (pair_sums ds)" by blast
  then show ?case by (simp add: distrib_left [symmetric])
qed auto

fun shift_sums :: "nat list \<Rightarrow> nat list" where
  "shift_sums [] = []"
| "shift_sums [a] = [a]"
| "shift_sums (a # b # ds) = (a + b) # shift_sums (b # ds)"

lemma val_shift_sums:
  "\<forall>d \<in> set ds. d < 2 ^ w \<Longrightarrow> digits_val w ds + digits_val w ds div 2 ^ w = digits_val w (shift_sums ds)"
proof (induction ds rule: shift_sums.induct)
  case (3 a b ds)
  let ?v = "digits_val w (b # ds)"
  have "digits_val w (a # b # ds) div 2 ^ w = ?v" using 3(2) by simp
  moreover have "?v div 2 ^ w = digits_val w ds" using 3(2) by simp
  moreover have "?v + ?v div 2 ^ w = digits_val w (shift_sums (b # ds))" using 3 by simp
  then have "2 ^ w * ?v + 2 ^ w * (?v div 2 ^ w) = 2 ^ w * digits_val w (shift_sums (b # ds))"
    by (metis distrib_left)
  ultimately show ?case by simp
qed auto

lemma evens_shift_sums: "length ds = 2 * m \<Longrightarrow> evens (shift_sums ds) = pair_sums ds"
proof (induction ds arbitrary: m rule: pair_sums.induct)
  case (1 a b ds)
  then obtain m' where "length ds = 2 * m'" by (cases m) auto
  with 1 have "evens (shift_sums ds) = pair_sums ds" by blast
  then show ?case by (cases ds) auto
qed auto

lemma shift_sums_le: "\<forall>d \<in> set ds. d \<le> c \<Longrightarrow> \<forall>d \<in> set (shift_sums ds). d \<le> 2 * c"
  by (induction ds rule: shift_sums.induct) auto

lemma length_shift_sums [simp]: "length (shift_sums ds) = length ds"
  by (induction ds rule: shift_sums.induct) auto

lemma pair_sums_le: "\<forall>d \<in> set ds. d \<le> c \<Longrightarrow> \<forall>d \<in> set (pair_sums ds). d \<le> 2 * c"
  by (induction ds rule: pair_sums.induct) auto

lemma sum_pair_sums [simp]: "sum_list (pair_sums ds) = sum_list ds"
  by (induction ds rule: pair_sums.induct) auto

lemma length_pair_sums: "length ds = 2 * m \<Longrightarrow> length (pair_sums ds) = m"
proof (induction ds arbitrary: m rule: pair_sums.induct)
  case (1 a b ds)
  then obtain m' where "length ds = 2 * m'" "m = Suc m'" by (cases m) auto
  then show ?case using 1 by simp
qed auto

text \<open>The three steps of the parallel bit count, on natural numbers.\<close>

lemma pair_step:
  assumes "\<forall>d \<in> set ds. d < 2 ^ w" and "length ds = 2 * m"
  shows "(digits_val w ds AND low_mask w m) + (digits_val w ds div 2 ^ w AND low_mask w m) =
    digits_val (2 * w) (pair_sums ds)"
  by (simp only: and_low_mask [OF assms] val_pair_sums [OF assms(2)])

lemma pair_step_sub:
  assumes "\<forall>d \<in> set ds. d < 2" and "length ds = 2 * m"
  shows "digits_val 1 ds - (digits_val 1 ds div 2 AND low_mask 1 m) = digits_val 2 (pair_sums ds)"
    and "digits_val 1 ds div 2 AND low_mask 1 m \<le> digits_val 1 ds"
proof -
  have lt: "\<forall>d \<in> set ds. d < 2 ^ 1" using assms(1) by simp
  have o: "digits_val 1 ds div 2 AND low_mask 1 m = digits_val 2 (odds ds)"
    using and_low_mask(2) [OF lt assms(2)] by (simp add: mult.commute)
  have v: "digits_val 1 ds = digits_val 2 (evens ds) + 2 * digits_val 2 (odds ds)"
    using val_evens_odds [OF assms(2), of 1] by (simp add: mult.commute)
  show "digits_val 1 ds - (digits_val 1 ds div 2 AND low_mask 1 m) = digits_val 2 (pair_sums ds)"
    using val_pair_sums [OF assms(2), of 2] o v by linarith
  show "digits_val 1 ds div 2 AND low_mask 1 m \<le> digits_val 1 ds" using o v by linarith
qed

lemma shift_step:
  assumes le: "\<forall>d \<in> set ds. d \<le> c" and c: "2 * c < 2 ^ w" and len: "length ds = 2 * m"
  shows "(digits_val w ds + digits_val w ds div 2 ^ w) AND low_mask w m = digits_val (2 * w) (pair_sums ds)"
proof -
  have "\<forall>d \<in> set ds. d < 2 ^ w" using le c by fastforce
  moreover have "\<forall>d \<in> set (shift_sums ds). d < 2 ^ w" using shift_sums_le [OF le] c by fastforce
  ultimately show ?thesis
    using and_low_mask(1) [of "shift_sums ds" w m] val_shift_sums [of ds w] evens_shift_sums [OF len] len by simp
qed

lemma byte_sum:
  assumes "length cs = 8" and "\<forall>d \<in> set cs. d \<le> 8"
  shows "(digits_val 8 cs * 0x0101010101010101) mod 2 ^ 64 div 2 ^ 56 = sum_list cs"
proof -
  obtain a b c d e f g h where cs: "cs = [a, b, c, d, e, f, g, h]"
    using assms(1) by (auto simp: numeral_eq_Suc length_Suc_conv)
  have le: "a \<le> 8" "b \<le> 8" "c \<le> 8" "d \<le> 8" "e \<le> 8" "f \<le> 8" "g \<le> 8" "h \<le> 8" using assms(2) cs by auto
  define low where "low = a + 256 * (a + b) + 256^2 * (a + b + c) + 256^3 * (a + b + c + d) +
    256^4 * (a + b + c + d + e) + 256^5 * (a + b + c + d + e + f) + 256^6 * (a + b + c + d + e + f + g)"
  define hi where "hi = (b + c + d + e + f + g + h) + 256 * (c + d + e + f + g + h) + 256^2 * (d + e + f + g + h) +
    256^3 * (e + f + g + h) + 256^4 * (f + g + h) + 256^5 * (g + h) + 256^6 * h"
  have "digits_val 8 cs * 0x0101010101010101 = (low + 2 ^ 56 * sum_list cs) + 2 ^ 64 * hi"
    unfolding cs low_def hi_def by simp
  moreover have "low < 2 ^ 56" unfolding low_def using le by simp
  moreover from this have "low + 2 ^ 56 * sum_list cs < 2 ^ 64" unfolding cs using le by simp
  ultimately have "(digits_val 8 cs * 0x0101010101010101) mod 2 ^ 64 = low + 2 ^ 56 * sum_list cs"
    by (simp only: mod_mult_self2 mod_less)
  then show ?thesis using \<open>low < 2 ^ 56\<close> by simp
qed

lemma digits_val_bits: "digits_val 1 (map (\<lambda>i. of_bool (bit n i)) [0..<k]) = take_bit k n" for n :: nat
proof -
  have "digits_val 1 (map (\<lambda>i. of_bool (bit n i)) is) = horner_sum of_bool 2 (map (bit n) is)" for "is"
    by (induction "is") auto
  then show ?thesis by (simp add: horner_sum_bit_eq_take_bit)
qed

lemma sum_of_bits: "sum_list (map (\<lambda>i. of_bool (P i)) [0..<n]) = card {i. i < n \<and> P i}"
proof (induction n)
  case (Suc n)
  have "{i. i < Suc n \<and> P i} = (if P n then insert n {i. i < n \<and> P i} else {i. i < n \<and> P i})"
    by (auto simp: less_Suc_eq)
  then show ?case using Suc by simp
qed simp

lemma unat_shr: "unat (drop_bit n (x :: u64)) = unat x div 2 ^ n"
  unfolding unat_drop_bit_eq by (rule drop_bit_eq_div)

lemma low_mask_numeral:
  "low_mask w (numeral n) = (2 ^ w - 1) + 2 ^ (2 * w) * low_mask w (pred_numeral n)"
  by (simp add: numeral_eq_Suc low_mask_simps)

lemma count_masks:
  "unat (0x5555555555555555 :: u64) = low_mask 1 32"
  "unat (0x3333333333333333 :: u64) = low_mask 2 16"
  "unat (0x0f0f0f0f0f0f0f0f :: u64) = low_mask 4 8"
  by (simp_all add: low_mask_numeral low_mask_simps)

lemma count_step1:
  assumes x: "unat x = digits_val 1 ds" and ds: "length ds = 2 * 32" "\<forall>d \<in> set ds. d \<le> 1"
  shows "unat (x - (drop_bit 1 x AND (0x5555555555555555 :: u64))) = digits_val 2 (pair_sums ds)"
proof -
  have lt: "\<forall>d \<in> set ds. d < 2" using ds(2) by fastforce
  have e: "unat (drop_bit 1 x AND (0x5555555555555555 :: u64)) = digits_val 1 ds div 2 AND low_mask 1 32"
    unfolding unsigned_and_eq unat_shr count_masks x by (simp only: power_one_right)
  have "drop_bit 1 x AND (0x5555555555555555 :: u64) \<le> x"
    unfolding word_le_nat_alt e x by (rule pair_step_sub(2) [OF lt ds(1)])
  then show ?thesis unfolding unat_sub [OF \<open>_ \<le> x\<close>] e x by (intro pair_step_sub(1) [OF lt ds(1)])
qed

lemma count_step2:
  assumes x: "unat x = digits_val 2 ds" and ds: "length ds = 2 * 16" "\<forall>d \<in> set ds. d \<le> 2"
  shows "unat ((x AND (0x3333333333333333 :: u64)) + (drop_bit 2 x AND 0x3333333333333333)) = digits_val 4 (pair_sums ds)"
proof -
  have lt: "\<forall>d \<in> set ds. d < 2 ^ 2" using ds(2) by fastforce
  have e: "unat (x AND (0x3333333333333333 :: u64)) + unat (drop_bit 2 x AND (0x3333333333333333 :: u64)) =
      digits_val (2 * 2) (pair_sums ds)"
    unfolding unsigned_and_eq unat_shr count_masks x by (rule pair_step [OF lt ds(1)])
  have "\<forall>d \<in> set (pair_sums ds). d < 2 ^ 4" using pair_sums_le [OF ds(2)] by fastforce
  then have "digits_val 4 (pair_sums ds) < 2 ^ (4 * 16)"
    using digits_val_bound [of "pair_sums ds" 4] length_pair_sums [OF ds(1)] by simp
  then show ?thesis using e by (subst unat_add_if_fits) simp_all
qed

lemma count_step3:
  assumes x: "unat x = digits_val 4 ds" and ds: "length ds = 2 * 8" "\<forall>d \<in> set ds. d \<le> 4"
  shows "unat ((x + drop_bit 4 x) AND (0x0f0f0f0f0f0f0f0f :: u64)) = digits_val 8 (pair_sums ds)"
proof -
  have lt: "\<forall>d \<in> set ds. d < 2 ^ 4" using ds(2) by fastforce
  have "\<forall>d \<in> set (shift_sums ds). d < 2 ^ 4" using shift_sums_le [OF ds(2)] by fastforce
  then have "digits_val 4 (shift_sums ds) < 2 ^ (4 * 16)"
    using digits_val_bound [of "shift_sums ds" 4] ds(1) by simp
  moreover have d: "unat (drop_bit 4 x) = digits_val 4 ds div 2 ^ 4"
    unfolding unat_shr x ..
  ultimately have "unat (x + drop_bit 4 x) = digits_val 4 ds + digits_val 4 ds div 2 ^ 4"
    using val_shift_sums [OF lt] x by (subst unat_add_if_fits) simp_all
  then have "unat ((x + drop_bit 4 x) AND (0x0f0f0f0f0f0f0f0f :: u64)) =
      (digits_val 4 ds + digits_val 4 ds div 2 ^ 4) AND low_mask 4 8"
    unfolding unsigned_and_eq count_masks by simp
  also have "\<dots> = digits_val (2 * 4) (pair_sums ds)" by (rule shift_step [OF ds(2) _ ds(1)]) simp
  finally show ?thesis by simp
qed

lemma count_step4:
  assumes x: "unat x = digits_val 8 ds" and ds: "length ds = 8" "\<forall>d \<in> set ds. d \<le> 8"
  shows "unat (drop_bit 56 (x * (0x0101010101010101 :: u64))) = sum_list ds"
proof -
  have "unat (x * (0x0101010101010101 :: u64)) = (digits_val 8 ds * 0x0101010101010101) mod 2 ^ 64"
    unfolding unat_word_ariths x by simp
  then show ?thesis unfolding unat_shr using byte_sum [OF ds] by simp
qed

lemma hamming_weight_correct: "unat (hamming_weight x) = card {i. i < 64 \<and> bit x i}"
proof -
  define ds :: "nat list" where "ds = map (\<lambda>i. of_bool (bit (unat x) i)) [0..<64]"
  have ds: "length ds = 2 * 32" "\<forall>d \<in> set ds. d \<le> 1" by (auto simp: ds_def)
  have "unat x = take_bit 64 (unat x)" using u64_lt [of x] by (simp add: take_bit_eq_mod)
  then have x: "unat x = digits_val 1 ds" unfolding ds_def digits_val_bits .
  note s2 = length_pair_sums [of ds 32, OF ds(1)] pair_sums_le [OF ds(2)]
  note s4 = length_pair_sums [of "pair_sums ds" 16] pair_sums_le [OF s2(2)]
  note s8 = length_pair_sums [of "pair_sums (pair_sums ds)" 8] pair_sums_le [OF s4(2)]
  have "unat (hamming_weight x) = sum_list (pair_sums (pair_sums (pair_sums ds)))"
    unfolding hamming_weight_def Let_def
    by (intro count_step4 count_step3 count_step2 count_step1 x ds) (use s2 s4 s8 in simp_all)
  also have "\<dots> = sum_list ds" by simp
  also have "\<dots> = card {i. i < 64 \<and> bit x i}"
    unfolding ds_def sum_of_bits by (rule arg_cong [where f = card]) (auto simp: bit_unsigned_iff)
  finally show ?thesis .
qed

section \<open>Enumeration of the elements\<close>

lemma set_list_bits: "set (list_bits k x b) = {x + of_nat j | j. j < k \<and> bit b j}"
proof (induction k arbitrary: x b)
  case (Suc k)
  have "{x + of_nat j | j. j < Suc k \<and> bit b j} =
      (if bit b 0 then {x} else {}) \<union> {x + of_nat (Suc j) | j. j < k \<and> bit b (Suc j)}"
    (is "?A = ?B")
  proof
    show "?A \<subseteq> ?B"
    proof
      fix y assume "y \<in> ?A"
      then obtain j where "y = x + of_nat j" "j < Suc k" "bit b j" by blast
      then show "y \<in> ?B" by (cases j) auto
    qed
    show "?B \<subseteq> ?A" by (force split: if_splits)
  qed
  moreover have "b AND 1 \<noteq> 0 \<longleftrightarrow> bit b 0" by (simp add: and_one_eq bit_0 odd_iff_mod_2_eq_one)
  moreover have "set (list_bits k (x + 1) (drop_bit 1 b)) = {x + of_nat (Suc j) | j. j < k \<and> bit b (Suc j)}"
    using Suc [of "x + 1" "drop_bit 1 b"] by (simp add: bit_drop_bit_eq ac_simps)
  ultimately show ?case by auto
qed simp

lemma set_list_blocks: "set (list_blocks x c) = {x + of_nat n | n. cbit c n}"
proof (induction c arbitrary: x)
  case (Cons b c)
  have "{x + of_nat n | n. cbit (b # c) n} =
      {x + of_nat n | n. n < 64 \<and> bit b n} \<union> {x + of_nat (n + 64) | n. cbit c n}" (is "?A = ?B")
  proof
    show "?A \<subseteq> ?B"
    proof
      fix y assume "y \<in> ?A"
      then obtain n where n: "y = x + of_nat n" "cbit (b # c) n" by blast
      show "y \<in> ?B"
      proof (cases "n < 64")
        case True
        then show ?thesis using n by (auto simp: cbit_Cons)
      next
        case False
        then obtain k where "n = k + 64" "cbit c k"
          using n(2) by (intro that [of "n - 64"]) (auto simp: cbit_Cons)
        then show ?thesis using n(1) by blast
      qed
    qed
    show "?B \<subseteq> ?A" by (force simp: cbit_Cons)
  qed
  then show ?case using Cons [of "x + 64"] by (simp add: set_list_bits ac_simps)
qed simp

lemma cbit_index: "cbit c n \<Longrightarrow> n < 64 * length c"
  by (simp add: cbit_def less_mult_imp_div_less) (metis div_less_iff_less_mult mult.commute zero_less_numeral)

lemma unat_of_nat_64: "n < 2 ^ 64 \<Longrightarrow> unat (of_nat n :: u64) = n"
  by (simp only: unat_of_nat) simp

lemma elements_set:
  assumes "length (container t) \<le> 2 ^ 58"
  shows "elements t = {x. is_element t x}"
proof -
  have "(\<exists>n. x = of_nat n \<and> cbit (container t) n) \<longleftrightarrow> cbit (container t) (unat x)" for x :: u64
  proof
    assume "\<exists>n. x = of_nat n \<and> cbit (container t) n"
    then obtain n where n: "x = of_nat n" "cbit (container t) n" by blast
    have "n < 2 ^ 64" using cbit_index [OF n(2)] assms by simp
    then have "unat x = n" unfolding n(1) by (rule unat_of_nat_64)
    then show "cbit (container t) (unat x)" using n(2) by simp
  next
    assume "cbit (container t) (unat x)"
    then show "\<exists>n. x = of_nat n \<and> cbit (container t) n" by (intro exI [of _ "unat x"]) simp
  qed
  then show ?thesis by (auto simp: elements_def list_elements_def set_list_blocks is_element_cbit)
qed

lemma card_cbit: "card {n. cbit c n} = sum_list (map (\<lambda>b. card {i. i < 64 \<and> bit b i}) c)"
proof (induction c)
  case (Cons b c)
  have fin: "finite {n. cbit c n}"
    by (rule finite_subset [of _ "{..<64 * length c}"]) (auto dest: cbit_index)
  have "{n. cbit (b # c) n} = {i. i < 64 \<and> bit b i} \<union> (\<lambda>n. n + 64) ` {n. cbit c n}"
  proof (rule set_eqI)
    fix n
    show "n \<in> {n. cbit (b # c) n} \<longleftrightarrow> n \<in> {i. i < 64 \<and> bit b i} \<union> (\<lambda>n. n + 64) ` {n. cbit c n}"
    proof (cases "n < 64")
      case False
      then have "n = (n - 64) + 64" by simp
      then have "n \<in> (\<lambda>n. n + 64) ` {n. cbit c n} \<longleftrightarrow> cbit c (n - 64)" by (force simp: image_iff)
      then show ?thesis using False by (simp add: cbit_Cons)
    qed (auto simp: cbit_Cons)
  qed
  moreover have "card ((\<lambda>n. n + 64) ` {n. cbit c n}) = card {n. cbit c n}"
    by (intro card_image) simp
  moreover have "{i. i < 64 \<and> bit b i} \<inter> (\<lambda>n. n + 64) ` {n. cbit c n} = {}" by auto
  ultimately show ?case using Cons fin by (simp add: card_Un_disjoint)
qed simp

lemma foldl_count: "foldl (\<lambda>cnt block. cnt + hamming_weight block) x c = x + sum_list (map hamming_weight c)"
  by (induction c arbitrary: x) (simp_all add: add.assoc)

lemma of_nat_sum_list_hamming:
  "of_nat (sum_list (map (\<lambda>b. unat (hamming_weight b)) c)) = sum_list (map hamming_weight c)"
  by (induction c) auto

lemma count_elements:
  assumes "length (container t) < 2 ^ 58"
  shows "unat (bs_count t) = card (elements t)"
proof -
  let ?c = "container t"
  have img: "elements t = of_nat ` {n. cbit ?c n}"
    by (auto simp: elements_def list_elements_def set_list_blocks)
  have "inj_on (of_nat :: nat \<Rightarrow> u64) {n. cbit ?c n}"
  proof (rule inj_on_subset [OF _ subsetI])
    show "inj_on (of_nat :: nat \<Rightarrow> u64) {..<2 ^ 64}"
      by (rule inj_onI) (metis lessThan_iff unat_of_nat_64)
    show "n \<in> {..<2 ^ 64}" if "n \<in> {n. cbit ?c n}" for n using cbit_index [of ?c n] that assms by simp
  qed
  then have "card (elements t) = card {n. cbit ?c n}" unfolding img by (rule card_image)
  also have "\<dots> = sum_list (map (\<lambda>b. unat (hamming_weight b)) ?c)"
    unfolding card_cbit hamming_weight_correct ..
  finally have card: "card (elements t) = sum_list (map (\<lambda>b. unat (hamming_weight b)) ?c)" .
  have "bs_count t = of_nat (sum_list (map (\<lambda>b. unat (hamming_weight b)) ?c))"
    by (simp add: bs_count_def foldl_count of_nat_sum_list_hamming)
  moreover have "card (elements t) < 2 ^ 64"
  proof -
    have "{n. cbit ?c n} \<subseteq> {..<64 * length ?c}" by (auto dest: cbit_index)
    then have "card {n. cbit ?c n} \<le> 64 * length ?c" using card_mono [of "{..<64 * length ?c}"] by fastforce
    then show ?thesis using assms \<open>card (elements t) = card {n. cbit ?c n}\<close> by simp
  qed
  ultimately show ?thesis using card unat_of_nat_64 by metis
qed

section \<open>Hexadecimal round trip\<close>

lemma hex_char_value: "n < 16 \<Longrightarrow> hex_value (hex_char n) = Some n \<and> hex_char n \<notin> set ''-+xX'' \<and> (hex_char n = CHR ''0'' \<longleftrightarrow> n = 0)"
proof -
  have "\<forall>n \<in> set [0..<16]. hex_value (hex_char n) = Some n \<and> hex_char n \<notin> set ''-+xX'' \<and> (hex_char n = CHR ''0'' \<longleftrightarrow> n = 0)"
    by code_simp
  then show "n < 16 \<Longrightarrow> ?thesis" by simp
qed

lemma read_hex_digits_chars:
  "\<forall>d \<in> set ds. d < 16 \<Longrightarrow> read_hex_digits v found (map hex_char ds) =
     (foldl (\<lambda>v d. 16 * v + of_nat d) v ds, found \<or> ds \<noteq> [], [])"
  by (induction ds arbitrary: v found) (auto simp: hex_char_value)

lemma stream_hex_chars:
  assumes "\<forall>d \<in> set ds. d < 16" and "ds \<noteq> []"
  shows "stream_hex (map hex_char ds) = (foldl (\<lambda>v d. 16 * v + of_nat d) 0 ds, False, True)"
proof -
  obtain d ds' where ds: "ds = d # ds'" using assms(2) by (cases ds) auto
  have d: "d < 16" using assms(1) ds by simp
  have sign: "read_sign (map hex_char ds) = (False, map hex_char ds)"
    using hex_char_value [OF d] by (simp add: read_sign_def ds)
  have prefix: "read_hex_prefix (map hex_char ds) =
      (if d = 0 then (True, map hex_char ds') else (False, map hex_char ds))"
    using hex_char_value [OF d] assms(1) ds hex_char_value by (auto simp: read_hex_prefix_def split: list.splits)
  have "\<forall>d \<in> set ds'. d < 16" using assms(1) ds by simp
  note R = read_hex_digits_chars [OF assms(1), of 0] read_hex_digits_chars [OF this, of 0]
  show ?thesis
    unfolding stream_hex_def sign by (cases "d = 0") (simp_all add: prefix R, simp_all add: ds)
qed

lemma nibble_step: "16 * drop_bit (k + 4) v + (drop_bit k v AND 15) = drop_bit k (v :: u64)"
proof -
  let ?w = "drop_bit k v"
  have "drop_bit (k + 4) v = drop_bit 4 ?w" by (simp add: add.commute)
  moreover have "?w AND 15 = take_bit 4 ?w" by (simp add: take_bit_eq_mask mask_eq_exp_minus_1)
  moreover have "push_bit 4 (drop_bit 4 ?w) = 16 * drop_bit 4 ?w" by (simp add: push_bit_eq_mult)
  ultimately show ?thesis using bits_ident [of 4 ?w] by simp
qed

lemma nibbles_fold:
  "n \<le> 16 \<Longrightarrow> foldl (\<lambda>v d. 16 * v + of_nat d) 0
     (map (\<lambda>i. unat (drop_bit (4 * (15 - i)) v AND 15)) [0..<n]) = drop_bit (64 - 4 * n) (v :: u64)"
proof (induction n)
  case 0
  show ?case by (simp add: bit_eq_iff bit_simps)
next
  case (Suc n)
  then have "64 - 4 * n = 4 * (15 - n) + 4" "64 - 4 * Suc n = 4 * (15 - n)" by auto
  then show ?case using Suc nibble_step [of "4 * (15 - n)" v] by simp
qed

lemma stream_hex_digits_of: "stream_hex (hex_digits_of v) = (v, False, True)"
proof -
  define ds where "ds = map (\<lambda>i. unat (drop_bit (4 * (15 - i)) v AND 15)) [0..<16]"
  have "unat (w AND 15) < 16" for w :: u64
  proof -
    have "w AND 15 = take_bit 4 w" by (simp add: take_bit_eq_mask mask_eq_exp_minus_1)
    then have "unat (w AND 15) = take_bit 4 (unat w)" by (simp only: unsigned_take_bit_eq)
    then show ?thesis by (simp add: take_bit_eq_mod)
  qed
  then have ds: "\<forall>d \<in> set ds. d < 16" "ds \<noteq> []" by (auto simp: ds_def)
  have "hex_digits_of v = map hex_char ds" by (simp add: hex_digits_of_def ds_def)
  then have "stream_hex (hex_digits_of v) = (foldl (\<lambda>v d. 16 * v + of_nat d) 0 ds, False, True)"
    using stream_hex_chars [OF ds] by simp
  also have "foldl (\<lambda>v d. 16 * v + of_nat d) 0 ds = v" using nibbles_fold [of 16 v] by (simp add: ds_def)
  finally show ?thesis .
qed

lemma from_hex_loop_to_hex:
  "from_hex_loop bs (''/'' @ concat (map (\<lambda>v. hex_digits_of v @ ''/'') vs)) = (bs @ vs, [])"
proof (induction vs arbitrary: bs)
  case Nil
  show ?case by (simp add: from_hex_loop.simps)
next
  case (Cons v vs)
  have "length (hex_digits_of v) = 16" by (simp add: hex_digits_of_def)
  then show ?case
    using Cons [of "bs @ [v]"]
    by (subst from_hex_loop.simps) (simp add: stream_hex_digits_of)
qed

section \<open>Properties\<close>

text \<open>
  C16: The operations on bit sets are the operations on the sets of their elements: insertion,
  deletion, union, intersection and symmetric difference.
\<close>

theorem bitset_operations:
  "(is_element (ins t x) y \<longleftrightarrow> y = x \<or> is_element t y) \<and>
   (is_element (del t x) y \<longleftrightarrow> y \<noteq> x \<and> is_element t y) \<and>
   (is_element (bitset_or t u) y \<longleftrightarrow> is_element t y \<or> is_element u y) \<and>
   (is_element (bitset_and t u) y \<longleftrightarrow> is_element t y \<and> is_element u y) \<and>
   (is_element (bitset_xor t u) y \<longleftrightarrow> is_element t y \<noteq> is_element u y)"
  unfolding is_element_cbit bitset_or_def bitset_and_def bitset_xor_def
  by (simp add: cbit_ins cbit_del cbit_bitwise [where g = "(\<or>)"] cbit_bitwise [where g = "(\<and>)"]
        cbit_bitwise [where g = "(\<noteq>)"] bit_or_iff bit_and_iff bit_xor_iff word_unat_eq_iff)

text \<open>
  C17: The parallel bit count over all blocks is the number of elements, and the enumeration visits
  exactly the elements, as long as the container has fewer than \<open>2 ^ 58\<close> blocks (so that the largest
  possible element and the count fit into 64 bits).
\<close>

theorem bitset_count:
  assumes "length (container t) < 2 ^ 58"
  shows "unat (bs_count t) = card {x. is_element t x} \<and> set (list_elements t) = {x. is_element t x}"
proof -
  have "elements t = {x. is_element t x}" using elements_set assms by simp
  then show ?thesis using count_elements [OF assms] by (simp add: elements_def)
qed

theorem bitset_count_witness:
  "unat (bs_count (Bitset [5, 8])) = card {x. is_element (Bitset [5, 8]) x} \<and> bs_count (Bitset [5, 8]) = 3"
proof -
  have "bs_count (Bitset [5, 8]) = 3" by (simp add: bs_count_def hamming_weight_def)
  then show ?thesis using bitset_count [of "Bitset [5, 8]"] by simp
qed

text \<open>C15: Reading the textual form of a bit set gives back the same bit set.\<close>

theorem hex_roundtrip: "from_hex (to_hex t) = Inr t"
  using from_hex_loop_to_hex [of "[]" "container t"]
  by (simp add: from_hex_def from_hex_iter_def to_hex_def)

text \<open>
  C18: Two bit sets compare equal exactly if they have the same elements, whatever the number of
  trailing zero blocks.
\<close>

theorem bitset_eq_elements:
  assumes "length (container t) \<le> 2 ^ 58" and "length (container u) \<le> 2 ^ 58"
  shows "bitset_eq t u \<longleftrightarrow> (\<forall>x. is_element t x = is_element u x)"
proof -
  have "cbit (container t) n = cbit (container u) n" if "\<forall>x. is_element t x = is_element u x" for n
  proof (cases "n < 2 ^ 64")
    case True
    then show ?thesis using that [rule_format, of "of_nat n"] by (simp add: is_element_cbit unat_of_nat_64)
  next
    case False
    then show ?thesis using cbit_index [of "container t" n] cbit_index [of "container u" n] assms by fastforce
  qed
  then show ?thesis by (auto simp: bitset_eq_def eq_blocks_cbit is_element_cbit)
qed

theorem bitset_eq_elements_witness: "bitset_eq (Bitset [6, 0]) (Bitset [6]) \<and>
    (\<forall>x. is_element (Bitset [6, 0]) x = is_element (Bitset [6]) x)"
  using bitset_eq_elements [of "Bitset [6, 0]" "Bitset [6]"] by (simp add: bitset_eq_def)

text \<open>
  The strict order is not compatible with this equality: an intersection may leave a zero block
  behind, and then one of two equal sets is smaller than the other.
\<close>

lemma bitset_less_not_compatible:
  "let t = bitset_and (ins (ins (Bitset []) 1) 70) (ins (ins (Bitset []) 1) 71); u = ins (Bitset []) 1 in
   bitset_eq t u \<and> bitset_less u t"
  by code_simp

end
