(* ===== verification/Value.thy ===== *)
theory Value
  imports BitSet
begin

text \<open>
  The values of \<^verbatim>\<open>src/we/type/value.hpp\<close>, their order (used by the sets and maps among them), access by
  paths (\<^verbatim>\<open>value/peek.cpp\<close>, \<^verbatim>\<open>value/poke.cpp\<close>, \<^verbatim>\<open>value/positions.cpp\<close>, \<^verbatim>\<open>value/path\<close>), their type names and
  signatures (\<^verbatim>\<open>value/name_of.cpp\<close>, \<^verbatim>\<open>signature.hpp\<close>, \<^verbatim>\<open>signature_of.cpp\<close>, \<^verbatim>\<open>require_type.cpp\<close>, \<^verbatim>\<open>field.cpp\<close>).
  Sets and maps are ascending lists.  The locale \<open>strict_weak_order\<close> is what the ordered containers
  rely on; it is interpreted on the order of values without a NaN.
\<close>

section \<open>Values\<close>

datatype value_type =
    V_control
  | V_bool bool
  | V_int u32
  | V_long u64
  | V_uint u32
  | V_ulong u64
  | V_float u32
  | V_double u64
  | V_char char
  | V_string string
  | V_bitset bitset
  | V_bytearray "char list"
  | V_list "value_type list"
  | V_set "value_type list"
  | V_map "(value_type \<times> value_type) list"
  | V_struct "(string \<times> value_type) list"

type_synonym structured_type = "(string \<times> value_type) list"

fun which :: "value_type \<Rightarrow> nat" where
  "which V_control = 0"
| "which (V_bool _) = 1"
| "which (V_int _) = 2"
| "which (V_long _) = 3"
| "which (V_uint _) = 4"
| "which (V_ulong _) = 5"
| "which (V_float _) = 6"
| "which (V_double _) = 7"
| "which (V_char _) = 8"
| "which (V_string _) = 9"
| "which (V_bitset _) = 10"
| "which (V_bytearray _) = 11"
| "which (V_list _) = 12"
| "which (V_set _) = 13"
| "which (V_map _) = 14"
| "which (V_struct _) = 15"

text \<open>
  Floating point numbers are kept as their IEEE 754 bit patterns.  The comparisons of the language
  are determined by the patterns: no comparison with a NaN holds and the two zeros are equal.
\<close>

definition f32_nan :: "u32 \<Rightarrow> bool" where
  "f32_nan x \<longleftrightarrow> 0x7f800000 < x AND 0x7fffffff"

definition f32_key :: "u32 \<Rightarrow> int" where
  "f32_key x = (let m = uint (x AND 0x7fffffff) in if bit x 31 then - m else m)"

definition f32_lt :: "u32 \<Rightarrow> u32 \<Rightarrow> bool" where
  "f32_lt x y \<longleftrightarrow> \<not> f32_nan x \<and> \<not> f32_nan y \<and> f32_key x < f32_key y"

definition f32_le :: "u32 \<Rightarrow> u32 \<Rightarrow> bool" where
  "f32_le x y \<longleftrightarrow> \<not> f32_nan x \<and> \<not> f32_nan y \<and> f32_key x \<le> f32_key y"

definition f64_nan :: "u64 \<Rightarrow> bool" where
  "f64_nan x \<longleftrightarrow> 0x7ff0000000000000 < x AND 0x7fffffffffffffff"

definition f64_key :: "u64 \<Rightarrow> int" where
  "f64_key x = (let m = uint (x AND 0x7fffffffffffffff) in if bit x 63 then - m else m)"

definition f64_lt :: "u64 \<Rightarrow> u64 \<Rightarrow> bool" where
  "f64_lt x y \<longleftrightarrow> \<not> f64_nan x \<and> \<not> f64_nan y \<and> f64_key x < f64_key y"

definition f64_le :: "u64 \<Rightarrow> u64 \<Rightarrow> bool" where
  "f64_le x y \<longleftrightarrow> \<not> f64_nan x \<and> \<not> f64_nan y \<and> f64_key x \<le> f64_key y"

text \<open>Characters of strings compare as unsigned numbers, plain characters as signed ones.\<close>

definition char_code :: "char \<Rightarrow> int" where
  "char_code c = of_char c"

definition char_signed :: "char \<Rightarrow> int" where
  "char_signed c = (let n = of_char c in if n < 128 then n else n - 256)"

definition char_lt :: "char \<Rightarrow> char \<Rightarrow> bool" where
  "char_lt c d \<longleftrightarrow> char_signed c < char_signed d"

fun string_lt :: "string \<Rightarrow> string \<Rightarrow> bool" where
  "string_lt s [] = False"
| "string_lt [] (d # ds) = True"
| "string_lt (c # cs) (d # ds) = (char_code c < char_code d \<or> \<not> char_code d < char_code c \<and> string_lt cs ds)"

fun bytearray_lt :: "char list \<Rightarrow> char list \<Rightarrow> bool" where
  "bytearray_lt s [] = False"
| "bytearray_lt [] (d # ds) = True"
| "bytearray_lt (c # cs) (d # ds) = (char_lt c d \<or> \<not> char_lt d c \<and> bytearray_lt cs ds)"

text \<open>
  The order of \<^verbatim>\<open>boost::variant\<close>: first by the index of the alternative, then by the order of the
  alternative; the containers compare lexicographically.
\<close>

function (sequential) value_lt :: "value_type \<Rightarrow> value_type \<Rightarrow> bool"
  and values_lt :: "value_type list \<Rightarrow> value_type list \<Rightarrow> bool"
  and entries_lt :: "(value_type \<times> value_type) list \<Rightarrow> (value_type \<times> value_type) list \<Rightarrow> bool"
  and fields_lt :: "structured_type \<Rightarrow> structured_type \<Rightarrow> bool"
where
  "value_lt x y =
     (if which x \<noteq> which y then which x < which y
      else case x of
        V_control \<Rightarrow> False
      | V_bool a \<Rightarrow> (case y of V_bool b \<Rightarrow> a < b | _ \<Rightarrow> False)
      | V_int a \<Rightarrow> (case y of V_int b \<Rightarrow> sint a < sint b | _ \<Rightarrow> False)
      | V_long a \<Rightarrow> (case y of V_long b \<Rightarrow> sint a < sint b | _ \<Rightarrow> False)
      | V_uint a \<Rightarrow> (case y of V_uint b \<Rightarrow> a < b | _ \<Rightarrow> False)
      | V_ulong a \<Rightarrow> (case y of V_ulong b \<Rightarrow> a < b | _ \<Rightarrow> False)
      | V_float a \<Rightarrow> (case y of V_float b \<Rightarrow> f32_lt a b | _ \<Rightarrow> False)
      | V_double a \<Rightarrow> (case y of V_double b \<Rightarrow> f64_lt a b | _ \<Rightarrow> False)
      | V_char a \<Rightarrow> (case y of V_char b \<Rightarrow> char_lt a b | _ \<Rightarrow> False)
      | V_string a \<Rightarrow> (case y of V_string b \<Rightarrow> string_lt a b | _ \<Rightarrow> False)
      | V_bitset a \<Rightarrow> (case y of V_bitset b \<Rightarrow> bitset_less a b | _ \<Rightarrow> False)
      | V_bytearray a \<Rightarrow> (case y of V_bytearray b \<Rightarrow> bytearray_lt a b | _ \<Rightarrow> False)
      | V_list a \<Rightarrow> (case y of V_list b \<Rightarrow> values_lt a b | _ \<Rightarrow> False)
      | V_set a \<Rightarrow> (case y of V_set b \<Rightarrow> values_lt a b | _ \<Rightarrow> False)
      | V_map a \<Rightarrow> (case y of V_map b \<Rightarrow> entries_lt a b | _ \<Rightarrow> False)
      | V_struct a \<Rightarrow> (case y of V_struct b \<Rightarrow> fields_lt a b | _ \<Rightarrow> False))"
| "values_lt xs [] = False"
| "values_lt [] (y # ys) = True"
| "values_lt (x # xs) (y # ys) = (value_lt x y \<or> \<not> value_lt y x \<and> values_lt xs ys)"
| "entries_lt xs [] = False"
| "entries_lt [] (y # ys) = True"
| "entries_lt (x # xs) (y # ys) =
     ((value_lt (fst x) (fst y) \<or> \<not> value_lt (fst y) (fst x) \<and> value_lt (snd x) (snd y)) \<or>
      \<not> (value_lt (fst y) (fst x) \<or> \<not> value_lt (fst x) (fst y) \<and> value_lt (snd y) (snd x)) \<and> entries_lt xs ys)"
| "fields_lt xs [] = False"
| "fields_lt [] (y # ys) = True"
| "fields_lt (x # xs) (y # ys) =
     ((string_lt (fst x) (fst y) \<or> \<not> string_lt (fst y) (fst x) \<and> value_lt (snd x) (snd y)) \<or>
      \<not> (string_lt (fst y) (fst x) \<or> \<not> string_lt (fst x) (fst y) \<and> value_lt (snd y) (snd x)) \<and> fields_lt xs ys)"
  by pat_completeness auto
termination
proof (relation "measure (\<lambda>q. case q of
      Inl (Inl (x, y)) \<Rightarrow> size x + size y
    | Inl (Inr (xs, ys)) \<Rightarrow> size_list size xs + size_list size ys
    | Inr (Inl (xs, ys)) \<Rightarrow> size_list (size_prod size size) xs + size_list (size_prod size size) ys
    | Inr (Inr (xs, ys)) \<Rightarrow> size_list (size_prod (\<lambda>_. 0) size) xs + size_list (size_prod (\<lambda>_. 0) size) ys)",
    goal_cases)
qed auto

section \<open>Strict weak orders\<close>

definition strict_at :: "('a \<Rightarrow> 'a \<Rightarrow> bool) \<Rightarrow> 'a \<Rightarrow> 'a \<Rightarrow> 'a \<Rightarrow> bool" where
  "strict_at r x y z \<longleftrightarrow>
     \<not> r x x \<and> (r x y \<longrightarrow> \<not> r y x) \<and> (r x y \<longrightarrow> r y z \<longrightarrow> r x z) \<and>
     (r x y \<longrightarrow> \<not> r y z \<longrightarrow> \<not> r z y \<longrightarrow> r x z) \<and>
     (\<not> r x y \<longrightarrow> \<not> r y x \<longrightarrow> r y z \<longrightarrow> r x z) \<and>
     (\<not> r x y \<longrightarrow> \<not> r y x \<longrightarrow> \<not> r y z \<longrightarrow> \<not> r z y \<longrightarrow> \<not> r x z \<and> \<not> r z x)"

definition strict_from :: "('a \<Rightarrow> bool) \<Rightarrow> ('a \<Rightarrow> 'a \<Rightarrow> bool) \<Rightarrow> 'a \<Rightarrow> bool" where
  "strict_from W r x \<longleftrightarrow> (\<forall>y z. W y \<longrightarrow> W z \<longrightarrow> strict_at r x y z)"

fun lex_lt :: "('a \<Rightarrow> 'a \<Rightarrow> bool) \<Rightarrow> 'a list \<Rightarrow> 'a list \<Rightarrow> bool" where
  "lex_lt r xs [] = False"
| "lex_lt r [] (y # ys) = True"
| "lex_lt r (x # xs) (y # ys) = (r x y \<or> \<not> r y x \<and> lex_lt r xs ys)"

definition pair_lt :: "('a \<Rightarrow> 'a \<Rightarrow> bool) \<Rightarrow> ('b \<Rightarrow> 'b \<Rightarrow> bool) \<Rightarrow> 'a \<times> 'b \<Rightarrow> 'a \<times> 'b \<Rightarrow> bool" where
  "pair_lt r s x y \<longleftrightarrow> r (fst x) (fst y) \<or> \<not> r (fst y) (fst x) \<and> s (snd x) (snd y)"

lemma strict_key: "strict_at (\<lambda>x y. (k x :: 'b :: linorder) < k y) x y z"
  by (auto simp: strict_at_def)

lemma strict_pair:
  assumes "strict_at r (fst x) (fst y) (fst z)" "strict_at s (snd x) (snd y) (snd z)"
  shows "strict_at (pair_lt r s) x y z"
  using assms unfolding strict_at_def pair_lt_def by blast

lemma strict_lex:
  assumes "\<And>x. x \<in> set xs \<Longrightarrow> strict_from W r x" and "\<forall>x \<in> set xs. W x" and "\<forall>y \<in> set ys. W y" and "\<forall>z \<in> set zs. W z"
  shows "strict_at (lex_lt r) xs ys zs"
  using assms
proof (induction xs arbitrary: ys zs)
  case Nil
  show ?case by (cases ys; cases zs) (auto simp: strict_at_def)
next
  case (Cons x xs)
  have IH: "strict_at (lex_lt r) xs ys' zs'" if "\<forall>y \<in> set ys'. W y" "\<forall>z \<in> set zs'. W z" for ys' zs'
    using Cons that by simp
  have "W x" using Cons by simp
  show ?case
  proof (cases ys)
    case Nil
    then show ?thesis
      using IH [of xs xs] Cons.prems(1) [of x] Cons.prems(2)
      by (cases zs) (auto simp: strict_at_def strict_from_def)
  next
    case (Cons y ys')
    then have h: "strict_at r x y z" if "W z" for z
      using Cons.prems(1) [of x] Cons.prems(3) that by (simp add: strict_from_def)
    have ys': "\<forall>y \<in> set ys'. W y" using Cons Cons.prems(3) by simp
    show ?thesis
    proof (cases zs)
      case Nil
      then show ?thesis
        using IH [OF ys', of ys'] ys' h [of x] \<open>W x\<close> Cons by (simp add: strict_at_def)
    next
      case (Cons z zs')
      then have "W z" "\<forall>z \<in> set zs'. W z" using Cons.prems(4) by simp_all
      then have "strict_at (pair_lt r (lex_lt r)) (x, xs) (y, ys') (z, zs')"
        using IH [OF ys', of zs'] h [of z] by (intro strict_pair) simp_all
      then show ?thesis
        unfolding \<open>ys = y # ys'\<close> Cons strict_at_def pair_lt_def lex_lt.simps fst_conv snd_conv .
    qed
  qed
qed

section \<open>The order of values\<close>

declare value_lt.simps [simp del]

lemma values_lt_lex: "values_lt xs ys = lex_lt value_lt xs ys"
proof (induction xs arbitrary: ys)
  case Nil then show ?case by (cases ys) auto
next
  case (Cons x xs) then show ?case by (cases ys) auto
qed

lemma entries_lt_lex: "entries_lt xs ys = lex_lt (pair_lt value_lt value_lt) xs ys"
proof (induction xs arbitrary: ys)
  case Nil then show ?case by (cases ys) auto
next
  case (Cons x xs) then show ?case by (cases ys) (auto simp: pair_lt_def)
qed

lemma fields_lt_lex: "fields_lt xs ys = lex_lt (pair_lt string_lt value_lt) xs ys"
proof (induction xs arbitrary: ys)
  case Nil then show ?case by (cases ys) auto
next
  case (Cons x xs) then show ?case by (cases ys) (auto simp: pair_lt_def)
qed

lemma string_lt_lex: "string_lt = lex_lt (\<lambda>c d. char_code c < char_code d)"
proof (intro ext)
  fix s t show "string_lt s t = lex_lt (\<lambda>c d. char_code c < char_code d) s t"
    by (induction s t rule: string_lt.induct) auto
qed

lemma bytearray_lt_lex: "bytearray_lt = lex_lt char_lt"
proof (intro ext)
  fix s t show "bytearray_lt s t = lex_lt char_lt s t"
    by (induction s t rule: bytearray_lt.induct) auto
qed

lemma bitset_less_lex: "bitset_less x y = lex_lt (<) (container x) (container y)"
proof -
  have "less_blocks xs ys = lex_lt (<) xs ys" for xs ys
    by (induction xs ys rule: less_blocks.induct) auto
  then show ?thesis by (simp add: bitset_less_def)
qed

lemma strict_lex_all:
  assumes "\<And>x y z. strict_at r x y z"
  shows "strict_at (lex_lt r) xs ys zs"
  by (rule strict_lex [where W = "\<lambda>_. True"]) (auto simp: strict_from_def assms)

lemma strict_string: "strict_at string_lt x y z"
  unfolding string_lt_lex by (intro strict_lex_all strict_key)

text \<open>Values without a NaN.\<close>

fun comparable :: "value_type \<Rightarrow> bool" where
  "comparable (V_float x) = (\<not> f32_nan x)"
| "comparable (V_double x) = (\<not> f64_nan x)"
| "comparable (V_list xs) = (\<forall>x \<in> set xs. comparable x)"
| "comparable (V_set xs) = (\<forall>x \<in> set xs. comparable x)"
| "comparable (V_map xs) = (\<forall>x \<in> set xs. comparable (fst x) \<and> comparable (snd x))"
| "comparable (V_struct xs) = (\<forall>x \<in> set xs. comparable (snd x))"
| "comparable _ = True"

lemma value_lt_which: "which x \<noteq> which y \<Longrightarrow> value_lt x y \<longleftrightarrow> which x < which y"
  by (simp add: value_lt.simps)

lemma strict_at_which:
  assumes "\<And>y z. which y = which x \<Longrightarrow> which z = which x \<Longrightarrow> W y \<Longrightarrow> W z \<Longrightarrow> strict_at value_lt x y z" and "W x" "W y" "W z"
  shows "strict_at value_lt x y z"
proof (cases "which y = which x"; cases "which z = which x")
  show "strict_at value_lt x y z" if "which y = which x" "which z = which x" using assms that by blast
  show "strict_at value_lt x y z" if "which y = which x" "which z \<noteq> which x"
    using assms(1) [of y y] assms(2,3) that value_lt_which [of x z] value_lt_which [of y z] value_lt_which [of z y] value_lt_which [of z x]
    unfolding strict_at_def by (metis linorder_neqE_nat not_less_iff_gr_or_eq)
  show "strict_at value_lt x y z" if "which y \<noteq> which x" "which z = which x"
    using assms(1) [of z z] assms(2,4) that value_lt_which [of x y] value_lt_which [of y z] value_lt_which [of z y] value_lt_which [of y x]
    unfolding strict_at_def by (metis linorder_neqE_nat not_less_iff_gr_or_eq)
  show "strict_at value_lt x y z" if "which y \<noteq> which x" "which z \<noteq> which x"
    using assms(1) [of x x] assms(2) that by (cases "which y = which z") (auto simp: strict_at_def value_lt_which)
qed

lemma which_cases:
  "which y = which V_control \<Longrightarrow> y = V_control"
  "which y = which (V_bool a) \<Longrightarrow> \<exists>b. y = V_bool b"
  "which y = which (V_int i) \<Longrightarrow> \<exists>b. y = V_int b"
  "which y = which (V_long l) \<Longrightarrow> \<exists>b. y = V_long b"
  "which y = which (V_uint i) \<Longrightarrow> \<exists>b. y = V_uint b"
  "which y = which (V_ulong l) \<Longrightarrow> \<exists>b. y = V_ulong b"
  "which y = which (V_float i) \<Longrightarrow> \<exists>b. y = V_float b"
  "which y = which (V_double l) \<Longrightarrow> \<exists>b. y = V_double b"
  "which y = which (V_char c) \<Longrightarrow> \<exists>b. y = V_char b"
  "which y = which (V_string s) \<Longrightarrow> \<exists>b. y = V_string b"
  "which y = which (V_bitset t) \<Longrightarrow> \<exists>b. y = V_bitset b"
  "which y = which (V_bytearray s) \<Longrightarrow> \<exists>b. y = V_bytearray b"
  "which y = which (V_list vs) \<Longrightarrow> \<exists>b. y = V_list b"
  "which y = which (V_set vs) \<Longrightarrow> \<exists>b. y = V_set b"
  "which y = which (V_map es) \<Longrightarrow> \<exists>b. y = V_map b"
  "which y = which (V_struct fs) \<Longrightarrow> \<exists>b. y = V_struct b"
  by (cases y; simp)+

lemma value_lt_list: "value_lt (V_list a) (V_list b) = lex_lt value_lt a b"
  and value_lt_set: "value_lt (V_set a) (V_set b) = lex_lt value_lt a b"
  and value_lt_map: "value_lt (V_map c) (V_map d) = lex_lt (pair_lt value_lt value_lt) c d"
  and value_lt_struct: "value_lt (V_struct e) (V_struct f) = lex_lt (pair_lt string_lt value_lt) e f"
  and value_lt_string: "value_lt (V_string s) (V_string t) = string_lt s t"
  and value_lt_bitset: "value_lt (V_bitset u) (V_bitset v) = lex_lt (<) (container u) (container v)"
  and value_lt_bytearray: "value_lt (V_bytearray s) (V_bytearray t) = lex_lt char_lt s t"
  and value_lt_float: "value_lt (V_float x) (V_float y) = f32_lt x y"
  and value_lt_double: "value_lt (V_double l) (V_double m) = f64_lt l m"
  and value_lt_char: "value_lt (V_char g) (V_char h) = char_lt g h"
  by (simp_all add: value_lt.simps values_lt_lex entries_lt_lex fields_lt_lex bitset_less_lex bytearray_lt_lex)

lemma value_lt_basic:
  "value_lt V_control V_control = False"
  "value_lt (V_bool a) (V_bool b) = (a < b)"
  "value_lt (V_int i) (V_int j) = (sint i < sint j)"
  "value_lt (V_long l) (V_long m) = (sint l < sint m)"
  "value_lt (V_uint i) (V_uint j) = (i < j)"
  "value_lt (V_ulong l) (V_ulong m) = (l < m)"
  by (simp_all add: value_lt.simps)

lemma strict_at_transfer:
  assumes "\<And>a b. r (f a) (f b) = q a b" and "strict_at q x y z"
  shows "strict_at r (f x) (f y) (f z)"
  using assms(2) unfolding strict_at_def assms(1) .

lemma strict_con:
  assumes "\<And>a b. value_lt (f a) (f b) = q a b" and "\<And>y. which y = which (f x) \<Longrightarrow> \<exists>b. y = f b"
    and "comparable (f x)" and "\<And>b c. comparable (f b) \<Longrightarrow> comparable (f c) \<Longrightarrow> strict_at q x b c"
  shows "strict_from comparable value_lt (f x)"
proof -
  have "strict_at value_lt (f x) y z"
    if "which y = which (f x)" "which z = which (f x)" "comparable y" "comparable z" for y z
  proof -
    note t = that
    obtain b where b: "y = f b" using assms(2) [OF t(1)] by blast
    obtain c where c: "z = f c" using assms(2) [OF t(2)] by blast
    show ?thesis
      unfolding b c by (rule strict_at_transfer [of value_lt f q, OF assms(1)]) (use t b c assms(4) in blast)
  qed
  then show ?thesis
    unfolding strict_from_def by (intro allI impI, rule strict_at_which [where W = comparable, OF _ assms(3)])
qed

lemma strict_f32: "\<not> f32_nan x \<Longrightarrow> \<not> f32_nan y \<Longrightarrow> \<not> f32_nan z \<Longrightarrow> strict_at f32_lt x y z"
  by (auto simp: strict_at_def f32_lt_def)

lemma strict_f64: "\<not> f64_nan x \<Longrightarrow> \<not> f64_nan y \<Longrightarrow> \<not> f64_nan z \<Longrightarrow> strict_at f64_lt x y z"
  by (auto simp: strict_at_def f64_lt_def)

lemma strict_char: "strict_at char_lt x y z"
  by (auto simp: strict_at_def char_lt_def)

lemma strict_bitset: "strict_at (\<lambda>x y. lex_lt (<) (container x) (container y)) x y z"
proof -
  have "strict_at (lex_lt (<)) (container x) (container y) (container z)"
    by (rule strict_lex_all) (auto simp: strict_at_def)
  then show ?thesis unfolding strict_at_def .
qed

lemma strict_value: "comparable x \<Longrightarrow> strict_from comparable value_lt x"
proof (induction x)
  case V_control
  then show ?case
    using strict_con [of "\<lambda>_ :: unit. V_control" "\<lambda>_ _. False" "()"] which_cases(1)
    by (auto simp: value_lt_basic strict_at_def)
next
  case (V_list xs)
  then show ?case
    by (intro strict_con [of V_list "lex_lt value_lt", OF value_lt_list which_cases(13)] strict_lex [where W = comparable]) auto
next
  case (V_set xs)
  then show ?case
    by (intro strict_con [of V_set "lex_lt value_lt", OF value_lt_set which_cases(14)] strict_lex [where W = comparable]) auto
next
  case (V_map es)
  let ?W = "\<lambda>e. comparable (fst e) \<and> comparable (snd e)"
  have "strict_from ?W (pair_lt value_lt value_lt) e" if "e \<in> set es" for e
  proof -
    have "fst e \<in> Basic_BNFs.fsts e" "snd e \<in> Basic_BNFs.snds e" by (cases e; simp add: fsts.simps snds.simps)+
    then have "strict_from comparable value_lt (fst e)" "strict_from comparable value_lt (snd e)"
      using V_map.IH [OF that] V_map.prems that by simp_all
    then show ?thesis by (simp add: strict_from_def strict_pair)
  qed
  then show ?case
    using V_map.prems by (intro strict_con [of V_map "lex_lt (pair_lt value_lt value_lt)", OF value_lt_map which_cases(15)] strict_lex [where W = ?W]) auto
next
  case (V_struct fs)
  let ?W = "\<lambda>e. comparable (snd e)"
  have "strict_from ?W (pair_lt string_lt value_lt) e" if "e \<in> set fs" for e
  proof -
    have "snd e \<in> Basic_BNFs.snds e" by (cases e; simp add: snds.simps)
    then have "strict_from comparable value_lt (snd e)" using V_struct.IH [OF that] V_struct.prems that by simp
    then show ?thesis by (simp add: strict_from_def strict_pair strict_string)
  qed
  then show ?case
    using V_struct.prems by (intro strict_con [of V_struct "lex_lt (pair_lt string_lt value_lt)", OF value_lt_struct which_cases(16)] strict_lex [where W = ?W]) auto
next
  case (V_bool b)
  then show ?case by (intro strict_con [of V_bool "(<)", OF value_lt_basic(2) which_cases(2)]) (auto simp: strict_at_def)
next
  case (V_int b)
  then show ?case by (intro strict_con [of V_int "\<lambda>a b. sint a < sint b", OF value_lt_basic(3) which_cases(3)]) (auto simp: strict_at_def)
next
  case (V_long b)
  then show ?case by (intro strict_con [of V_long "\<lambda>a b. sint a < sint b", OF value_lt_basic(4) which_cases(4)]) (auto simp: strict_at_def)
next
  case (V_uint b)
  then show ?case by (intro strict_con [of V_uint "(<)", OF value_lt_basic(5) which_cases(5)]) (auto simp: strict_at_def)
next
  case (V_ulong b)
  then show ?case by (intro strict_con [of V_ulong "(<)", OF value_lt_basic(6) which_cases(6)]) (auto simp: strict_at_def)
next
  case (V_float b)
  then show ?case by (intro strict_con [of V_float "f32_lt", OF value_lt_float which_cases(7)] strict_f32) auto
next
  case (V_double b)
  then show ?case by (intro strict_con [of V_double "f64_lt", OF value_lt_double which_cases(8)] strict_f64) auto
next
  case (V_char b)
  then show ?case by (intro strict_con [of V_char "char_lt", OF value_lt_char which_cases(9)] strict_char)
next
  case (V_string b)
  then show ?case by (intro strict_con [of V_string "string_lt", OF value_lt_string which_cases(10)] strict_string)
next
  case (V_bitset b)
  then show ?case by (intro strict_con [of V_bitset "\<lambda>x y. lex_lt (<) (container x) (container y)", OF value_lt_bitset which_cases(11)] strict_bitset)
next
  case (V_bytearray b)
  then show ?case by (intro strict_con [of V_bytearray "lex_lt char_lt", OF value_lt_bytearray which_cases(12)] strict_lex_all strict_char)
qed

section \<open>Ordered containers\<close>

fun set_insert :: "('a \<Rightarrow> 'a \<Rightarrow> bool) \<Rightarrow> 'a \<Rightarrow> 'a list \<Rightarrow> 'a list" where
  "set_insert lt x [] = [x]"
| "set_insert lt x (y # ys) =
     (if lt y x then y # set_insert lt x ys else if lt x y then x # y # ys else y # ys)"

fun set_erase :: "('a \<Rightarrow> 'a \<Rightarrow> bool) \<Rightarrow> 'a \<Rightarrow> 'a list \<Rightarrow> 'a list" where
  "set_erase lt x [] = []"
| "set_erase lt x (y # ys) =
     (if lt y x then y # set_erase lt x ys else if lt x y then y # ys else ys)"

fun set_member :: "('a \<Rightarrow> 'a \<Rightarrow> bool) \<Rightarrow> 'a \<Rightarrow> 'a list \<Rightarrow> bool" where
  "set_member lt x [] = False"
| "set_member lt x (y # ys) = (if lt y x then set_member lt x ys else \<not> lt x y)"

fun map_assign :: "('a \<Rightarrow> 'a \<Rightarrow> bool) \<Rightarrow> 'a \<Rightarrow> 'b \<Rightarrow> ('a \<times> 'b) list \<Rightarrow> ('a \<times> 'b) list" where
  "map_assign lt k v [] = [(k, v)]"
| "map_assign lt k v ((l, w) # es) =
     (if lt l k then (l, w) # map_assign lt k v es else if lt k l then (k, v) # (l, w) # es else (l, v) # es)"

fun map_erase :: "('a \<Rightarrow> 'a \<Rightarrow> bool) \<Rightarrow> 'a \<Rightarrow> ('a \<times> 'b) list \<Rightarrow> ('a \<times> 'b) list" where
  "map_erase lt k [] = []"
| "map_erase lt k ((l, w) # es) =
     (if lt l k then (l, w) # map_erase lt k es else if lt k l then (l, w) # es else es)"

fun map_find :: "('a \<Rightarrow> 'a \<Rightarrow> bool) \<Rightarrow> 'a \<Rightarrow> ('a \<times> 'b) list \<Rightarrow> 'b option" where
  "map_find lt k [] = None"
| "map_find lt k ((l, w) # es) = (if lt l k then map_find lt k es else if lt k l then None else Some w)"

text \<open>
  The contract of a comparison function of the ordered containers of the standard library, on the
  keys that satisfy \<open>good\<close>.
\<close>

locale strict_weak_order =
  fixes good :: "'a \<Rightarrow> bool" and lt :: "'a \<Rightarrow> 'a \<Rightarrow> bool"
  assumes strict: "good x \<Longrightarrow> good y \<Longrightarrow> good z \<Longrightarrow> strict_at lt x y z"
begin

definition eqv :: "'a \<Rightarrow> 'a \<Rightarrow> bool" where
  "eqv x y \<longleftrightarrow> \<not> lt x y \<and> \<not> lt y x"

definition ordered :: "'a list \<Rightarrow> bool" where
  "ordered xs \<longleftrightarrow> sorted_wrt lt xs \<and> (\<forall>x \<in> set xs. good x)"

lemma lt_irrefl: "good x \<Longrightarrow> \<not> lt x x"
  using strict [of x x x] by (simp add: strict_at_def)

lemma lt_asym: "good x \<Longrightarrow> good y \<Longrightarrow> lt x y \<Longrightarrow> \<not> lt y x"
  using strict [of x y x] unfolding strict_at_def by blast

lemma lt_trans: "good x \<Longrightarrow> good y \<Longrightarrow> good z \<Longrightarrow> lt x y \<Longrightarrow> lt y z \<Longrightarrow> lt x z"
  using strict [of x y z] unfolding strict_at_def by blast

lemma lt_eqv: "good x \<Longrightarrow> good y \<Longrightarrow> good z \<Longrightarrow> lt x y \<Longrightarrow> eqv y z \<Longrightarrow> lt x z"
  using strict [of x y z] unfolding strict_at_def eqv_def by blast

lemma eqv_lt: "good x \<Longrightarrow> good y \<Longrightarrow> good z \<Longrightarrow> eqv x y \<Longrightarrow> lt y z \<Longrightarrow> lt x z"
  using strict [of x y z] unfolding strict_at_def eqv_def by blast

lemma eqv_trans: "good x \<Longrightarrow> good y \<Longrightarrow> good z \<Longrightarrow> eqv x y \<Longrightarrow> eqv y z \<Longrightarrow> eqv x z"
  using strict [of x y z] unfolding strict_at_def eqv_def by blast

lemma eqv_sym: "eqv x y \<Longrightarrow> eqv y x"
  by (simp add: eqv_def)

lemma ordered_Cons: "ordered (x # xs) \<longleftrightarrow> good x \<and> (\<forall>y \<in> set xs. lt x y) \<and> ordered xs"
  by (auto simp: ordered_def)

lemma set_member_iff: "ordered xs \<Longrightarrow> good x \<Longrightarrow> set_member lt x xs \<longleftrightarrow> (\<exists>y \<in> set xs. eqv x y)"
proof (induction xs)
  case (Cons y ys)
  have "\<not> (\<exists>z \<in> set ys. eqv x z)" if "\<not> lt y x"
  proof
    assume "\<exists>z \<in> set ys. eqv x z"
    then obtain z where z: "z \<in> set ys" "eqv x z" by blast
    then have "good y" "good z" "lt y z" using Cons.prems(1) by (auto simp: ordered_Cons ordered_def)
    then show False using lt_eqv [of y z x] eqv_sym [OF z(2)] Cons.prems(2) that by blast
  qed
  then show ?case using Cons by (auto simp: ordered_Cons eqv_def)
qed simp

lemma set_set_insert: "set (set_insert lt x xs) \<subseteq> insert x (set xs)"
  by (induction xs) auto

lemma ordered_set_insert: "ordered xs \<Longrightarrow> good x \<Longrightarrow> ordered (set_insert lt x xs)"
proof (induction xs)
  case (Cons y ys)
  then have y: "good y" "\<forall>z \<in> set ys. lt y z" "ordered ys" by (simp_all add: ordered_Cons)
  have "lt x z" if "lt x y" "z \<in> set ys" for z
    using lt_trans [of x y z] that y Cons.prems(2) by (auto simp: ordered_def)
  then show ?case
    using Cons y set_set_insert [of x ys] by (auto simp: ordered_Cons)
qed (simp add: ordered_def)

lemma ordered_set_erase: "ordered xs \<Longrightarrow> ordered (set_erase lt x xs) \<and> set (set_erase lt x xs) \<subseteq> set xs"
  by (induction xs) (auto simp: ordered_Cons)

lemma set_insert_set:
  "ordered xs \<Longrightarrow> good x \<Longrightarrow> set (set_insert lt x xs) = (if set_member lt x xs then set xs else insert x (set xs))"
  by (induction xs) (auto simp: ordered_Cons)

lemma set_erase_set:
  "ordered xs \<Longrightarrow> good x \<Longrightarrow> set (set_erase lt x xs) = {y \<in> set xs. \<not> eqv x y}"
proof (induction xs)
  case (Cons y ys)
  have no: "\<not> eqv x z" if "\<not> lt y x" "z \<in> set ys" for z
  proof
    assume "eqv x z"
    moreover have "good y" "good z" "lt y z" using Cons.prems(1) that by (auto simp: ordered_Cons ordered_def)
    ultimately show False using lt_eqv [of y z x] eqv_sym [of x z] Cons.prems(2) that by blast
  qed
  then show ?case using Cons by (auto simp: ordered_Cons eqv_def)
qed simp

lemma member_set_insert:
  assumes "ordered xs" "good x" "good y"
  shows "set_member lt y (set_insert lt x xs) \<longleftrightarrow> eqv y x \<or> set_member lt y xs"
proof -
  have g: "z \<in> set xs \<Longrightarrow> good z" for z using assms(1) by (auto simp: ordered_def)
  have "eqv y x \<Longrightarrow> set_member lt x xs \<Longrightarrow> \<exists>z \<in> set xs. eqv y z"
    using set_member_iff [OF assms(1,2)] eqv_trans [of y x] assms g by blast
  then show ?thesis
    using assms by (auto simp: set_member_iff [OF ordered_set_insert [OF assms(1,2)] assms(3)]
      set_member_iff [OF assms(1,3)] set_insert_set [OF assms(1,2)])
qed

lemma member_set_erase:
  assumes "ordered xs" "good x" "good y"
  shows "set_member lt y (set_erase lt x xs) \<longleftrightarrow> \<not> eqv y x \<and> set_member lt y xs"
proof -
  have g: "z \<in> set xs \<Longrightarrow> good z" for z using assms(1) by (auto simp: ordered_def)
  have "eqv y z \<Longrightarrow> z \<in> set xs \<Longrightarrow> eqv x z \<longleftrightarrow> eqv y x" for z
    using eqv_trans [of x z y] eqv_trans [of x y z] eqv_sym assms(2,3) g by blast
  then show ?thesis
    using ordered_set_erase [OF assms(1), of x]
    by (auto simp: set_member_iff [OF conjunct1 [OF ordered_set_erase [OF assms(1)]] assms(3)]
      set_member_iff [OF assms(1,3)] set_erase_set [OF assms(1,2)])
qed

lemma keys_map_assign: "map fst (map_assign lt k v m) = set_insert lt k (map fst m)"
  by (induction m) auto

lemma keys_map_erase: "map fst (map_erase lt k m) = set_erase lt k (map fst m)"
  by (induction m) auto

lemma map_find_below: "ordered (k # map fst m) \<Longrightarrow> good l \<Longrightarrow> \<not> lt k l \<Longrightarrow> map_find lt l m = None"
proof (cases m)
  case (Cons e es)
  assume h: "ordered (k # map fst m)" "good l" "\<not> lt k l"
  then have e: "good k" "good (fst e)" "lt k (fst e)" using Cons by (auto simp: ordered_Cons)
  have "lt l (fst e)"
    using e h eqv_lt [of l k "fst e"] lt_trans [of l k "fst e"] unfolding eqv_def by blast
  then have "\<not> lt (fst e) l" using lt_asym e h by blast
  then show ?thesis using \<open>lt l (fst e)\<close> Cons by (cases e) simp
qed simp

lemma lt_not_eqv: "lt x y \<Longrightarrow> \<not> eqv x y" "lt x y \<Longrightarrow> \<not> eqv y x"
  by (simp_all add: eqv_def)

lemma order_cases:
  assumes "good x" "good y"
  obtains "lt x y" "\<not> lt y x" | "lt y x" "\<not> lt x y" | "eqv x y" "\<not> lt x y" "\<not> lt y x"
  using lt_asym [OF assms] by (auto simp: eqv_def)

lemma find_map_assign:
  assumes "ordered (map fst m)" "good k" "good l"
  shows "map_find lt l (map_assign lt k v m) = (if eqv l k then Some v else map_find lt l m)"
  using assms
proof (induction m)
  case (Cons e m)
  obtain a w where e: "e = (a, w)" by (cases e)
  have a: "good a" "ordered (map fst m)" using Cons e by (simp_all add: ordered_Cons)
  note g = a(1) Cons.prems(2,3)
  have IH: "map_find lt l (map_assign lt k v m) = (if eqv l k then Some v else map_find lt l m)" using Cons a by blast
  show ?case
  proof (rule order_cases [OF g(1,2)])
    assume ak: "lt a k" "\<not> lt k a"
    show ?thesis
    proof (rule order_cases [OF g(1,3)])
      assume "lt a l"
      then show ?thesis using IH ak by (simp add: e)
    next
      assume "lt l a" "\<not> lt a l"
      moreover from this have "\<not> eqv l k" using lt_trans [of l a k] ak g lt_not_eqv by blast
      ultimately show ?thesis using ak by (simp add: e)
    next
      assume "eqv a l" "\<not> lt a l" "\<not> lt l a"
      moreover from this have "\<not> eqv l k" using eqv_lt [of l a k] eqv_sym ak g lt_not_eqv by blast
      ultimately show ?thesis using ak by (simp add: e)
    qed
  next
    assume ka: "lt k a" "\<not> lt a k"
    show ?thesis
    proof (rule order_cases [OF g(2,3)])
      assume "lt k l"
      then show ?thesis using ka lt_not_eqv by (simp add: e)
    next
      assume "lt l k" "\<not> lt k l"
      moreover from this have "lt l a" "\<not> lt a l" using lt_trans [of l k a] lt_asym [of l a] ka g by blast+
      ultimately show ?thesis using ka lt_not_eqv by (simp add: e)
    next
      assume "eqv k l" "\<not> lt k l" "\<not> lt l k"
      then show ?thesis using ka eqv_sym by (simp add: e)
    qed
  next
    assume eq: "eqv a k" "\<not> lt a k" "\<not> lt k a"
    show ?thesis
    proof (rule order_cases [OF g(1,3)])
      assume "lt a l"
      moreover from this have "\<not> eqv l k" using eqv_lt [of k a l] eqv_sym eq g lt_not_eqv by blast
      ultimately show ?thesis using eq by (simp add: e)
    next
      assume "lt l a" "\<not> lt a l"
      moreover from this have "\<not> eqv l k" using lt_eqv [of l a k] eq g lt_not_eqv by blast
      ultimately show ?thesis using eq by (simp add: e)
    next
      assume "eqv a l" "\<not> lt a l" "\<not> lt l a"
      moreover from this have "eqv l k" using eqv_trans [of l a k] eqv_sym eq g by blast
      ultimately show ?thesis using eq by (simp add: e)
    qed
  qed
qed (auto simp: eqv_def)

lemma find_map_erase:
  assumes "ordered (map fst m)" "good k" "good l"
  shows "map_find lt l (map_erase lt k m) = (if eqv l k then None else map_find lt l m)"
  using assms
proof (induction m)
  case (Cons e m)
  obtain a w where e: "e = (a, w)" by (cases e)
  have a: "good a" "ordered (map fst m)" "ordered (a # map fst m)" using Cons e by (simp_all add: ordered_Cons)
  note g = a(1) Cons.prems(2,3)
  have IH: "map_find lt l (map_erase lt k m) = (if eqv l k then None else map_find lt l m)" using Cons a by blast
  have below: "map_find lt l m = None" if "\<not> lt a l" by (rule map_find_below [OF a(3) g(3) that])
  show ?case
  proof (rule order_cases [OF g(1,2)])
    assume ak: "lt a k" "\<not> lt k a"
    show ?thesis
    proof (rule order_cases [OF g(1,3)])
      assume "lt a l"
      then show ?thesis using IH ak by (simp add: e)
    next
      assume "lt l a" "\<not> lt a l"
      then show ?thesis using ak by (simp add: e)
    next
      assume "eqv a l" "\<not> lt a l" "\<not> lt l a"
      moreover from this have "\<not> eqv l k" using eqv_lt [of l a k] eqv_sym ak g lt_not_eqv by blast
      ultimately show ?thesis using ak by (simp add: e)
    qed
  next
    assume ka: "lt k a" "\<not> lt a k"
    have "lt l a" "\<not> lt a l" if "eqv l k" using eqv_lt [of l k a] lt_asym [of l a] that ka g by blast+
    then show ?thesis using ka by (simp add: e)
  next
    assume eq: "eqv a k" "\<not> lt a k" "\<not> lt k a"
    show ?thesis
    proof (rule order_cases [OF g(1,3)])
      assume "lt a l"
      moreover from this have "\<not> eqv l k" using eqv_lt [of k a l] eqv_sym eq g lt_not_eqv by blast
      ultimately show ?thesis using eq by (simp add: e)
    next
      assume "lt l a" "\<not> lt a l"
      then show ?thesis using eq below by (simp add: e)
    next
      assume al: "eqv a l" "\<not> lt a l" "\<not> lt l a"
      then have "eqv l k" using eqv_trans [of l a k] eqv_sym eq g by blast
      then show ?thesis using eq below al by (simp add: e)
    qed
  qed
qed simp

end

interpretation vo: strict_weak_order comparable value_lt
  by unfold_locales (use strict_value in \<open>auto simp: strict_from_def\<close>)

section \<open>Paths\<close>

fun split_at :: "char \<Rightarrow> string \<Rightarrow> string \<Rightarrow> string list" where
  "split_at s key [] = (if key \<noteq> [] then [key] else [])"
| "split_at s key (c # cs) = (if c = s then key # split_at s [] cs else split_at s (key @ [c]) cs)"

definition split :: "string \<Rightarrow> string list" where
  "split path = split_at (CHR ''.'') [] path"

fun join_with :: "string \<Rightarrow> string list \<Rightarrow> string" where
  "join_with s [] = []"
| "join_with s [x] = x"
| "join_with s (x # xs) = x @ s @ join_with s xs"

definition join :: "string list \<Rightarrow> string" where
  "join path = join_with ''.'' path"

section \<open>Peek, poke and positions\<close>

primrec peek :: "string list \<Rightarrow> value_type \<Rightarrow> value_type option" where
  "peek [] node = Some node"
| "peek (key # keys) node =
     (case node of
        V_struct m \<Rightarrow> (case map_of m key of Some v \<Rightarrow> peek keys v | None \<Rightarrow> None)
      | _ \<Rightarrow> None)"

fun deeper :: "string \<Rightarrow> (value_type \<Rightarrow> value_type) \<Rightarrow> structured_type \<Rightarrow> structured_type" where
  "deeper key f [] = [(key, f V_control)]"
| "deeper key f ((k, v) # m) = (if k = key then (k, f v) # m else (k, v) # deeper key f m)"

primrec poke :: "string list \<Rightarrow> value_type \<Rightarrow> value_type \<Rightarrow> value_type" where
  "poke [] node x = x"
| "poke (key # keys) node x =
     V_struct (deeper key (\<lambda>v. poke keys v x) (case node of V_struct m \<Rightarrow> m | _ \<Rightarrow> []))"

fun positions_at :: "string list \<Rightarrow> value_type \<Rightarrow> (string list \<times> value_type) list" where
  "positions_at path (V_struct s) = concat (map (\<lambda>kv. positions_at (path @ [fst kv]) (snd kv)) s)"
| "positions_at path x = [(path, x)]"

definition positions :: "value_type \<Rightarrow> (string list \<times> value_type) list" where
  "positions v = positions_at [] v"

lemma peek_path_append: "peek (p @ q) v = Option.bind (peek p v) (peek q)"
  by (induction p arbitrary: v) (auto split: value_type.splits option.splits)

lemma map_of_deeper:
  "map_of (deeper key f m) k = (if k = key then Some (f (case map_of m key of Some v \<Rightarrow> v | None \<Rightarrow> V_control)) else map_of m k)"
  by (induction key f m rule: deeper.induct) auto

lemma peek_poke_same: "peek p (poke p v x) = Some x"
  by (induction p arbitrary: v) (simp_all add: map_of_deeper)

lemma peek_poke_other:
  "peek q v = Some w \<Longrightarrow> \<not> prefix p q \<Longrightarrow> \<not> prefix q p \<Longrightarrow> peek q (poke p v x) = Some w"
proof (induction p arbitrary: q v)
  case (Cons k p)
  then obtain l q' where q: "q = l # q'" by (cases q) auto
  obtain m u where v: "v = V_struct m" "map_of m l = Some u" "peek q' u = Some w"
    using Cons.prems(1) by (auto simp: q split: value_type.splits option.splits)
  show ?case
  proof (cases "k = l")
    case True
    then have "peek q' (poke p u x) = Some w" using Cons v q by auto
    then show ?thesis using v q True by (simp add: map_of_deeper)
  next
    case False
    then show ?thesis using v q by (simp add: map_of_deeper)
  qed
qed simp

text \<open>Poking creates nothing besides the poked position.\<close>

lemma peek_poke_new:
  "\<not> prefix p q \<Longrightarrow> \<not> prefix q p \<Longrightarrow> peek q v = None \<Longrightarrow> peek q (poke p v x) = None"
proof (induction p arbitrary: q v)
  case (Cons k p)
  then obtain l q' where q: "q = l # q'" by (cases q) auto
  let ?m = "case v of V_struct m \<Rightarrow> m | _ \<Rightarrow> []"
  have none: "map_of ?m l = Some u \<Longrightarrow> peek q' u = None" for u
    using Cons.prems(3) by (auto simp: q split: value_type.splits option.splits)
  have "peek q' (poke p (case map_of ?m k of Some v \<Rightarrow> v | None \<Rightarrow> V_control) x) = None" if "k = l"
  proof -
    have "\<not> prefix p q'" "\<not> prefix q' p" using Cons.prems(1,2) q that by auto
    moreover have "peek q' (case map_of ?m k of Some v \<Rightarrow> v | None \<Rightarrow> V_control) = None"
    proof (cases "map_of ?m k")
      case None
      have "q' \<noteq> []" using \<open>\<not> prefix q' p\<close> by auto
      then show ?thesis using None by (cases q') auto
    qed (use none that in auto)
    ultimately show ?thesis using Cons.IH by blast
  qed
  then show ?case using none by (auto simp: q map_of_deeper split: option.splits)
qed simp

section \<open>Names and signatures\<close>

fun name_of :: "value_type \<Rightarrow> string" where
  "name_of V_control = ''control''"
| "name_of (V_bool _) = ''bool''"
| "name_of (V_int _) = ''int''"
| "name_of (V_long _) = ''long''"
| "name_of (V_uint _) = ''unsigned int''"
| "name_of (V_ulong _) = ''unsigned long''"
| "name_of (V_float _) = ''float''"
| "name_of (V_double _) = ''double''"
| "name_of (V_char _) = ''char''"
| "name_of (V_string _) = ''string''"
| "name_of (V_bitset _) = ''bitset''"
| "name_of (V_bytearray _) = ''bytearray''"
| "name_of (V_list _) = ''list''"
| "name_of (V_set _) = ''set''"
| "name_of (V_map _) = ''map''"
| "name_of (V_struct _) = ''struct''"

definition type_names :: "string list" where
  "type_names = [''control'', ''bool'', ''int'', ''long'', ''unsigned int'', ''unsigned long'', ''float'',
     ''double'', ''char'', ''string'', ''bitset'', ''bytearray'', ''list'', ''set'', ''map'', ''struct'']"

datatype field_type = Field string string | StructField string "field_type list"

datatype signature_type = Sig_name string | Sig_struct string "field_type list"

fun field_name :: "field_type \<Rightarrow> string" where
  "field_name (Field n _) = n"
| "field_name (StructField n _) = n"

fun field_signature :: "field_type \<Rightarrow> signature_type" where
  "field_signature (Field _ t) = Sig_name t"
| "field_signature (StructField n fs) = Sig_struct n fs"

datatype type_error =
    unknown_field value_type "string list"
  | missing_field signature_type value_type "string list"
  | type_mismatch signature_type value_type "string list"

function (sequential) require_type :: "string list \<Rightarrow> value_type \<Rightarrow> signature_type \<Rightarrow> type_error + unit"
  and require_structured :: "string list \<Rightarrow> structured_type \<Rightarrow> signature_type \<Rightarrow> structured_type \<Rightarrow> field_type list \<Rightarrow> type_error + unit"
where
  "require_type path (V_struct v) (Sig_struct n s) = require_structured path v (Sig_struct n s) v s"
| "require_type path v s =
     (case s of
        Sig_struct _ _ \<Rightarrow> Inl (type_mismatch s v path)
      | Sig_name t \<Rightarrow>
          (case v of
             V_struct _ \<Rightarrow> Inl (type_mismatch s v path)
           | _ \<Rightarrow> if name_of v \<noteq> t then Inl (type_mismatch s v path) else Inr ()))"
| "require_structured path whole sig ((k, v) # vs) (s # ss) =
     (if k = field_name s
      then and_then (require_type (path @ [k]) v (field_signature s)) (\<lambda>_.
           require_structured path whole sig vs ss)
      else Inl (unknown_field v (path @ [k])))"
| "require_structured path whole sig ((k, v) # vs) [] = Inl (unknown_field v (path @ [k]))"
| "require_structured path whole sig [] (s # ss) = Inl (missing_field sig (V_struct whole) (path @ [field_name s]))"
| "require_structured path whole sig [] [] = Inr ()"
  by pat_completeness auto
termination
  by (relation "measure (\<lambda>q. case q of Inl (_, v, _) \<Rightarrow> 2 * size v
        | Inr (_, _, _, vs, _) \<Rightarrow> 2 * size_list (size_prod (\<lambda>_. 0) size) vs + 1)") auto

fun signature_field :: "string \<Rightarrow> value_type \<Rightarrow> field_type" where
  "signature_field name (V_struct v) = StructField name (map (\<lambda>f. signature_field (fst f) (snd f)) v)"
| "signature_field name x = Field name (name_of x)"

definition signature_of :: "value_type \<Rightarrow> signature_type" where
  "signature_of value =
     (case value of
        V_struct v \<Rightarrow> Sig_struct ''struct'' (map (\<lambda>f. signature_field (fst f) (snd f)) v)
      | _ \<Rightarrow> Sig_name (name_of value))"

definition field :: "string \<Rightarrow> value_type \<Rightarrow> signature_type \<Rightarrow> type_error + value_type" where
  "field f v signature =
     (case peek (split f) v of
        None \<Rightarrow> Inl (missing_field signature v [f])
      | Some x \<Rightarrow> Inr x)"

fun same_signature :: "signature_type \<Rightarrow> signature_type \<Rightarrow> bool" where
  "same_signature (Sig_name t) (Sig_name u) = (t = u)"
| "same_signature (Sig_struct _ fs) (Sig_struct _ gs) = (fs = gs)"
| "same_signature _ _ = False"

lemma signature_field_iff:
  "signature_field k v = s \<longleftrightarrow> field_name s = k \<and> same_signature (field_signature s) (signature_of v)"
  by (cases v; cases s) (auto simp: signature_of_def)

lemma require_type_iff:
  "require_type path v s = Inr () \<longleftrightarrow> same_signature s (signature_of v)"
  "require_structured path whole sig vs ss = Inr () \<longleftrightarrow> ss = map (\<lambda>f. signature_field (fst f) (snd f)) vs"
proof (induction path v s and path whole sig vs ss rule: require_type_require_structured.induct)
  case (3 path whole sig k v vs s ss)
  show ?case
    using 3 signature_field_iff [of k v s] by (cases "require_type (path @ [k]) v (field_signature s)") auto
qed (auto simp: signature_of_def split: signature_type.splits value_type.splits)

fun distinct_fields :: "value_type \<Rightarrow> bool" where
  "distinct_fields (V_struct s) = (distinct (map fst s) \<and> (\<forall>kv \<in> set s. distinct_fields (snd kv)))"
| "distinct_fields _ = True"

fun is_struct :: "value_type \<Rightarrow> bool" where
  "is_struct (V_struct _) = True"
| "is_struct _ = False"

lemma peek_leaf: "\<not> is_struct v \<Longrightarrow> peek p v = (if p = [] then Some v else None)"
  by (cases p; cases v) auto

lemma positions_at_iff:
  "distinct_fields v \<Longrightarrow> (q, x) \<in> set (positions_at path v) \<longleftrightarrow>
     (\<exists>p. q = path @ p \<and> peek p v = Some x \<and> \<not> is_struct x)"
proof (induction path v arbitrary: q rule: positions_at.induct)
  case (1 path s)
  have d: "distinct (map fst s)" "\<And>kv. kv \<in> set s \<Longrightarrow> distinct_fields (snd kv)" using 1(2) by auto
  have "(q, x) \<in> set (positions_at path (V_struct s)) \<longleftrightarrow>
      (\<exists>kv \<in> set s. \<exists>p. q = path @ fst kv # p \<and> peek p (snd kv) = Some x \<and> \<not> is_struct x)"
    using 1(1) d(2) by fastforce
  also have "\<dots> \<longleftrightarrow> (\<exists>k v p. map_of s k = Some v \<and> q = path @ k # p \<and> peek p v = Some x \<and> \<not> is_struct x)"
    using map_of_eq_Some_iff [OF d(1)] by force
  also have "\<dots> \<longleftrightarrow> (\<exists>p. q = path @ p \<and> peek p (V_struct s) = Some x \<and> \<not> is_struct x)"
  proof
    assume "\<exists>p. q = path @ p \<and> peek p (V_struct s) = Some x \<and> \<not> is_struct x"
    then obtain p where p: "q = path @ p" "peek p (V_struct s) = Some x" "\<not> is_struct x" by blast
    then show "\<exists>k v p. map_of s k = Some v \<and> q = path @ k # p \<and> peek p v = Some x \<and> \<not> is_struct x"
      by (cases p) (auto split: option.splits)
  qed fastforce
  finally show ?case .
qed (auto simp: peek_leaf split: if_splits)

lemma split_at_append:
  assumes "CHR ''.'' \<notin> set k"
  shows "split_at (CHR ''.'') key (k @ rest) = split_at (CHR ''.'') (key @ k) rest"
  using assms by (induction k arbitrary: key) auto

lemma split_join:
  "\<forall>k \<in> set p. CHR ''.'' \<notin> set k \<Longrightarrow> p = [] \<or> last p \<noteq> [] \<Longrightarrow> split (join p) = p"
  unfolding split_def join_def
proof (induction "''.''" p rule: join_with.induct)
  case (2 x)
  then show ?case using split_at_append [of x "[]" "[]"] by auto
next
  case (3 x v va)
  have "split_at CHR ''.'' [] (x @ ''.'' @ join_with ''.'' (v # va)) = split_at CHR ''.'' x (''.'' @ join_with ''.'' (v # va))"
    using split_at_append [of x "[]"] 3(2) by auto
  then show ?case using 3 by (auto split: if_splits)
qed simp

section \<open>Properties\<close>

text \<open>
  C19: On values that contain no NaN the order used for sets and map keys is a strict weak order: it
  is irreflexive, asymmetric and transitive, and so is being incomparable.
\<close>

theorem value_order:
  assumes "comparable x" and "comparable y" and "comparable z"
  shows "\<not> value_lt x x \<and> (value_lt x y \<longrightarrow> \<not> value_lt y x) \<and> (value_lt x y \<longrightarrow> value_lt y z \<longrightarrow> value_lt x z) \<and>
    (\<not> value_lt x y \<and> \<not> value_lt y x \<longrightarrow> \<not> value_lt y z \<and> \<not> value_lt z y \<longrightarrow> \<not> value_lt x z \<and> \<not> value_lt z x)"
  using vo.strict [OF assms] unfolding strict_at_def by blast

theorem value_order_witness:
  "\<not> value_lt (V_list [V_int 1]) (V_list [V_int 1]) \<and> value_lt (V_list [V_int (- 1)]) (V_list [V_int 1]) \<and>
   \<not> value_lt (V_list [V_int 1]) (V_list [V_int (- 1)])"
  using value_order [of "V_list [V_int (- 1)]" "V_list [V_int 1]" "V_list [V_int 1]"]
  by (simp add: value_lt_list value_lt_basic)






text \<open>
  C23: If no structure has two fields of the same name, the positions of a value are exactly the
  paths to its leaves, each with the leaf that peeking finds there.
\<close>

theorem positions_leaves:
  assumes "distinct_fields v"
  shows "(p, x) \<in> set (positions v) \<longleftrightarrow> peek p v = Some x \<and> \<not> is_struct x"
  using positions_at_iff [OF assms, of p x "[]"] by (simp add: positions_def)

theorem positions_leaves_witness:
  "positions (V_struct [(''a'', V_struct [(''b'', V_int 1)]), (''c'', V_bool True)]) =
     [([''a'', ''b''], V_int 1), ([''c''], V_bool True)] \<and>
   peek [''a'', ''b''] (V_struct [(''a'', V_struct [(''b'', V_int 1)]), (''c'', V_bool True)]) = Some (V_int 1)"
  using positions_leaves [of "V_struct [(''a'', V_struct [(''b'', V_int 1)]), (''c'', V_bool True)]" "[''a'', ''b'']" "V_int 1"]
  by (simp add: positions_def)



end
