(* ===== verification/Token.thy ===== *)
theory Token
  imports Prelude
begin

text \<open>
  The tokens of expressions: \<^verbatim>\<open>src/we/expr/token/type.hpp\<close> with the printed form of \<^verbatim>\<open>type.cpp\<close>, the
  classification of \<^verbatim>\<open>prop.cpp\<close>, the precedence of \<^verbatim>\<open>prec.cpp\<close> and the associativity of \<^verbatim>\<open>assoc.cpp\<close>.
\<close>

datatype token =
    t_or_boolean | t_or_integral | t_and_boolean | t_and_integral | t_not | t_lt | t_le | t_gt
    | t_ge | t_ne | t_eq | t_add | t_sub | t_mul | t_div | t_divint | t_modint | t_pow
    | t_powint | t_neg | t_min | t_max | t_abs | t_floor | t_ceil | t_round | t_sin | t_cos
    | t_sqrt | t_log | t_toint | t_tolong | t_touint | t_toulong | t_tofloat | t_todouble
    | t_bitset_insert | t_bitset_delete | t_bitset_is_element | t_bitset_or | t_bitset_and
    | t_bitset_xor | t_bitset_count | t_bitset_tohex | t_bitset_fromhex | t_stack_empty
    | t_stack_top | t_stack_push | t_stack_pop | t_stack_size | t_stack_join | t_map_assign
    | t_map_unassign | t_map_is_assigned | t_map_get_assignment | t_map_size | t_map_empty
    | t_set_insert | t_set_erase | t_set_is_element | t_set_pop | t_set_top | t_set_empty
    | t_set_size | t_set_is_subset | t_sep | t_lpr | t_rpr | t_val | t_ref | t_define | t_eof

primrec token_code :: "token \<Rightarrow> nat" where
  "token_code t_or_boolean = 0"
| "token_code t_or_integral = 1"
| "token_code t_and_boolean = 2"
| "token_code t_and_integral = 3"
| "token_code t_not = 4"
| "token_code t_lt = 5"
| "token_code t_le = 6"
| "token_code t_gt = 7"
| "token_code t_ge = 8"
| "token_code t_ne = 9"
| "token_code t_eq = 10"
| "token_code t_add = 11"
| "token_code t_sub = 12"
| "token_code t_mul = 13"
| "token_code t_div = 14"
| "token_code t_divint = 15"
| "token_code t_modint = 16"
| "token_code t_pow = 17"
| "token_code t_powint = 18"
| "token_code t_neg = 19"
| "token_code t_min = 20"
| "token_code t_max = 21"
| "token_code t_abs = 22"
| "token_code t_floor = 23"
| "token_code t_ceil = 24"
| "token_code t_round = 25"
| "token_code t_sin = 26"
| "token_code t_cos = 27"
| "token_code t_sqrt = 28"
| "token_code t_log = 29"
| "token_code t_toint = 30"
| "token_code t_tolong = 31"
| "token_code t_touint = 32"
| "token_code t_toulong = 33"
| "token_code t_tofloat = 34"
| "token_code t_todouble = 35"
| "token_code t_bitset_insert = 36"
| "token_code t_bitset_delete = 37"
| "token_code t_bitset_is_element = 38"
| "token_code t_bitset_or = 39"
| "token_code t_bitset_and = 40"
| "token_code t_bitset_xor = 41"
| "token_code t_bitset_count = 42"
| "token_code t_bitset_tohex = 43"
| "token_code t_bitset_fromhex = 44"
| "token_code t_stack_empty = 45"
| "token_code t_stack_top = 46"
| "token_code t_stack_push = 47"
| "token_code t_stack_pop = 48"
| "token_code t_stack_size = 49"
| "token_code t_stack_join = 50"
| "token_code t_map_assign = 51"
| "token_code t_map_unassign = 52"
| "token_code t_map_is_assigned = 53"
| "token_code t_map_get_assignment = 54"
| "token_code t_map_size = 55"
| "token_code t_map_empty = 56"
| "token_code t_set_insert = 57"
| "token_code t_set_erase = 58"
| "token_code t_set_is_element = 59"
| "token_code t_set_pop = 60"
| "token_code t_set_top = 61"
| "token_code t_set_empty = 62"
| "token_code t_set_size = 63"
| "token_code t_set_is_subset = 64"
| "token_code t_sep = 65"
| "token_code t_lpr = 66"
| "token_code t_rpr = 67"
| "token_code t_val = 68"
| "token_code t_ref = 69"
| "token_code t_define = 70"
| "token_code t_eof = 71"

primrec token_show :: "token \<Rightarrow> string" where
  "token_show t_or_boolean = '' || ''"
| "token_show t_or_integral = '' | ''"
| "token_show t_and_boolean = '' && ''"
| "token_show t_and_integral = '' & ''"
| "token_show t_not = ''!''"
| "token_show t_lt = '' < ''"
| "token_show t_le = '' <= ''"
| "token_show t_gt = '' > ''"
| "token_show t_ge = '' >= ''"
| "token_show t_ne = '' != ''"
| "token_show t_eq = '' == ''"
| "token_show t_add = '' + ''"
| "token_show t_sub = '' - ''"
| "token_show t_mul = '' * ''"
| "token_show t_div = '' / ''"
| "token_show t_divint = '' div ''"
| "token_show t_modint = '' mod ''"
| "token_show t_pow = ''**''"
| "token_show t_powint = ''^''"
| "token_show t_neg = ''-''"
| "token_show t_min = ''min''"
| "token_show t_max = ''max''"
| "token_show t_abs = ''abs''"
| "token_show t_floor = ''floor''"
| "token_show t_ceil = ''ceil''"
| "token_show t_round = ''round''"
| "token_show t_sin = ''sin''"
| "token_show t_cos = ''cos''"
| "token_show t_sqrt = ''sqrt''"
| "token_show t_log = ''log''"
| "token_show t_toint = ''int''"
| "token_show t_tolong = ''long''"
| "token_show t_touint = ''uint''"
| "token_show t_toulong = ''ulong''"
| "token_show t_tofloat = ''float''"
| "token_show t_todouble = ''double''"
| "token_show t_bitset_insert = ''bitset_insert''"
| "token_show t_bitset_delete = ''bitset_delete''"
| "token_show t_bitset_is_element = ''bitset_is_element''"
| "token_show t_bitset_or = ''bitset_or''"
| "token_show t_bitset_and = ''bitset_and''"
| "token_show t_bitset_xor = ''bitset_xor''"
| "token_show t_bitset_count = ''bitset_count''"
| "token_show t_bitset_tohex = ''bitset_tohex''"
| "token_show t_bitset_fromhex = ''bitset_fromhex''"
| "token_show t_stack_empty = ''stack_empty''"
| "token_show t_stack_top = ''stack_top''"
| "token_show t_stack_push = ''stack_push''"
| "token_show t_stack_pop = ''stack_pop''"
| "token_show t_stack_size = ''stack_size''"
| "token_show t_stack_join = ''stack_join''"
| "token_show t_map_assign = ''map_assign''"
| "token_show t_map_unassign = ''map_unassign''"
| "token_show t_map_is_assigned = ''map_is_assigned''"
| "token_show t_map_get_assignment = ''map_get_assignment''"
| "token_show t_map_size = ''map_size''"
| "token_show t_map_empty = ''map_empty''"
| "token_show t_set_insert = ''set_insert''"
| "token_show t_set_erase = ''set_erase''"
| "token_show t_set_is_element = ''set_is_element''"
| "token_show t_set_pop = ''set_pop''"
| "token_show t_set_top = ''set_top''"
| "token_show t_set_empty = ''set_empty''"
| "token_show t_set_size = ''set_size''"
| "token_show t_set_is_subset = ''set_is_subset''"
| "token_show t_sep = '', ''"
| "token_show t_lpr = ''(''"
| "token_show t_rpr = '')''"
| "token_show t_val = ''<val>''"
| "token_show t_ref = ''<ref>''"
| "token_show t_define = '' := ''"
| "token_show t_eof = ''<eof>''"

definition is_builtin :: "token \<Rightarrow> bool" where
  "is_builtin t \<longleftrightarrow> token_code t_neg < token_code t \<and> token_code t < token_code t_sep"

definition is_prefix :: "token \<Rightarrow> bool" where
  "is_prefix t \<longleftrightarrow> t \<in> {t_min, t_max, t_floor, t_ceil, t_round, t_sin, t_cos, t_bitset_insert, t_bitset_delete,
     t_bitset_is_element, t_bitset_tohex, t_bitset_fromhex, t_bitset_or, t_bitset_and, t_bitset_xor,
     t_bitset_count, t_stack_top, t_stack_push, t_stack_pop, t_stack_join, t_map_assign, t_map_unassign,
     t_map_is_assigned, t_map_get_assignment, t_set_insert, t_set_erase, t_set_is_element,
     t_set_is_subset, t_abs}"

definition next_can_be_unary :: "token \<Rightarrow> bool" where
  "next_can_be_unary t \<longleftrightarrow> t \<notin> {t_val, t_rpr, t_ref}"

definition is_define :: "token \<Rightarrow> bool" where
  "is_define t \<longleftrightarrow> t = t_define"

definition is_or_boolean :: "token \<Rightarrow> bool" where
  "is_or_boolean t \<longleftrightarrow> t = t_or_boolean"

definition is_and_boolean :: "token \<Rightarrow> bool" where
  "is_and_boolean t \<longleftrightarrow> t = t_and_boolean"

datatype assoc = left | right

definition associativity :: "token \<Rightarrow> assoc" where
  "associativity t = (if t \<in> {t_not, t_pow, t_powint, t_neg, t_define} then right else left)"

text \<open>\<^verbatim>\<open>prec\<close> throws on every token that is not an operator.\<close>

definition prec :: "token \<Rightarrow> int option" where
  "prec t =
     (if t \<in> {t_or_boolean, t_or_integral} then Some 0
      else if t \<in> {t_and_boolean, t_and_integral} then Some 1
      else if t = t_not then Some 30
      else if t \<in> {t_lt, t_le, t_gt, t_ge, t_ne, t_eq} then Some 10
      else if t \<in> {t_add, t_sub} then Some 21
      else if t \<in> {t_mul, t_divint, t_div} then Some 22
      else if t = t_modint then Some 23
      else if t \<in> {t_pow, t_powint} then Some 24
      else if t = t_neg then Some 25
      else if t = t_define then Some (- 98)
      else None)"

end
