(* ===== verification/Function.thy ===== *)
theory Function
  imports Value Token
begin

text \<open>
  The operators of the expression language on values, \<^verbatim>\<open>src/we/type/value/function.cpp\<close>.
  \<^verbatim>\<open>visitor_unary\<close> and \<^verbatim>\<open>visitor_binary\<close> dispatch on the types of their operands; each overload is a
  definition here, a switch over the token is a chain of conditionals in the order of its cases, and the two
  entry points are \<open>unary\<close> and \<open>binary\<close>.

  Integers are words of the width of their C++ type on a 64 bit platform. Arithmetic on unsigned types wraps.
  Where the arithmetic on signed types leaves the range of the type the behaviour of the program is undefined,
  and so it is where \<^verbatim>\<open>back\<close>, \<^verbatim>\<open>pop_back\<close> or \<^verbatim>\<open>begin\<close> meet an empty container and where a floating
  point number is converted to an integer type that does not contain its integral part: the model returns the
  error \<open>undefined_behaviour\<close> on exactly these inputs. Conversions between integer types of different
  width keep the low bits.

  Floating point numbers are their IEEE bit patterns. Comparisons, negation and absolute value are defined on
  the patterns (theory \<open>Value\<close>); rounding arithmetic, the mathematical library and the conversions are
  fields of the record \<open>fp_ops\<close>, a parameter of the operators.
\<close>

section \<open>Parameters and errors\<close>

datatype fp_unary = fp_sin | fp_cos | fp_sqrt | fp_log | fp_floor | fp_ceil | fp_round
datatype fp_binary = fp_add | fp_sub | fp_mul | fp_div | fp_pow

record fp_ops =
  fp32_un :: "fp_unary \<Rightarrow> u32 \<Rightarrow> u32"
  fp64_un :: "fp_unary \<Rightarrow> u64 \<Rightarrow> u64"
  fp32_bin :: "fp_binary \<Rightarrow> u32 \<Rightarrow> u32 \<Rightarrow> u32"
  fp64_bin :: "fp_binary \<Rightarrow> u64 \<Rightarrow> u64 \<Rightarrow> u64"
  fp32_trunc :: "u32 \<Rightarrow> int option"
  fp64_trunc :: "u64 \<Rightarrow> int option"
  fp32_of_int :: "int \<Rightarrow> u32"
  fp64_of_int :: "int \<Rightarrow> u64"
  fp64_of_fp32 :: "u32 \<Rightarrow> u64"
  fp32_of_fp64 :: "u64 \<Rightarrow> u32"

datatype eval_error =
    eval_unary token value_type
  | eval_binary token value_type value_type
  | divide_by_zero
  | negative_exponent
  | square_root_for_negative_argument value_type
  | log_for_nonpositive_argument value_type
  | negative_result
  | out_of_range
  | from_hex_failed from_hex_error
  | undefined_behaviour

type_synonym eval_result = "eval_error + value_type"

definition fits_signed :: "'a::len itself \<Rightarrow> int \<Rightarrow> bool" where
  "fits_signed _ i \<longleftrightarrow> sint (word_of_int i :: 'a word) = i"

definition fits_unsigned :: "'a::len itself \<Rightarrow> int \<Rightarrow> bool" where
  "fits_unsigned _ i \<longleftrightarrow> uint (word_of_int i :: 'a word) = i"

definition signed_result :: "int \<Rightarrow> eval_error + 'a::len word" where
  "signed_result i = (if fits_signed TYPE('a) i then Inr (word_of_int i) else Inl undefined_behaviour)"

definition of_trunc :: "('a::len itself \<Rightarrow> int \<Rightarrow> bool) \<Rightarrow> ('a word \<Rightarrow> value_type) \<Rightarrow> int option \<Rightarrow> eval_result" where
  "of_trunc fits mk t =
     (case t of
        None \<Rightarrow> Inl undefined_behaviour
      | Some i \<Rightarrow> if fits TYPE('a) i then Inr (mk (word_of_int i)) else Inl undefined_behaviour)"

section \<open>Unary operations\<close>

definition unary_bool :: "token \<Rightarrow> bool \<Rightarrow> eval_result" where
  "unary_bool t x =
     (if t = t_not then Inr (V_bool (\<not> x))
      else if t = t_toint then Inr (V_int (if x then 1 else 0))
      else if t = t_tolong then Inr (V_long (if x then 1 else 0))
      else if t = t_touint then Inr (V_uint (if x then 1 else 0))
      else if t = t_toulong then Inr (V_ulong (if x then 1 else 0))
      else Inl (eval_unary t (V_bool x)))"

definition integral_signed1 :: "fp_ops \<Rightarrow> token \<Rightarrow> ('a::len word \<Rightarrow> value_type) \<Rightarrow> 'a word \<Rightarrow> eval_result" where
  "integral_signed1 fp t mk x =
     (let i = sint x; d = fp64_of_int fp i in
      if t = t_not then Inr (mk (NOT x))
      else if t = t_neg then and_then (signed_result (- i)) (Inr \<circ> mk)
      else if t = t_abs then and_then (signed_result \<bar>i\<bar>) (Inr \<circ> mk)
      else if t = t_sin then Inr (V_double (fp64_un fp fp_sin d))
      else if t = t_cos then Inr (V_double (fp64_un fp fp_cos d))
      else if t = t_sqrt then
        (if i < 0 then Inl (square_root_for_negative_argument (mk x)) else Inr (V_double (fp64_un fp fp_sqrt d)))
      else if t = t_log then
        (if \<not> i > 0 then Inl (log_for_nonpositive_argument (mk x)) else Inr (V_double (fp64_un fp fp_log d)))
      else if t \<in> {t_floor, t_ceil, t_round} then Inr (mk x)
      else if t = t_toint then Inr (V_int (word_of_int i))
      else if t = t_tolong then Inr (V_long (word_of_int i))
      else if t = t_touint then Inr (V_uint (word_of_int i))
      else if t = t_toulong then Inr (V_ulong (word_of_int i))
      else if t = t_tofloat then Inr (V_float (fp32_of_int fp i))
      else if t = t_todouble then Inr (V_double d)
      else Inl (eval_unary t (mk x)))"

definition integral_unsigned1 :: "fp_ops \<Rightarrow> token \<Rightarrow> ('a::len word \<Rightarrow> value_type) \<Rightarrow> 'a word \<Rightarrow> eval_result" where
  "integral_unsigned1 fp t mk x =
     (let i = uint x; d = fp64_of_int fp i in
      if t = t_not then Inr (mk (NOT x))
      else if t = t_sin then Inr (V_double (fp64_un fp fp_sin d))
      else if t = t_cos then Inr (V_double (fp64_un fp fp_cos d))
      else if t = t_sqrt then Inr (V_double (fp64_un fp fp_sqrt d))
      else if t = t_log then Inr (V_double (fp64_un fp fp_log d))
      else if t \<in> {t_floor, t_ceil, t_round} then Inr (mk x)
      else if t = t_toint then Inr (V_int (word_of_int i))
      else if t = t_tolong then Inr (V_long (word_of_int i))
      else if t = t_touint then Inr (V_uint (word_of_int i))
      else if t = t_toulong then Inr (V_ulong (word_of_int i))
      else if t = t_tofloat then Inr (V_float (fp32_of_int fp i))
      else if t = t_todouble then Inr (V_double d)
      else Inl (eval_unary t (mk x)))"

text \<open>
  The two instances of the template for floating point numbers: \<open>un\<close> are the functions of the
  number type itself, \<open>lt\<close> its comparison, and the last two arguments convert to the two types.
\<close>

definition unary_fractional ::
  "token \<Rightarrow> ('a \<Rightarrow> value_type) \<Rightarrow> ('a \<Rightarrow> 'a) \<Rightarrow> ('a \<Rightarrow> 'a) \<Rightarrow> (fp_unary \<Rightarrow> 'a \<Rightarrow> 'a) \<Rightarrow> ('a \<Rightarrow> 'a \<Rightarrow> bool) \<Rightarrow>
   'a \<Rightarrow> ('a \<Rightarrow> int option) \<Rightarrow> ('a \<Rightarrow> u32) \<Rightarrow> ('a \<Rightarrow> u64) \<Rightarrow> 'a \<Rightarrow> eval_result" where
  "unary_fractional t mk negate absolute un lt zero trunc to32 to64 x =
     (if t = t_neg then Inr (mk (negate x))
      else if t = t_abs then Inr (mk (absolute x))
      else if t = t_sin then Inr (mk (un fp_sin x))
      else if t = t_cos then Inr (mk (un fp_cos x))
      else if t = t_sqrt then
        (if lt x zero then Inl (square_root_for_negative_argument (mk x)) else Inr (mk (un fp_sqrt x)))
      else if t = t_log then
        (if \<not> lt zero x then Inl (log_for_nonpositive_argument (mk x)) else Inr (mk (un fp_log x)))
      else if t = t_floor then Inr (mk (un fp_floor x))
      else if t = t_ceil then Inr (mk (un fp_ceil x))
      else if t = t_round then Inr (mk (un fp_round x))
      else if t = t_toint then of_trunc fits_signed V_int (trunc x)
      else if t = t_tolong then of_trunc fits_signed V_long (trunc x)
      else if t = t_touint then of_trunc fits_unsigned V_uint (trunc x)
      else if t = t_toulong then of_trunc fits_unsigned V_ulong (trunc x)
      else if t = t_tofloat then Inr (V_float (to32 x))
      else if t = t_todouble then Inr (V_double (to64 x))
      else Inl (eval_unary t (mk x)))"

definition unary_float :: "fp_ops \<Rightarrow> token \<Rightarrow> u32 \<Rightarrow> eval_result" where
  "unary_float fp t = unary_fractional t V_float (\<lambda>x. x XOR 0x80000000) (\<lambda>x. x AND 0x7fffffff)
     (fp32_un fp) f32_lt 0 (fp32_trunc fp) id (fp64_of_fp32 fp)"

definition unary_double :: "fp_ops \<Rightarrow> token \<Rightarrow> u64 \<Rightarrow> eval_result" where
  "unary_double fp t = unary_fractional t V_double (\<lambda>x. x XOR 0x8000000000000000) (\<lambda>x. x AND 0x7fffffffffffffff)
     (fp64_un fp) f64_lt 0 (fp64_trunc fp) (fp32_of_fp64 fp) id"

definition unary_string :: "token \<Rightarrow> string \<Rightarrow> eval_result" where
  "unary_string t x =
     (if t = t_bitset_fromhex then
        (case from_hex x of Inl e \<Rightarrow> Inl (from_hex_failed e) | Inr b \<Rightarrow> Inr (V_bitset b))
      else Inl (eval_unary t (V_string x)))"

definition unary_bitset :: "token \<Rightarrow> bitset \<Rightarrow> eval_result" where
  "unary_bitset t x =
     (if t = t_bitset_tohex then Inr (V_string (to_hex x))
      else if t = t_bitset_count then Inr (V_ulong (bs_count x))
      else Inl (eval_unary t (V_bitset x)))"

definition unary_list :: "token \<Rightarrow> value_type list \<Rightarrow> eval_result" where
  "unary_list t x =
     (if t = t_stack_empty then Inr (V_bool (x = []))
      else if t = t_stack_top then (if x = [] then Inl undefined_behaviour else Inr (last x))
      else if t = t_stack_pop then (if x = [] then Inl undefined_behaviour else Inr (V_list (butlast x)))
      else if t = t_stack_size then Inr (V_ulong (of_nat (length x)))
      else Inl (eval_unary t (V_list x)))"

definition unary_set :: "token \<Rightarrow> value_type list \<Rightarrow> eval_result" where
  "unary_set t x =
     (if t = t_set_pop then (if x = [] then Inl undefined_behaviour else Inr (V_set (tl x)))
      else if t = t_set_top then (if x = [] then Inl undefined_behaviour else Inr (hd x))
      else if t = t_set_empty then Inr (V_bool (x = []))
      else if t = t_set_size then Inr (V_ulong (of_nat (length x)))
      else Inl (eval_unary t (V_set x)))"

definition unary_map :: "token \<Rightarrow> (value_type \<times> value_type) list \<Rightarrow> eval_result" where
  "unary_map t x =
     (if t = t_map_size then Inr (V_ulong (of_nat (length x)))
      else if t = t_map_empty then Inr (V_bool (x = []))
      else Inl (eval_unary t (V_map x)))"

definition unary :: "fp_ops \<Rightarrow> token \<Rightarrow> value_type \<Rightarrow> eval_result" where
  "unary fp t x =
     (case x of
        V_bool b \<Rightarrow> unary_bool t b
      | V_int i \<Rightarrow> integral_signed1 fp t V_int i
      | V_long i \<Rightarrow> integral_signed1 fp t V_long i
      | V_uint i \<Rightarrow> integral_unsigned1 fp t V_uint i
      | V_ulong i \<Rightarrow> integral_unsigned1 fp t V_ulong i
      | V_float f \<Rightarrow> unary_float fp t f
      | V_double f \<Rightarrow> unary_double fp t f
      | V_string s \<Rightarrow> unary_string t s
      | V_bitset b \<Rightarrow> unary_bitset t b
      | V_list l \<Rightarrow> unary_list t l
      | V_set s \<Rightarrow> unary_set t s
      | V_map m \<Rightarrow> unary_map t m
      | _ \<Rightarrow> Inl (eval_unary t x))"

section \<open>Binary operations\<close>

definition binary_bool :: "token \<Rightarrow> bool \<Rightarrow> bool \<Rightarrow> eval_result" where
  "binary_bool t l r =
     (if t = t_or_boolean then Inr (V_bool (l \<or> r))
      else if t = t_and_boolean then Inr (V_bool (l \<and> r))
      else if t = t_lt then Inr (V_bool (l < r))
      else if t = t_le then Inr (V_bool (l \<le> r))
      else if t = t_gt then Inr (V_bool (l > r))
      else if t = t_ge then Inr (V_bool (l \<ge> r))
      else if t = t_ne then Inr (V_bool (l \<noteq> r))
      else if t = t_eq then Inr (V_bool (l = r))
      else if t = t_min then Inr (V_bool (min l r))
      else if t = t_max then Inr (V_bool (max l r))
      else Inl (eval_binary t (V_bool l) (V_bool r)))"

text \<open>Integer division of the language truncates towards zero.\<close>

definition trunc_div :: "int \<Rightarrow> int \<Rightarrow> int" where
  "trunc_div l r = sgn l * sgn r * (\<bar>l\<bar> div \<bar>r\<bar>)"

definition trunc_mod :: "int \<Rightarrow> int \<Rightarrow> int" where
  "trunc_mod l r = l - trunc_div l r * r"

fun powint_signed :: "nat \<Rightarrow> 'a::len word \<Rightarrow> 'a word \<Rightarrow> eval_error + 'a word" where
  "powint_signed 0 l x = Inr x"
| "powint_signed (Suc n) l x = and_then (signed_result (sint x * sint l)) (powint_signed n l)"

fun powint_unsigned :: "nat \<Rightarrow> 'a::len word \<Rightarrow> 'a word \<Rightarrow> 'a word" where
  "powint_unsigned 0 l x = x"
| "powint_unsigned (Suc n) l x = powint_unsigned n l (x * l)"

definition integral_signed2 :: "token \<Rightarrow> ('a::len word \<Rightarrow> value_type) \<Rightarrow> 'a word \<Rightarrow> 'a word \<Rightarrow> eval_result" where
  "integral_signed2 t mk l r =
     (let i = sint l; j = sint r in
      if t = t_or_integral then Inr (mk (l OR r))
      else if t = t_and_integral then Inr (mk (l AND r))
      else if t = t_lt then Inr (V_bool (i < j))
      else if t = t_le then Inr (V_bool (i \<le> j))
      else if t = t_gt then Inr (V_bool (i > j))
      else if t = t_ge then Inr (V_bool (i \<ge> j))
      else if t = t_ne then Inr (V_bool (i \<noteq> j))
      else if t = t_eq then Inr (V_bool (i = j))
      else if t = t_add then and_then (signed_result (i + j)) (Inr \<circ> mk)
      else if t = t_sub then and_then (signed_result (i - j)) (Inr \<circ> mk)
      else if t = t_mul then and_then (signed_result (i * j)) (Inr \<circ> mk)
      else if t = t_divint then
        (if j = 0 then Inl divide_by_zero else and_then (signed_result (trunc_div i j)) (Inr \<circ> mk))
      else if t = t_modint then
        (if j = 0 then Inl divide_by_zero
         else if \<not> fits_signed TYPE('a) (trunc_div i j) then Inl undefined_behaviour
         else and_then (signed_result (trunc_mod i j)) (Inr \<circ> mk))
      else if t = t_powint then
        (if j < 0 then Inl negative_exponent else and_then (powint_signed (nat j) l 1) (Inr \<circ> mk))
      else if t = t_min then Inr (mk (if j < i then r else l))
      else if t = t_max then Inr (mk (if i < j then r else l))
      else Inl (eval_binary t (mk l) (mk r)))"

definition integral_unsigned2 :: "token \<Rightarrow> ('a::len word \<Rightarrow> value_type) \<Rightarrow> 'a word \<Rightarrow> 'a word \<Rightarrow> eval_result" where
  "integral_unsigned2 t mk l r =
     (if t = t_or_integral then Inr (mk (l OR r))
      else if t = t_and_integral then Inr (mk (l AND r))
      else if t = t_lt then Inr (V_bool (l < r))
      else if t = t_le then Inr (V_bool (l \<le> r))
      else if t = t_gt then Inr (V_bool (l > r))
      else if t = t_ge then Inr (V_bool (l \<ge> r))
      else if t = t_ne then Inr (V_bool (l \<noteq> r))
      else if t = t_eq then Inr (V_bool (l = r))
      else if t = t_add then Inr (mk (l + r))
      else if t = t_sub then (if r > l then Inl negative_result else Inr (mk (l - r)))
      else if t = t_mul then Inr (mk (l * r))
      else if t = t_divint then (if r = 0 then Inl divide_by_zero else Inr (mk (l div r)))
      else if t = t_modint then (if r = 0 then Inl divide_by_zero else Inr (mk (l mod r)))
      else if t = t_powint then Inr (mk (powint_unsigned (unat r) l 1))
      else if t = t_min then Inr (mk (if r < l then r else l))
      else if t = t_max then Inr (mk (if l < r then r else l))
      else Inl (eval_binary t (mk l) (mk r)))"

definition fractional2 ::
  "token \<Rightarrow> ('a \<Rightarrow> value_type) \<Rightarrow> ('a \<Rightarrow> 'a \<Rightarrow> bool) \<Rightarrow> ('a \<Rightarrow> 'a \<Rightarrow> bool) \<Rightarrow> (fp_binary \<Rightarrow> 'a \<Rightarrow> 'a \<Rightarrow> 'a) \<Rightarrow>
   ('a \<Rightarrow> 'a) \<Rightarrow> 'a \<Rightarrow> 'a \<Rightarrow> 'a \<Rightarrow> eval_result" where
  "fractional2 t mk lt le bin absolute smallest l r =
     (if t = t_lt then Inr (V_bool (lt l r))
      else if t = t_le then Inr (V_bool (le l r))
      else if t = t_gt then Inr (V_bool (lt r l))
      else if t = t_ge then Inr (V_bool (le r l))
      else if t = t_add then Inr (mk (bin fp_add l r))
      else if t = t_sub then Inr (mk (bin fp_sub l r))
      else if t = t_mul then Inr (mk (bin fp_mul l r))
      else if t = t_div then
        (if lt (absolute r) smallest then Inl divide_by_zero else Inr (mk (bin fp_div l r)))
      else if t = t_pow then Inr (mk (bin fp_pow l r))
      else if t = t_min then Inr (mk (if lt r l then r else l))
      else if t = t_max then Inr (mk (if lt l r then r else l))
      else Inl (eval_binary t (mk l) (mk r)))"

definition binary_char :: "token \<Rightarrow> char \<Rightarrow> char \<Rightarrow> eval_result" where
  "binary_char t l r =
     (if t = t_lt then Inr (V_bool (char_lt l r))
      else if t = t_le then Inr (V_bool (\<not> char_lt r l))
      else if t = t_gt then Inr (V_bool (char_lt r l))
      else if t = t_ge then Inr (V_bool (\<not> char_lt l r))
      else if t = t_ne then Inr (V_bool (l \<noteq> r))
      else if t = t_eq then Inr (V_bool (l = r))
      else if t = t_add then Inr (V_string [l, r])
      else if t = t_min then Inr (V_char (if char_lt r l then r else l))
      else if t = t_max then Inr (V_char (if char_lt l r then r else l))
      else Inl (eval_binary t (V_char l) (V_char r)))"

definition binary_string :: "token \<Rightarrow> string \<Rightarrow> string \<Rightarrow> eval_result" where
  "binary_string t l r =
     (if t = t_lt then Inr (V_bool (string_lt l r))
      else if t = t_le then Inr (V_bool (\<not> string_lt r l))
      else if t = t_gt then Inr (V_bool (string_lt r l))
      else if t = t_ge then Inr (V_bool (\<not> string_lt l r))
      else if t = t_ne then Inr (V_bool (l \<noteq> r))
      else if t = t_eq then Inr (V_bool (l = r))
      else if t = t_add then Inr (V_string (l @ r))
      else if t = t_min then Inr (V_string (if string_lt r l then r else l))
      else if t = t_max then Inr (V_string (if string_lt l r then r else l))
      else Inl (eval_binary t (V_string l) (V_string r)))"

definition binary_bitset :: "token \<Rightarrow> bitset \<Rightarrow> bitset \<Rightarrow> eval_result" where
  "binary_bitset t l r =
     (if t = t_ne then Inr (V_bool (\<not> bitset_eq l r))
      else if t = t_eq then Inr (V_bool (bitset_eq l r))
      else if t = t_bitset_or then Inr (V_bitset (bitset_or l r))
      else if t = t_bitset_and then Inr (V_bitset (bitset_and l r))
      else if t = t_bitset_xor then Inr (V_bitset (bitset_xor l r))
      else Inl (eval_binary t (V_bitset l) (V_bitset r)))"

definition binary_bitset_ulong :: "token \<Rightarrow> bitset \<Rightarrow> u64 \<Rightarrow> eval_result" where
  "binary_bitset_ulong t l r =
     (if t = t_bitset_insert then Inr (V_bitset (ins l r))
      else if t = t_bitset_delete then Inr (V_bitset (del l r))
      else if t = t_bitset_is_element then Inr (V_bool (is_element l r))
      else Inl (eval_binary t (V_bitset l) (V_ulong r)))"

definition binary_bytearray :: "token \<Rightarrow> char list \<Rightarrow> char list \<Rightarrow> eval_result" where
  "binary_bytearray t l r =
     (if t = t_ne then Inr (V_bool (l \<noteq> r))
      else if t = t_eq then Inr (V_bool (l = r))
      else Inl (eval_binary t (V_bytearray l) (V_bytearray r)))"

definition binary_list :: "token \<Rightarrow> value_type list \<Rightarrow> value_type \<Rightarrow> eval_result" where
  "binary_list t l r =
     (case r of
        V_list r' \<Rightarrow> if t = t_stack_join then Inr (V_list (l @ r')) else Inl (eval_binary t (V_list l) r)
      | _ \<Rightarrow> if t = t_stack_push then Inr (V_list (l @ [r])) else Inl (eval_binary t (V_list l) r))"

definition binary_set :: "token \<Rightarrow> value_type list \<Rightarrow> value_type \<Rightarrow> eval_result" where
  "binary_set t l r =
     (case r of
        V_set r' \<Rightarrow>
          if t = t_set_is_subset then Inr (V_bool (list_all (\<lambda>lv. set_member value_lt lv r') l))
          else Inl (eval_binary t (V_set l) r)
      | _ \<Rightarrow>
          if t = t_set_insert then Inr (V_set (set_insert value_lt r l))
          else if t = t_set_erase then Inr (V_set (set_erase value_lt r l))
          else if t = t_set_is_element then Inr (V_bool (set_member value_lt r l))
          else Inl (eval_binary t (V_set l) r))"

definition binary_map :: "token \<Rightarrow> (value_type \<times> value_type) list \<Rightarrow> value_type \<Rightarrow> eval_result" where
  "binary_map t l r =
     (if t = t_map_unassign then Inr (V_map (map_erase value_lt r l))
      else if t = t_map_is_assigned then Inr (V_bool (map_find value_lt r l \<noteq> None))
      else if t = t_map_get_assignment then
        (case map_find value_lt r l of None \<Rightarrow> Inl out_of_range | Some v \<Rightarrow> Inr v)
      else Inl (eval_binary t (V_map l) r))"

function (sequential) binary :: "fp_ops \<Rightarrow> token \<Rightarrow> value_type \<Rightarrow> value_type \<Rightarrow> eval_result"
  and traverse :: "fp_ops \<Rightarrow> token \<Rightarrow> eval_error \<Rightarrow> bool \<Rightarrow> structured_type \<Rightarrow> structured_type \<Rightarrow> eval_error + bool"
where
  "binary fp t l r =
     (case l of
        V_bool a \<Rightarrow> (case r of V_bool b \<Rightarrow> binary_bool t a b | _ \<Rightarrow> Inl (eval_binary t l r))
      | V_int a \<Rightarrow> (case r of V_int b \<Rightarrow> integral_signed2 t V_int a b | _ \<Rightarrow> Inl (eval_binary t l r))
      | V_long a \<Rightarrow> (case r of V_long b \<Rightarrow> integral_signed2 t V_long a b | _ \<Rightarrow> Inl (eval_binary t l r))
      | V_uint a \<Rightarrow> (case r of V_uint b \<Rightarrow> integral_unsigned2 t V_uint a b | _ \<Rightarrow> Inl (eval_binary t l r))
      | V_ulong a \<Rightarrow> (case r of V_ulong b \<Rightarrow> integral_unsigned2 t V_ulong a b | _ \<Rightarrow> Inl (eval_binary t l r))
      | V_float a \<Rightarrow> (case r of
            V_float b \<Rightarrow> fractional2 t V_float f32_lt f32_le (fp32_bin fp) (\<lambda>x. x AND 0x7fffffff) 0x00800000 a b
          | _ \<Rightarrow> Inl (eval_binary t l r))
      | V_double a \<Rightarrow> (case r of
            V_double b \<Rightarrow> fractional2 t V_double f64_lt f64_le (fp64_bin fp) (\<lambda>x. x AND 0x7fffffffffffffff) 0x0010000000000000 a b
          | _ \<Rightarrow> Inl (eval_binary t l r))
      | V_char a \<Rightarrow> (case r of V_char b \<Rightarrow> binary_char t a b | _ \<Rightarrow> Inl (eval_binary t l r))
      | V_string a \<Rightarrow> (case r of V_string b \<Rightarrow> binary_string t a b | _ \<Rightarrow> Inl (eval_binary t l r))
      | V_bitset a \<Rightarrow> (case r of
            V_bitset b \<Rightarrow> binary_bitset t a b
          | V_ulong b \<Rightarrow> binary_bitset_ulong t a b
          | _ \<Rightarrow> Inl (eval_binary t l r))
      | V_bytearray a \<Rightarrow> (case r of V_bytearray b \<Rightarrow> binary_bytearray t a b | _ \<Rightarrow> Inl (eval_binary t l r))
      | V_list a \<Rightarrow> binary_list t a r
      | V_set a \<Rightarrow> binary_set t a r
      | V_map a \<Rightarrow> binary_map t a r
      | V_struct a \<Rightarrow> (case r of
            V_struct b \<Rightarrow>
              if t = t_ne then and_then (traverse fp t (eval_binary t l r) True a b) (Inr \<circ> V_bool)
              else if t = t_eq then and_then (traverse fp t (eval_binary t l r) False a b) (Inr \<circ> V_bool)
              else Inl (eval_binary t l r)
          | _ \<Rightarrow> Inl (eval_binary t l r))
      | V_control \<Rightarrow> Inl (eval_binary t l r))"
| "traverse fp t err early ((k, v) # ls) ((k', v') # rs) =
     (if k = k' then
        and_then (binary fp t v v') (\<lambda>x.
        if x = V_bool early then Inr early else traverse fp t err early ls rs)
      else Inl err)"
| "traverse fp t err early [] [] = Inr (\<not> early)"
| "traverse fp t err early _ _ = Inl err"
  by pat_completeness auto
termination
  by (relation "measure (\<lambda>q. case q of Inl (_, _, l, _) \<Rightarrow> 2 * size l
        | Inr (_, _, _, _, ls, _) \<Rightarrow> 2 * size_list (size_prod (\<lambda>_. 0) size) ls + 1)") auto

section \<open>Specifications\<close>

text \<open>
  What \<open>==\<close> means: structures are compared field by field, bitsets by their members, everything else by
  equality of the representation.
\<close>

declare binary.simps [simp del]

fun same_value :: "value_type \<Rightarrow> value_type \<Rightarrow> bool"
  and same_fields :: "structured_type \<Rightarrow> structured_type \<Rightarrow> bool"
where
  "same_value a b =
     (case a of
        V_bitset x \<Rightarrow> (case b of V_bitset y \<Rightarrow> bitset_eq x y | _ \<Rightarrow> False)
      | V_struct x \<Rightarrow> (case b of V_struct y \<Rightarrow> same_fields x y | _ \<Rightarrow> False)
      | _ \<Rightarrow> a = b)"
| "same_fields ((k, v) # a) ((k', v') # b) = (k = k' \<and> same_value v v' \<and> same_fields a b)"
| "same_fields a b = (a = [] \<and> b = [])"

declare same_value.simps [simp del]

definition eq_ne_agree :: "fp_ops \<Rightarrow> value_type \<Rightarrow> value_type \<Rightarrow> bool" where
  "eq_ne_agree fp l r \<longleftrightarrow>
     (\<exists>e e'. binary fp t_eq l r = Inl e \<and> binary fp t_ne l r = Inl e') \<or>
     binary fp t_eq l r = Inr (V_bool (same_value l r)) \<and> binary fp t_ne l r = Inr (V_bool (\<not> same_value l r))"

text \<open>
  Containers of a well-formed value are in the order \<open>value_lt\<close> that the C++ containers maintain.
\<close>

fun wf_value :: "value_type \<Rightarrow> bool" where
  "wf_value (V_list xs) = (\<forall>x \<in> set xs. wf_value x)"
| "wf_value (V_set xs) = (vo.ordered xs \<and> (\<forall>x \<in> set xs. wf_value x))"
| "wf_value (V_map es) = (vo.ordered (map fst es) \<and> (\<forall>e \<in> set es. wf_value (fst e) \<and> wf_value (snd e)))"
| "wf_value (V_struct fs) = (\<forall>f \<in> set fs. wf_value (snd f))"
| "wf_value _ = True"

definition fp_example :: fp_ops where
  "fp_example = \<lparr>fp32_un = (\<lambda>_ x. x), fp64_un = (\<lambda>_ x. x), fp32_bin = (\<lambda>_ x y. x), fp64_bin = (\<lambda>_ x y. x),
     fp32_trunc = (\<lambda>_. Some 0), fp64_trunc = (\<lambda>_. Some 0), fp32_of_int = (\<lambda>_. 0), fp64_of_int = (\<lambda>_. 0),
     fp64_of_fp32 = (\<lambda>_. 0), fp32_of_fp64 = (\<lambda>_. 0)\<rparr>"

section \<open>Equality\<close>

lemma sint_eq_iff: "sint c = sint d \<longleftrightarrow> c = d"
  by (metis of_int_sint scast_id)

lemma binary_eq:
  "binary_bool t_eq a b = Inr (V_bool (a = b))"
  "integral_signed2 t_eq mk c d = Inr (V_bool (c = d))"
  "integral_unsigned2 t_eq mk c d = Inr (V_bool (c = d))"
  "fractional2 t_eq mk1 lt le bin ab sm e f = Inl (eval_binary t_eq (mk1 e) (mk1 f))"
  "binary_char t_eq g h = Inr (V_bool (g = h))"
  "binary_string t_eq s s' = Inr (V_bool (s = s'))"
  "binary_bitset t_eq x y = Inr (V_bool (bitset_eq x y))"
  "binary_bitset_ulong t_eq x u = Inl (eval_binary t_eq (V_bitset x) (V_ulong u))"
  "binary_bytearray t_eq s s' = Inr (V_bool (s = s'))"
  "binary_list t_eq vs r = Inl (eval_binary t_eq (V_list vs) r)"
  "binary_set t_eq vs r = Inl (eval_binary t_eq (V_set vs) r)"
  "binary_map t_eq es r = Inl (eval_binary t_eq (V_map es) r)"
             apply (simp_all add: binary_bool_def integral_unsigned2_def fractional2_def binary_char_def
      binary_string_def binary_bitset_def binary_bitset_ulong_def binary_bytearray_def binary_map_def)
  by (simp_all add: integral_signed2_def sint_eq_iff binary_list_def binary_set_def split: value_type.split)

lemma binary_ne:
  "binary_bool t_ne a b = Inr (V_bool (a \<noteq> b))"
  "integral_signed2 t_ne mk c d = Inr (V_bool (c \<noteq> d))"
  "integral_unsigned2 t_ne mk c d = Inr (V_bool (c \<noteq> d))"
  "fractional2 t_ne mk1 lt le bin ab sm e f = Inl (eval_binary t_ne (mk1 e) (mk1 f))"
  "binary_char t_ne g h = Inr (V_bool (g \<noteq> h))"
  "binary_string t_ne s s' = Inr (V_bool (s \<noteq> s'))"
  "binary_bitset t_ne x y = Inr (V_bool (\<not> bitset_eq x y))"
  "binary_bitset_ulong t_ne x u = Inl (eval_binary t_ne (V_bitset x) (V_ulong u))"
  "binary_bytearray t_ne s s' = Inr (V_bool (s \<noteq> s'))"
  "binary_list t_ne vs r = Inl (eval_binary t_ne (V_list vs) r)"
  "binary_set t_ne vs r = Inl (eval_binary t_ne (V_set vs) r)"
  "binary_map t_ne es r = Inl (eval_binary t_ne (V_map es) r)"
             apply (simp_all add: binary_bool_def integral_unsigned2_def fractional2_def binary_char_def
      binary_string_def binary_bitset_def binary_bitset_ulong_def binary_bytearray_def binary_map_def)
  by (simp_all add: integral_signed2_def sint_eq_iff binary_list_def binary_set_def split: value_type.split)

lemma traverse_agree:
  assumes "\<forall>p \<in> set a. \<forall>v'. eq_ne_agree fp (snd p) v'"
  shows "(\<exists>e e'. traverse fp t_eq x False a b = Inl e \<and> traverse fp t_ne y True a b = Inl e') \<or>
         traverse fp t_eq x False a b = Inr (same_fields a b) \<and> traverse fp t_ne y True a b = Inr (\<not> same_fields a b)"
  using assms
proof (induction a b rule: list_induct2')
  case (4 p a q b)
  obtain k v k' v' where [simp]: "p = (k, v)" "q = (k', v')" by (cases p, cases q)
  have "eq_ne_agree fp v v'" and prems: "\<forall>p \<in> set a. \<forall>v'. eq_ne_agree fp (snd p) v'" using "4.prems" by simp_all
  then consider e e' where "binary fp t_eq v v' = Inl e" "binary fp t_ne v v' = Inl e'"
    | "binary fp t_eq v v' = Inr (V_bool (same_value v v'))" "binary fp t_ne v v' = Inr (V_bool (\<not> same_value v v'))"
    by (auto simp: eq_ne_agree_def)
  then show ?case
    using "4.IH" [OF prems] by cases (cases "k = k'"; cases "same_value v v'"; simp)+
qed simp_all
lemma eq_ne: "eq_ne_agree fp l r"
proof (induction l arbitrary: r)
  case (V_struct a)
  have ag: "\<forall>p \<in> set a. \<forall>v'. eq_ne_agree fp (snd p) v'"
    using V_struct.IH by (simp add: snds.simps)
  show ?case
  proof (cases r)
    case (V_struct b)
    let ?l = "V_struct a" and ?r = "V_struct b"
    show ?thesis
      using traverse_agree [of a fp "eval_binary t_eq ?l ?r" b "eval_binary t_ne ?l ?r", OF ag]
      unfolding V_struct eq_ne_agree_def by (elim disjE exE conjE) (simp_all add: binary.simps same_value.simps)
  qed (simp_all add: eq_ne_agree_def binary.simps)
qed (simp add: eq_ne_agree_def binary.simps same_value.simps binary_eq binary_ne split: value_type.split)+

section \<open>Integer arithmetic\<close>

lemma fits_signed_iff:
  "fits_signed TYPE('a::len) i \<longleftrightarrow> - (2 ^ (LENGTH('a) - 1)) \<le> i \<and> i < 2 ^ (LENGTH('a) - 1)"
  unfolding fits_signed_def sint_sbintrunc' by (rule signed_take_bit_int_eq_self_iff)

lemma fits_sint: "fits_signed TYPE('a) (sint (x :: 'a::len word))"
  unfolding fits_signed_iff by (simp add: sint_greater_eq sint_less)

lemma signed_result_sint: "signed_result (sint (x :: 'a::len word)) = Inr x"
  using fits_sint [of x] by (simp add: signed_result_def)

lemma fits_power_mono:
  fixes i :: int
  assumes "fits_signed TYPE('a::len) (i ^ n)" and "m \<le> n" and "1 < LENGTH('a)"
  shows "fits_signed TYPE('a) (i ^ m)"
proof (cases "m = n \<or> \<bar>i\<bar> \<le> 1")
  case True
  have "(2 :: int) ^ 1 \<le> 2 ^ (LENGTH('a) - 1)" using assms(3) by (intro power_increasing) auto
  moreover have "\<bar>i ^ m\<bar> \<le> 1" if "\<bar>i\<bar> \<le> 1" using that by (simp add: power_abs power_le_one)
  ultimately show ?thesis using True assms(1) unfolding fits_signed_iff by (cases "m = n") auto
next
  case False
  then have "\<bar>i\<bar> ^ m * 2 ^ 1 \<le> \<bar>i\<bar> ^ m * \<bar>i\<bar> ^ (n - m)"
    using assms(2) by (intro mult_left_mono order_trans [OF power_increasing [of 1 "n - m"] power_mono]) auto
  also have "\<dots> = \<bar>i\<bar> ^ n" using assms(2) by (simp flip: power_add)
  finally have "2 * \<bar>i ^ m\<bar> \<le> \<bar>i ^ n\<bar>" by (simp add: power_abs)
  moreover have "0 \<le> \<bar>i ^ m\<bar>" by simp
  ultimately show ?thesis using assms(1) unfolding fits_signed_iff by arith
qed

lemma powint_signed_eq:
  assumes "1 < LENGTH('a::len)" and "sint x = sint l ^ m"
  shows "powint_signed n (l :: 'a word) x = signed_result (sint l ^ (m + n))"
  using assms(2)
proof (induction n arbitrary: x m)
  case 0
  then show ?case using signed_result_sint [of x] by simp
next
  case (Suc n)
  have e: "sint x * sint l = sint l ^ Suc m" using Suc.prems by simp
  show ?case
  proof (cases "fits_signed TYPE('a) (sint l ^ Suc m)")
    case True
    then have "sint (word_of_int (sint l ^ Suc m) :: 'a word) = sint l ^ Suc m" by (simp add: fits_signed_def)
    from Suc.IH [OF this] show ?thesis unfolding powint_signed.simps e using True by (simp add: signed_result_def)
  next
    case False
    then have "\<not> fits_signed TYPE('a) (sint l ^ (m + Suc n))"
      using fits_power_mono [of "sint l" "m + Suc n" "Suc m", where 'a = 'a] assms(1) by auto
    then show ?thesis unfolding powint_signed.simps e using False by (simp add: signed_result_def)
  qed
qed

lemma powint_unsigned_eq: "powint_unsigned n l x = x * l ^ n"
  by (induction n arbitrary: x) (simp_all add: mult.assoc)

lemma trunc_mod_abs: "trunc_mod i j = sgn i * (\<bar>i\<bar> mod \<bar>j\<bar>)"
proof -
  have "trunc_div i j * j = sgn i * (\<bar>i\<bar> div \<bar>j\<bar> * \<bar>j\<bar>)"
    unfolding trunc_div_def by (simp add: abs_sgn [of j] algebra_simps)
  moreover have "i = sgn i * \<bar>i\<bar>" by (simp add: sgn_mult_abs)
  ultimately have "trunc_mod i j = sgn i * \<bar>i\<bar> - sgn i * (\<bar>i\<bar> div \<bar>j\<bar> * \<bar>j\<bar>)" by (simp add: trunc_mod_def)
  then show ?thesis by (simp add: minus_div_mult_eq_mod flip: right_diff_distrib)
qed

lemma trunc_div_mod:
  assumes "j \<noteq> 0"
  shows "i = trunc_div i j * j + trunc_mod i j" and "\<bar>trunc_mod i j\<bar> < \<bar>j\<bar>" and "\<bar>trunc_mod i j\<bar> \<le> \<bar>i\<bar>"
    and "trunc_mod i j = 0 \<or> sgn (trunc_mod i j) = sgn i"
proof -
  have p: "0 \<le> \<bar>i\<bar> mod \<bar>j\<bar>" "\<bar>i\<bar> mod \<bar>j\<bar> < \<bar>j\<bar>" "\<bar>i\<bar> mod \<bar>j\<bar> \<le> \<bar>i\<bar>" using assms by (simp_all add: zmod_le_nonneg_dividend)
  have a: "\<bar>sgn i * n\<bar> \<le> n" if "0 \<le> n" for n using that by (simp add: abs_mult sgn_if)
  show "i = trunc_div i j * j + trunc_mod i j" by (simp add: trunc_mod_def)
  show "\<bar>trunc_mod i j\<bar> < \<bar>j\<bar>"
    using a [OF p(1)] p(2) unfolding trunc_mod_abs by linarith
  show "\<bar>trunc_mod i j\<bar> \<le> \<bar>i\<bar>"
    using a [OF p(1)] p(3) unfolding trunc_mod_abs by linarith
  show "trunc_mod i j = 0 \<or> sgn (trunc_mod i j) = sgn i" using p by (auto simp: trunc_mod_abs sgn_mult sgn_if)
qed

lemma trunc_mod_fits:
  assumes "j \<noteq> 0" and "fits_signed TYPE('a::len) i"
  shows "fits_signed TYPE('a) (trunc_mod i j)"
  using assms(2) trunc_div_mod(3,4) [OF assms(1), of i] unfolding fits_signed_iff
  by (auto simp: sgn_if abs_if split: if_splits)

lemma trunc_div_fits:
  assumes "fits_signed TYPE('a::len) i" and "j \<noteq> 0"
  shows "fits_signed TYPE('a) (trunc_div i j) \<longleftrightarrow> \<not> (i = - (2 ^ (LENGTH('a) - 1)) \<and> j = -1)"
proof (cases "j = 1 \<or> j = -1")
  case True
  then show ?thesis using assms(1) unfolding fits_signed_iff trunc_div_def by (auto simp: sgn_mult_abs)
next
  case False
  then have "2 \<le> \<bar>j\<bar>" using assms(2) by auto
  have "\<bar>i\<bar> div \<bar>j\<bar> \<le> \<bar>i\<bar> div 2" using \<open>2 \<le> \<bar>j\<bar>\<close> by (intro zdiv_mono2) auto
  moreover have "\<bar>trunc_div i j\<bar> \<le> \<bar>i\<bar> div \<bar>j\<bar>"
    unfolding trunc_div_def by (simp add: abs_mult sgn_if pos_imp_zdiv_nonneg_iff)
  moreover have "0 \<le> \<bar>i\<bar>" "2 * (\<bar>i\<bar> div 2) \<le> \<bar>i\<bar>" by auto
  moreover have "(1 :: int) \<le> 2 ^ (LENGTH('a) - 1)" by simp
  ultimately show ?thesis using assms(1) False unfolding fits_signed_iff by arith
qed

lemma powint_signed_result:
  assumes "1 < LENGTH('a::len)"
  shows "integral_signed2 t_powint mk l (r :: 'a word) =
    (if sint r < 0 then Inl negative_exponent
     else if - (2 ^ (LENGTH('a) - 1)) \<le> sint l ^ nat (sint r) \<and> sint l ^ nat (sint r) < 2 ^ (LENGTH('a) - 1)
     then Inr (mk (word_of_int (sint l ^ nat (sint r)))) else Inl undefined_behaviour)"
proof -
  have "sint (1 :: 'a word) = sint l ^ 0" using assms by (simp add: sint_word_01)
  from powint_signed_eq [OF assms this, of "nat (sint r)"] show ?thesis
    by (simp add: integral_signed2_def Let_def signed_result_def fits_signed_iff)
qed

lemma division_result:
  fixes l r :: "'a::len word"
  shows "if r = 0 then integral_signed2 t_divint mk l r = Inl divide_by_zero \<and> integral_signed2 t_modint mk l r = Inl divide_by_zero
     else if sint l = - (2 ^ (LENGTH('a) - 1)) \<and> sint r = - 1
     then integral_signed2 t_divint mk l r = Inl undefined_behaviour \<and> integral_signed2 t_modint mk l r = Inl undefined_behaviour
     else \<exists>q m. integral_signed2 t_divint mk l r = Inr (mk q) \<and> integral_signed2 t_modint mk l r = Inr (mk m) \<and>
       sint l = sint q * sint r + sint m \<and> \<bar>sint m\<bar> < \<bar>sint r\<bar> \<and> (sint m = 0 \<or> sgn (sint m) = sgn (sint l))"
proof (cases "r = 0")
  case False
  let ?q = "trunc_div (sint l) (sint r)" and ?m = "trunc_mod (sint l) (sint r)"
  have r: "sint r \<noteq> 0" using False sint_eq_iff [of r 0] by simp
  have fm: "fits_signed TYPE('a) ?m" by (rule trunc_mod_fits [OF r fits_sint])
  have fq: "fits_signed TYPE('a) ?q \<longleftrightarrow> \<not> (sint l = - (2 ^ (LENGTH('a) - 1)) \<and> sint r = - 1)"
    by (rule trunc_div_fits [OF fits_sint r])
  show ?thesis
  proof (cases "fits_signed TYPE('a) ?q")
    case True
    have e: "integral_signed2 t_divint mk l r = Inr (mk (word_of_int ?q))" "integral_signed2 t_modint mk l r = Inr (mk (word_of_int ?m))"
      using r True fm by (simp_all add: integral_signed2_def signed_result_def)
    have s: "sint (word_of_int ?q :: 'a word) = ?q" "sint (word_of_int ?m :: 'a word) = ?m"
      using True fm unfolding fits_signed_def by blast+
    have "\<exists>q m. integral_signed2 t_divint mk l r = Inr (mk q) \<and> integral_signed2 t_modint mk l r = Inr (mk m) \<and>
       sint l = sint q * sint r + sint m \<and> \<bar>sint m\<bar> < \<bar>sint r\<bar> \<and> (sint m = 0 \<or> sgn (sint m) = sgn (sint l))"
      by (rule exI [of _ "word_of_int ?q"], rule exI [of _ "word_of_int ?m"], unfold e s)
        (use trunc_div_mod(1,2,4) [OF r, of "sint l"] in blast)
    then show ?thesis using False True fq by (simp only: if_False)
  next
    case nf: False
    have "integral_signed2 t_divint mk l r = Inl undefined_behaviour" "integral_signed2 t_modint mk l r = Inl undefined_behaviour"
      using r nf by (simp_all add: integral_signed2_def signed_result_def)
    then show ?thesis using False nf fq by simp
  qed
qed (simp add: integral_signed2_def)

section \<open>Well-formed results\<close>

lemma of_trunc_wf: "of_trunc fits mk i = Inr y \<Longrightarrow> (\<And>w. wf_value (mk w)) \<Longrightarrow> wf_value y"
  by (auto simp: of_trunc_def split: option.splits if_splits)

lemma and_then_wf: "and_then a (Inr \<circ> mk) = Inr y \<Longrightarrow> (\<And>w. wf_value (mk w)) \<Longrightarrow> wf_value y"
  by (cases a) auto

lemma ordered_tl: "vo.ordered (x # xs) \<Longrightarrow> vo.ordered xs"
  by (simp add: vo.ordered_Cons)

lemma wf_unary_scalar:
  assumes "\<And>w. wf_value (mk w)"
  shows "integral_signed1 fp t mk i = Inr y \<Longrightarrow> wf_value y"
    and "integral_unsigned1 fp t mk j = Inr y \<Longrightarrow> wf_value y"
  by (auto simp: integral_signed1_def integral_unsigned1_def Let_def assms elim: and_then_wf split: if_splits)

lemma wf_unary_fractional:
  assumes "\<And>w. wf_value (mk w)"
  shows "unary_fractional t mk neg ab un lt zero tr to32 to64 x = Inr y \<Longrightarrow> wf_value y"
  by (auto simp: unary_fractional_def assms elim: of_trunc_wf split: if_splits)

lemma wf_unary_list: "unary_list t xs = Inr y \<Longrightarrow> wf_value (V_list xs) \<Longrightarrow> wf_value y"
  by (fastforce simp: unary_list_def dest: in_set_butlastD split: if_splits)

lemma wf_unary_set: "unary_set t xs = Inr y \<Longrightarrow> wf_value (V_set xs) \<Longrightarrow> wf_value y"
  by (cases xs; auto simp: unary_set_def dest: ordered_tl split: if_splits)

lemma wf_unary_leaf:
  "unary_bool t b = Inr y \<Longrightarrow> wf_value y"
  "unary_string t s = Inr y \<Longrightarrow> wf_value y"
  "unary_bitset t x = Inr y \<Longrightarrow> wf_value y"
  "unary_map t es = Inr y \<Longrightarrow> wf_value y"
  by (auto simp: unary_map_def unary_bool_def unary_string_def unary_bitset_def split: if_splits sum.splits)

lemma wf_unary: "unary fp t x = Inr y \<Longrightarrow> wf_value x \<Longrightarrow> wf_value y"
  unfolding unary_def
  by (cases x) (auto simp: unary_float_def unary_double_def elim: wf_unary_scalar(1) [rotated]
      wf_unary_scalar(2) [rotated] wf_unary_fractional [rotated] wf_unary_leaf wf_unary_list wf_unary_set)

lemma wf_binary_leaf:
  "binary_bool t a b = Inr y \<Longrightarrow> wf_value y"
  "binary_char t c d = Inr y \<Longrightarrow> wf_value y"
  "binary_string t s s' = Inr y \<Longrightarrow> wf_value y"
  "binary_bitset t x x' = Inr y \<Longrightarrow> wf_value y"
  "binary_bitset_ulong t x u = Inr y \<Longrightarrow> wf_value y"
  "binary_bytearray t s s' = Inr y \<Longrightarrow> wf_value y"
  by (auto simp: binary_bool_def binary_char_def binary_string_def binary_bitset_def binary_bitset_ulong_def
      binary_bytearray_def split: if_splits)

lemma wf_binary_scalar:
  assumes "\<And>w. wf_value (mk w)"
  shows "integral_signed2 t mk i i' = Inr y \<Longrightarrow> wf_value y"
    and "integral_unsigned2 t mk j j' = Inr y \<Longrightarrow> wf_value y"
  by (auto simp: integral_signed2_def integral_unsigned2_def Let_def assms elim: and_then_wf split: if_splits)

lemma wf_fractional2:
  assumes "\<And>w. wf_value (mk w)"
  shows "fractional2 t mk lt le bin ab sm l r = Inr y \<Longrightarrow> wf_value y"
  by (auto simp: fractional2_def assms split: if_splits)

lemma wf_binary_list: "binary_list t xs r = Inr y \<Longrightarrow> wf_value (V_list xs) \<Longrightarrow> wf_value r \<Longrightarrow> wf_value y"
  by (cases r) (auto simp: binary_list_def split: if_splits)

lemma wf_set_insert:
  "wf_value (V_set xs) \<Longrightarrow> wf_value r \<Longrightarrow> comparable r \<Longrightarrow> wf_value (V_set (set_insert value_lt r xs))"
  using vo.set_set_insert [of r xs] vo.ordered_set_insert [of xs r] by auto

lemma wf_set_erase: "wf_value (V_set xs) \<Longrightarrow> wf_value (V_set (set_erase value_lt r xs))"
  using vo.ordered_set_erase [of xs r] by auto

lemma wf_binary_set:
  "binary_set t xs r = Inr y \<Longrightarrow> wf_value (V_set xs) \<Longrightarrow> wf_value r \<Longrightarrow> comparable r \<Longrightarrow> wf_value y"
  using wf_set_insert [of xs r] wf_set_erase [of xs r]
  by (cases r) (auto simp: binary_set_def simp del: wf_value.simps(2) split: if_splits)

lemma map_erase_subset: "set (map_erase lt k m) \<subseteq> set m"
  by (induction m) (auto split: if_splits)

lemma map_find_set: "map_find lt k m = Some v \<Longrightarrow> v \<in> snd ` set m"
  by (induction m) (auto split: if_splits)

lemma wf_map_erase: "wf_value (V_map es) \<Longrightarrow> wf_value (V_map (map_erase value_lt r es))"
  using map_erase_subset [of value_lt r es] vo.ordered_set_erase [of "map fst es" r]
  by (auto simp: vo.keys_map_erase subset_eq)

lemma wf_binary_map: "binary_map t es r = Inr y \<Longrightarrow> wf_value (V_map es) \<Longrightarrow> wf_value y"
  using map_find_set [of value_lt r es] wf_map_erase [of es r]
  by (auto simp: binary_map_def simp del: wf_value.simps(3) split: if_splits option.splits) auto

lemma wf_binary:
  "binary fp t l r = Inr y \<Longrightarrow> wf_value l \<Longrightarrow> wf_value r \<Longrightarrow> comparable r \<Longrightarrow> wf_value y"
  unfolding binary.simps [of fp t l r]
  by (cases l) (auto elim: wf_binary_leaf wf_binary_scalar(1) [rotated] wf_binary_scalar(2) [rotated]
      wf_fractional2 [rotated] wf_binary_list wf_binary_set wf_binary_map and_then_wf
      split: value_type.splits if_splits)

section \<open>Properties\<close>

text \<open>
  C25: The operators \<open>==\<close> and \<open>!=\<close> fail on the same pairs of values; on all other pairs \<open>==\<close> returns whether the
  two values are the same, structures being compared field by field, and \<open>!=\<close> returns the opposite.
\<close>

theorem equality_operators:
  "(\<exists>e e'. binary fp t_eq l r = Inl e \<and> binary fp t_ne l r = Inl e') \<or>
   binary fp t_eq l r = Inr (V_bool (same_value l r)) \<and> binary fp t_ne l r = Inr (V_bool (\<not> same_value l r))"
  using eq_ne [of fp l r] by (simp add: eq_ne_agree_def)

text \<open>
  C26: The multiplication loop of the integral power computes the power: for the signed types it fails with
  \<open>negative_exponent\<close> exactly if the exponent is negative, it overflows exactly if the power itself is not
  representable (no intermediate product overflows earlier), and returns the exact power otherwise; for the
  unsigned types it returns the power modulo the size of the type.
\<close>

theorem powint_exact:
  "binary fp t_powint (V_int i) (V_int n) =
     (if sint n < 0 then Inl negative_exponent
      else if - (2 ^ 31) \<le> sint i ^ nat (sint n) \<and> sint i ^ nat (sint n) < 2 ^ 31
      then Inr (V_int (word_of_int (sint i ^ nat (sint n)))) else Inl undefined_behaviour) \<and>
   binary fp t_powint (V_long j) (V_long m) =
     (if sint m < 0 then Inl negative_exponent
      else if - (2 ^ 63) \<le> sint j ^ nat (sint m) \<and> sint j ^ nat (sint m) < 2 ^ 63
      then Inr (V_long (word_of_int (sint j ^ nat (sint m)))) else Inl undefined_behaviour) \<and>
   binary fp t_powint (V_uint u) (V_uint v) = Inr (V_uint (u ^ unat v)) \<and>
   binary fp t_powint (V_ulong x) (V_ulong y) = Inr (V_ulong (x ^ unat y))"
  by (simp add: binary.simps powint_signed_result powint_unsigned_eq integral_unsigned2_def)

text \<open>
  C27: Integral division and remainder of two \<open>long\<close> fail with \<open>divide_by_zero\<close> for a zero divisor, overflow only
  for the smallest number divided by -1, and otherwise are quotient and remainder: the remainder is smaller in
  magnitude than the divisor and has the sign of the dividend.
\<close>

theorem division_exact:
  "(if j = 0 then binary fp t_divint (V_long i) (V_long j) = Inl divide_by_zero \<and>
                 binary fp t_modint (V_long i) (V_long j) = Inl divide_by_zero
    else if sint i = - (2 ^ 63) \<and> sint j = - 1
    then binary fp t_divint (V_long i) (V_long j) = Inl undefined_behaviour \<and>
         binary fp t_modint (V_long i) (V_long j) = Inl undefined_behaviour
    else \<exists>q m. binary fp t_divint (V_long i) (V_long j) = Inr (V_long q) \<and>
               binary fp t_modint (V_long i) (V_long j) = Inr (V_long m) \<and>
               sint i = sint q * sint j + sint m \<and> \<bar>sint m\<bar> < \<bar>sint j\<bar> \<and> (sint m = 0 \<or> sgn (sint m) = sgn (sint i)))"
proof -
  have "binary fp t (V_long i) (V_long j) = integral_signed2 t V_long i j" for t by (simp add: binary.simps)
  moreover have "LENGTH(64) - 1 = 63" by simp
  ultimately show ?thesis using division_result [of j V_long i] by (simp only:)
qed



end
