(* ===== verification/Expr.thy ===== *)
theory Expr
  imports Function
begin

text \<open>
  Expressions: the syntax trees of \<^verbatim>\<open>src/we/expr/parse/node.hpp\<close> and \<^verbatim>\<open>node.cpp\<close>, the evaluation contexts of
  \<^verbatim>\<open>src/we/expr/eval/context.cpp\<close>, the evaluator \<^verbatim>\<open>src/we/expr/eval/eval.cpp\<close> and the part of
  \<^verbatim>\<open>src/we/expr/parse/parser.cpp\<close> that works on sequences of trees.

  Evaluation passes the context along explicitly and returns it on failure too: an exception leaves the
  assignments that have been executed before it in place. The pointers in \<^verbatim>\<open>_ref_container\<close> refer to values
  outside of the context that do not change during an evaluation; the model stores the values.

  The lemmas show what an expression depends on: its result and its effect are determined by the bindings of
  its key roots and it changes no others (\<open>eval_key_roots\<close>), and consistent renaming of a key root changes
  nothing (\<open>rename_correct\<close>).
\<close>

section \<open>Syntax trees\<close>

type_synonym key = "string list"

datatype node =
    N_value value_type
  | N_key key
  | N_unary token node
  | N_binary token node node
  | N_ternary token node node node

datatype expr_error =
    operator_error eval_error
  | bad_get
  | empty_key
  | missing_binding string
  | map_assign_type_error value_type value_type value_type
  | eval_ternary token
  | node_is_not_a_value
  | collect_empty_key

definition get :: "node \<Rightarrow> expr_error + value_type" where
  "get n = (case n of N_value v \<Rightarrow> Inr v | _ \<Rightarrow> Inl node_is_not_a_value)"

definition is_value :: "node \<Rightarrow> bool" where
  "is_value n = (case n of N_value _ \<Rightarrow> True | _ \<Rightarrow> False)"

definition is_ref :: "node \<Rightarrow> bool" where
  "is_ref n = (case n of N_key _ \<Rightarrow> True | _ \<Rightarrow> False)"

definition rename_key :: "string \<Rightarrow> string \<Rightarrow> key \<Rightarrow> key" where
  "rename_key from to v = (if length v > 0 \<and> hd v = from then to # tl v else v)"

primrec rename :: "string \<Rightarrow> string \<Rightarrow> node \<Rightarrow> node" where
  "rename from to (N_value v) = N_value v"
| "rename from to (N_key k) = N_key (rename_key from to k)"
| "rename from to (N_unary t u) = N_unary t (rename from to u)"
| "rename from to (N_binary t l r) = N_binary t (rename from to l) (rename from to r)"
| "rename from to (N_ternary t a b d) = N_ternary t (rename from to a) (rename from to b) (rename from to d)"

primrec collect_key_roots :: "node \<Rightarrow> string set \<Rightarrow> expr_error + string set" where
  "collect_key_roots (N_value v) roots = Inr roots"
| "collect_key_roots (N_key k) roots = (if k = [] then Inl collect_empty_key else Inr (insert (hd k) roots))"
| "collect_key_roots (N_unary t u) roots = collect_key_roots u roots"
| "collect_key_roots (N_binary t l r) roots = and_then (collect_key_roots l roots) (collect_key_roots r)"
| "collect_key_roots (N_ternary t a b d) roots =
     and_then (and_then (collect_key_roots a roots) (collect_key_roots b)) (collect_key_roots d)"

section \<open>Contexts\<close>

record eval_context =
  ctx_container :: "string \<Rightarrow> value_type option"
  ctx_ref :: "string \<Rightarrow> value_type option"

definition empty_context :: eval_context where
  "empty_context = \<lparr>ctx_container = (\<lambda>_. None), ctx_ref = (\<lambda>_. None)\<rparr>"

definition bind_ref :: "string \<Rightarrow> value_type \<Rightarrow> eval_context \<Rightarrow> eval_context" where
  "bind_ref k v c = c\<lparr>ctx_ref := (ctx_ref c)(k \<mapsto> v)\<rparr>"

definition bind_and_discard_ref :: "key \<Rightarrow> value_type \<Rightarrow> eval_context \<Rightarrow> (expr_error + unit) \<times> eval_context" where
  "bind_and_discard_ref key_vec value c =
     (case key_vec of
        [] \<Rightarrow> (Inl empty_key, c)
      | k # path \<Rightarrow>
          let c1 = (case ctx_ref c k of
                      Some v \<Rightarrow> c\<lparr>ctx_container := (ctx_container c)(k \<mapsto> v), ctx_ref := (ctx_ref c)(k := None)\<rparr>
                    | None \<Rightarrow> c);
              v0 = (case ctx_container c1 k of Some v \<Rightarrow> v | None \<Rightarrow> V_control)
          in (Inr (), c1\<lparr>ctx_container := (ctx_container c1)(k \<mapsto> poke path v0 value)\<rparr>))"

definition context_value :: "key \<Rightarrow> eval_context \<Rightarrow> expr_error + value_type" where
  "context_value key_vec c =
     (case key_vec of
        [] \<Rightarrow> Inl empty_key
      | k # path \<Rightarrow>
          (case Option.bind (ctx_ref c k) (peek path) of
             Some v \<Rightarrow> Inr v
           | None \<Rightarrow>
               (case Option.bind (ctx_container c k) (peek path) of
                  Some v \<Rightarrow> Inr v
                | None \<Rightarrow> Inl (missing_binding (join_with ''.'' key_vec)))))"

section \<open>Evaluation\<close>

type_synonym 'a evaluation = "eval_context \<Rightarrow> (expr_error + 'a) \<times> eval_context"

definition ev_then :: "'a evaluation \<Rightarrow> ('a \<Rightarrow> 'b evaluation) \<Rightarrow> 'b evaluation" where
  "ev_then m f = (\<lambda>c. case m c of (Inl e, c') \<Rightarrow> (Inl e, c') | (Inr x, c') \<Rightarrow> f x c')"

definition ev_result :: "eval_error + 'a \<Rightarrow> 'a evaluation" where
  "ev_result r = (\<lambda>c. (case r of Inl e \<Rightarrow> Inl (operator_error e) | Inr x \<Rightarrow> Inr x, c))"

definition get_bool :: "value_type \<Rightarrow> bool evaluation" where
  "get_bool v = (\<lambda>c. (case v of V_bool b \<Rightarrow> Inr b | _ \<Rightarrow> Inl bad_get, c))"

definition get_key :: "node \<Rightarrow> key evaluation" where
  "get_key n = (\<lambda>c. (case n of N_key k \<Rightarrow> Inr k | _ \<Rightarrow> Inl bad_get, c))"

definition map_assign_value :: "value_type \<Rightarrow> value_type \<Rightarrow> value_type \<Rightarrow> value_type evaluation" where
  "map_assign_value c0 c1 c2 =
     (\<lambda>c. (case c0 of V_map m \<Rightarrow> Inr (V_map (map_assign value_lt c1 c2 m)) | _ \<Rightarrow> Inl (map_assign_type_error c0 c1 c2), c))"

primrec eval :: "fp_ops \<Rightarrow> node \<Rightarrow> value_type evaluation" where
  "eval fp (N_value v) = (\<lambda>c. (Inr v, c))"
| "eval fp (N_key k) = (\<lambda>c. (context_value k c, c))"
| "eval fp (N_unary t u) = ev_then (eval fp u) (\<lambda>c0. ev_result (unary fp t c0))"
| "eval fp (N_binary t l r) =
     (if is_define t then
        ev_then (eval fp r) (\<lambda>c1. ev_then (get_key l) (\<lambda>k. ev_then (bind_and_discard_ref k c1) (\<lambda>_ c. (Inr c1, c))))
      else if is_or_boolean t then
        ev_then (eval fp l) (\<lambda>c0. ev_then (get_bool c0) (\<lambda>b.
          if \<not> b then ev_then (eval fp r) (\<lambda>c1. ev_result (binary fp t c0 c1)) else (\<lambda>c. (Inr c0, c))))
      else if is_and_boolean t then
        ev_then (eval fp l) (\<lambda>c0. ev_then (get_bool c0) (\<lambda>b.
          if b then ev_then (eval fp r) (\<lambda>c1. ev_result (binary fp t c0 c1)) else (\<lambda>c. (Inr c0, c))))
      else if associativity t = left then
        ev_then (eval fp l) (\<lambda>c0. ev_then (eval fp r) (\<lambda>c1. ev_result (binary fp t c0 c1)))
      else
        ev_then (eval fp r) (\<lambda>c1. ev_then (eval fp l) (\<lambda>c0. ev_result (binary fp t c0 c1))))"
| "eval fp (N_ternary t a b d) =
     (if t = t_map_assign then
        ev_then (eval fp a) (\<lambda>c0. ev_then (eval fp b) (\<lambda>c1. ev_then (eval fp d) (\<lambda>c2. map_assign_value c0 c1 c2)))
      else (\<lambda>c. (Inl (eval_ternary t), c)))"

section \<open>Sequences of expressions\<close>

fun eval_nodes :: "fp_ops \<Rightarrow> value_type \<Rightarrow> node list \<Rightarrow> value_type evaluation" where
  "eval_nodes fp v [] = (\<lambda>c. (Inr v, c))"
| "eval_nodes fp v (n # ns) = ev_then (eval fp n) (\<lambda>w. eval_nodes fp w ns)"

definition eval_all :: "fp_ops \<Rightarrow> node list \<Rightarrow> value_type evaluation" where
  "eval_all fp ns = eval_nodes fp V_control ns"

definition is_const_true :: "fp_ops \<Rightarrow> node list \<Rightarrow> expr_error + bool" where
  "is_const_true fp ns =
     (case fst (eval_all fp ns empty_context) of
        Inr (V_bool b) \<Rightarrow> Inr b
      | Inr _ \<Rightarrow> Inl bad_get
      | Inl (missing_binding _) \<Rightarrow> Inr False
      | Inl e \<Rightarrow> Inl e)"

definition rename_all :: "string \<Rightarrow> string \<Rightarrow> node list \<Rightarrow> node list" where
  "rename_all from to ns = map (rename from to) ns"

fun key_roots_of :: "node list \<Rightarrow> string set \<Rightarrow> expr_error + string set" where
  "key_roots_of [] roots = Inr roots"
| "key_roots_of (n # ns) roots = and_then (collect_key_roots n roots) (key_roots_of ns)"

section \<open>What an expression depends on\<close>

primrec key_roots :: "node \<Rightarrow> string set" where
  "key_roots (N_value v) = {}"
| "key_roots (N_key k) = (if k = [] then {} else {hd k})"
| "key_roots (N_unary t u) = key_roots u"
| "key_roots (N_binary t l r) = key_roots l \<union> key_roots r"
| "key_roots (N_ternary t a b d) = key_roots a \<union> key_roots b \<union> key_roots d"

definition map_root :: "(string \<Rightarrow> string) \<Rightarrow> key \<Rightarrow> key" where
  "map_root \<rho> k = (case k of [] \<Rightarrow> [] | r # p \<Rightarrow> \<rho> r # p)"

primrec map_roots :: "(string \<Rightarrow> string) \<Rightarrow> node \<Rightarrow> node" where
  "map_roots \<rho> (N_value v) = N_value v"
| "map_roots \<rho> (N_key k) = N_key (map_root \<rho> k)"
| "map_roots \<rho> (N_unary t u) = N_unary t (map_roots \<rho> u)"
| "map_roots \<rho> (N_binary t l r) = N_binary t (map_roots \<rho> l) (map_roots \<rho> r)"
| "map_roots \<rho> (N_ternary t a b d) = N_ternary t (map_roots \<rho> a) (map_roots \<rho> b) (map_roots \<rho> d)"

definition ctx_sim :: "(string \<Rightarrow> string) \<Rightarrow> string set \<Rightarrow> eval_context \<Rightarrow> eval_context \<Rightarrow> bool" where
  "ctx_sim \<rho> S c c' \<longleftrightarrow> (\<forall>k \<in> S. ctx_container c' (\<rho> k) = ctx_container c k \<and> ctx_ref c' (\<rho> k) = ctx_ref c k)"

definition result_sim :: "('e \<Rightarrow> 'e \<Rightarrow> bool) \<Rightarrow> 'e + 'a \<Rightarrow> 'e + 'a \<Rightarrow> bool" where
  "result_sim Q r r' = (case r of Inl e \<Rightarrow> (\<exists>e'. r' = Inl e' \<and> Q e e') | Inr x \<Rightarrow> r' = Inr x)"

definition eval_sim :: "(expr_error \<Rightarrow> expr_error \<Rightarrow> bool) \<Rightarrow> (string \<Rightarrow> string) \<Rightarrow> string set \<Rightarrow>
  'a evaluation \<Rightarrow> 'a evaluation \<Rightarrow> bool" where
  "eval_sim Q \<rho> S m m' \<longleftrightarrow> (\<forall>c c'. ctx_sim \<rho> S c c' \<longrightarrow>
     result_sim Q (fst (m c)) (fst (m' c')) \<and> ctx_sim \<rho> S (snd (m c)) (snd (m' c')))"

definition framed :: "string set \<Rightarrow> 'a evaluation \<Rightarrow> bool" where
  "framed S m \<longleftrightarrow> (\<forall>c k. k \<notin> S \<longrightarrow> ctx_container (snd (m c)) k = ctx_container c k \<and> ctx_ref (snd (m c)) k = ctx_ref c k)"

lemma eval_simD:
  "eval_sim Q \<rho> S m m' \<Longrightarrow> ctx_sim \<rho> S c c' \<Longrightarrow> result_sim Q (fst (m c)) (fst (m' c'))"
  "eval_sim Q \<rho> S m m' \<Longrightarrow> ctx_sim \<rho> S c c' \<Longrightarrow> ctx_sim \<rho> S (snd (m c)) (snd (m' c'))"
  by (simp_all add: eval_sim_def)

lemma eval_sim_then:
  assumes m: "eval_sim Q \<rho> S m m'" and f: "\<And>x. eval_sim Q \<rho> S (f x) (f' x)"
  shows "eval_sim Q \<rho> S (ev_then m f) (ev_then m' f')"
  unfolding eval_sim_def
proof (intro allI impI)
  fix c c' assume c: "ctx_sim \<rho> S c c'"
  obtain r d where r: "m c = (r, d)" by (cases "m c")
  obtain r' d' where r': "m' c' = (r', d')" by (cases "m' c'")
  have "result_sim Q r r'" "ctx_sim \<rho> S d d'" using eval_simD [OF m c] by (simp_all add: r r')
  then show "result_sim Q (fst (ev_then m f c)) (fst (ev_then m' f' c')) \<and>
      ctx_sim \<rho> S (snd (ev_then m f c)) (snd (ev_then m' f' c'))"
    using eval_simD [OF f] by (cases r) (auto simp: ev_then_def r r' result_sim_def)
qed

lemma eval_sim_pure: "result_sim Q r r \<Longrightarrow> eval_sim Q \<rho> S (\<lambda>c. (r, c)) (\<lambda>c. (r, c))"
  by (simp add: eval_sim_def)

lemma result_sim_refl: "(\<And>e. Q e e) \<Longrightarrow> result_sim Q r r"
  by (simp add: result_sim_def split: sum.split)

lemma eval_sim_simple:
  assumes "\<And>e. Q e e"
  shows "eval_sim Q \<rho> S (\<lambda>c. (Inr v, c)) (\<lambda>c. (Inr v, c))" "eval_sim Q \<rho> S (\<lambda>c. (Inl e, c)) (\<lambda>c. (Inl e, c))"
    "eval_sim Q \<rho> S (ev_result x) (ev_result x)"
    "eval_sim Q \<rho> S (get_bool w) (get_bool w)" "eval_sim Q \<rho> S (map_assign_value a b d) (map_assign_value a b d)"
  unfolding ev_result_def get_bool_def map_assign_value_def
  by (rule eval_sim_pure, rule result_sim_refl, rule assms)+

lemma eval_sim_value:
  assumes Q: "\<And>e. Q e e" "\<And>k. Q (missing_binding (join_with ''.'' k)) (missing_binding (join_with ''.'' (map_root \<rho> k)))"
    and "key_roots (N_key k) \<subseteq> S"
  shows "eval_sim Q \<rho> S (\<lambda>c. (context_value k c, c)) (\<lambda>c. (context_value (map_root \<rho> k) c, c))"
proof (cases k)
  case Nil
  then show ?thesis by (simp add: eval_sim_def map_root_def context_value_def result_sim_refl Q)
next
  case (Cons r p)
  then show ?thesis using assms(3) Q(2) [of k]
    by (auto simp: eval_sim_def ctx_sim_def map_root_def context_value_def result_sim_def split: option.split)
qed

lemma eval_sim_bind:
  assumes "\<And>e. Q e e" and "inj_on \<rho> S" and "key_roots (N_key k) \<subseteq> S"
  shows "eval_sim Q \<rho> S (bind_and_discard_ref k v) (bind_and_discard_ref (map_root \<rho> k) v)"
proof (cases k)
  case Nil
  then show ?thesis by (simp add: eval_sim_def map_root_def bind_and_discard_ref_def result_sim_refl assms(1))
next
  case (Cons r p)
  have "\<rho> x = \<rho> r \<longleftrightarrow> x = r" if "x \<in> S" for x using that Cons assms(2,3) by (auto simp: inj_on_def)
  moreover have "r \<in> S" using Cons assms(3) by simp
  ultimately show ?thesis
    by (auto simp: Cons eval_sim_def ctx_sim_def map_root_def bind_and_discard_ref_def result_sim_def Let_def split: option.split)
qed

lemma eval_map_roots:
  assumes Q: "\<And>e. Q e e" "\<And>k. Q (missing_binding (join_with ''.'' k)) (missing_binding (join_with ''.'' (map_root \<rho> k)))"
    and inj: "inj_on \<rho> S"
  shows "key_roots e \<subseteq> S \<Longrightarrow> eval_sim Q \<rho> S (eval fp e) (eval fp (map_roots \<rho> e))"
proof (induction e)
  case (N_value v)
  then show ?case by (simp add: eval_sim_simple [OF Q(1)])
next
  case (N_key k)
  then show ?case using eval_sim_value [of Q \<rho> k S, OF Q] by simp
next
  case (N_unary t u)
  then show ?case by (auto intro!: eval_sim_then eval_sim_simple Q(1))
next
  case (N_binary t l r)
  have IH: "eval_sim Q \<rho> S (eval fp l) (eval fp (map_roots \<rho> l))" "eval_sim Q \<rho> S (eval fp r) (eval fp (map_roots \<rho> r))"
    using N_binary by simp_all
  have def: "eval_sim Q \<rho> S (ev_then (get_key l) (\<lambda>k. ev_then (bind_and_discard_ref k v) (\<lambda>_ c. (Inr v, c))))
      (ev_then (get_key (map_roots \<rho> l)) (\<lambda>k. ev_then (bind_and_discard_ref k v) (\<lambda>_ c. (Inr v, c))))" for v
  proof (cases l)
    case (N_key k)
    have get: "ev_then (get_key (N_key k)) f = f k" for k and f :: "key \<Rightarrow> value_type evaluation"
      by (simp add: ev_then_def get_key_def)
    have "key_roots (N_key k) \<subseteq> S" using N_key N_binary.prems by simp
    then show ?thesis unfolding N_key map_roots.simps get
      by (intro eval_sim_then eval_sim_bind eval_sim_simple Q(1) inj)
  qed (simp_all add: ev_then_def get_key_def eval_sim_simple Q(1))
  show ?case using IH def by (simp add: eval_sim_then eval_sim_simple Q(1))
next
  case (N_ternary t a b d)
  then show ?case by (auto intro!: eval_sim_then eval_sim_simple Q(1))
qed

lemma framed_then: "framed S m \<Longrightarrow> (\<And>x. framed S (f x)) \<Longrightarrow> framed S (ev_then m f)"
  unfolding framed_def ev_then_def by (simp split: prod.split sum.split) (metis snd_conv)

lemma framed_simple:
  "framed S (\<lambda>c. (r, c))" "framed S (\<lambda>c. (context_value k c, c))" "framed S (ev_result x)" "framed S (get_bool w)" "framed S (map_assign_value a b d)"
  by (simp_all add: framed_def ev_result_def get_bool_def map_assign_value_def)

lemma framed_define:
  "key_roots l \<subseteq> S \<Longrightarrow> framed S (ev_then (get_key l) (\<lambda>k. ev_then (bind_and_discard_ref k v) (\<lambda>_ c. (Inr v, c))))"
  by (cases l)
    (auto simp: framed_def ev_then_def get_key_def bind_and_discard_ref_def Let_def split: list.split option.split)

lemma framed_eval: "key_roots e \<subseteq> S \<Longrightarrow> framed S (eval fp e)"
  by (induction e) (simp_all add: framed_then framed_simple framed_define)

lemma collect_key_roots_eq:
  "collect_key_roots e roots = Inr R \<Longrightarrow> R = roots \<union> key_roots e"
proof (induction e arbitrary: roots R)
  case (N_binary t l r)
  then show ?case by (cases "collect_key_roots l roots") fastforce+
next
  case (N_ternary t a b d)
  then obtain A B where "collect_key_roots a roots = Inr A" "collect_key_roots b A = Inr B" "collect_key_roots d B = Inr R"
    by (cases "collect_key_roots a roots"; cases "collect_key_roots b (projr (collect_key_roots a roots))") auto
  then show ?case 
    using N_ternary.IH(1) [of roots A] N_ternary.IH(2) [of A B] N_ternary.IH(3) [of B R] by (simp add: Un_assoc)
qed (auto split: if_splits)

lemma rename_map_roots: "rename from to e = map_roots (\<lambda>k. if k = from then to else k) e"
proof (induction e)
  case (N_key k)
  then show ?case by (cases k) (auto simp: rename_key_def map_root_def)
qed simp_all

lemma map_roots_id: "map_roots (\<lambda>k. k) e = e"
  by (induction e) (auto simp: map_root_def split: list.split)

lemma key_roots_of_eq: "key_roots_of ns roots = Inr R \<Longrightarrow> R = roots \<union> (\<Union>n \<in> set ns. key_roots n)"
  by (induction ns arbitrary: roots) (auto dest!: collect_key_roots_eq)

lemma eval_nodes_sim:
  assumes "\<And>e. Q e e" "\<And>k. Q (missing_binding (join_with ''.'' k)) (missing_binding (join_with ''.'' (map_root \<rho> k)))"
    and "inj_on \<rho> S" and "\<forall>n \<in> set ns. key_roots n \<subseteq> S"
  shows "eval_sim Q \<rho> S (eval_nodes fp v ns) (eval_nodes fp v (map (map_roots \<rho>) ns))"
  using assms(4)
proof (induction ns arbitrary: v)
  case (Cons n ns)
  then show ?case by (auto intro!: eval_sim_then eval_map_roots assms(1-3))
qed (simp add: eval_sim_simple assms(1))

lemma framed_eval_nodes: "\<forall>n \<in> set ns. key_roots n \<subseteq> S \<Longrightarrow> framed S (eval_nodes fp v ns)"
  by (induction ns arbitrary: v) (simp_all add: framed_then framed_simple framed_eval)

section \<open>Properties\<close>

text \<open>
  C29: The value of a sequence of expressions depends on the bindings of its key roots only: two contexts that
  agree on them give the same value or the same error, the contexts afterwards agree on them again, and the
  bindings of all other names are unchanged.
\<close>

theorem eval_key_roots:
  assumes "key_roots_of ns {} = Inr R"
    and "\<forall>k \<in> R. ctx_container c' k = ctx_container c k \<and> ctx_ref c' k = ctx_ref c k"
  shows "fst (eval_all fp ns c') = fst (eval_all fp ns c) \<and>
    (\<forall>k \<in> R. ctx_container (snd (eval_all fp ns c')) k = ctx_container (snd (eval_all fp ns c)) k \<and>
             ctx_ref (snd (eval_all fp ns c')) k = ctx_ref (snd (eval_all fp ns c)) k) \<and>
    (\<forall>k. k \<notin> R \<longrightarrow> ctx_container (snd (eval_all fp ns c)) k = ctx_container c k \<and>
             ctx_ref (snd (eval_all fp ns c)) k = ctx_ref c k)"
proof -
  have R: "\<forall>n \<in> set ns. key_roots n \<subseteq> R" using key_roots_of_eq [OF assms(1)] by auto
  have "map_root (\<lambda>k. k) k = k" for k by (simp add: map_root_def split: list.split)
  then have sim: "eval_sim (=) (\<lambda>k. k) R (eval_all fp ns) (eval_all fp ns)"
    using eval_nodes_sim [of "(=)" "\<lambda>k. k" R ns fp V_control] R unfolding map_roots_id eval_all_def by simp
  have c: "ctx_sim (\<lambda>k. k) R c c'" using assms(2) by (simp add: ctx_sim_def)
  have "fst (eval_all fp ns c') = fst (eval_all fp ns c)"
    using eval_simD(1) [OF sim c] unfolding result_sim_def by (cases "fst (eval_all fp ns c)") auto
  moreover have "ctx_sim (\<lambda>k. k) R (snd (eval_all fp ns c)) (snd (eval_all fp ns c'))" by (rule eval_simD(2) [OF sim c])
  moreover have "framed R (eval_all fp ns)" unfolding eval_all_def by (rule framed_eval_nodes [OF R])
  ultimately show ?thesis unfolding ctx_sim_def framed_def by blast
qed

theorem eval_key_roots_witness:
  "let ns = [N_binary t_define (N_key [''b'']) (N_binary t_add (N_key [''a'']) (N_value (V_int 1)))];
       c = bind_ref ''a'' (V_int 1) empty_context; c' = bind_ref ''z'' V_control c
   in key_roots_of ns {} = Inr {''b'', ''a''} \<and> fst (eval_all fp_example ns c') = fst (eval_all fp_example ns c) \<and>
      ctx_ref (snd (eval_all fp_example ns c)) ''z'' = None"
proof -
  let ?ns = "[N_binary t_define (N_key [''b'']) (N_binary t_add (N_key [''a'']) (N_value (V_int 1)))]"
  let ?c = "bind_ref ''a'' (V_int 1) empty_context"
  have r: "key_roots_of ?ns {} = Inr {''b'', ''a''}" by (simp add: insert_commute)
  have a: "\<forall>k \<in> {''b'', ''a''}. ctx_container (bind_ref ''z'' V_control ?c) k = ctx_container ?c k \<and>
      ctx_ref (bind_ref ''z'' V_control ?c) k = ctx_ref ?c k"
    by (simp add: bind_ref_def)
  have z: "ctx_ref ?c ''z'' = None" by (simp add: bind_ref_def empty_context_def)
  from eval_key_roots [OF r a, of fp_example] show ?thesis unfolding Let_def using r z by auto
qed

text \<open>
  C30: Renaming a key root to a name that does not occur in the expressions, and binding the new name to what
  the old one was bound to, changes neither the value nor the effect; an evaluation that fails still fails.
\<close>

theorem rename_correct:
  assumes "key_roots_of ns {} = Inr R" and "to \<notin> R"
    and "\<forall>k \<in> R. let k' = if k = from then to else k in
           ctx_container c' k' = ctx_container c k \<and> ctx_ref c' k' = ctx_ref c k"
  shows "(case fst (eval_all fp ns c) of Inr v \<Rightarrow> fst (eval_all fp (rename_all from to ns) c') = Inr v
           | Inl err \<Rightarrow> \<exists>err'. fst (eval_all fp (rename_all from to ns) c') = Inl err') \<and>
    (\<forall>k \<in> R. let k' = if k = from then to else k;
                 d = snd (eval_all fp ns c); d' = snd (eval_all fp (rename_all from to ns) c') in
       ctx_container d' k' = ctx_container d k \<and> ctx_ref d' k' = ctx_ref d k)"
proof -
  let ?\<rho> = "\<lambda>k. if k = from then to else k"
  have R: "\<forall>n \<in> set ns. key_roots n \<subseteq> R" using key_roots_of_eq [OF assms(1)] by auto
  have inj: "inj_on ?\<rho> R" using assms(2) by (auto simp: inj_on_def)
  have "rename_all from to ns = map (map_roots ?\<rho>) ns" by (simp add: rename_all_def rename_map_roots)
  then have sim: "eval_sim (\<lambda>_ _. True) ?\<rho> R (eval_all fp ns) (eval_all fp (rename_all from to ns))"
    unfolding eval_all_def using eval_nodes_sim [OF _ _ inj R, of "\<lambda>_ _. True" fp V_control] by simp
  have c: "ctx_sim ?\<rho> R c c'" using assms(3) by (simp add: ctx_sim_def Let_def)
  show ?thesis
    using eval_simD(1) [OF sim c] eval_simD(2) [OF sim c] unfolding ctx_sim_def Let_def
    by (cases "fst (eval_all fp ns c)") (simp_all only: result_sim_def sum.case, blast+)
qed

theorem rename_correct_witness:
  "let ns = [N_binary t_add (N_key [''a'']) (N_value (V_int 1))] in
   rename_all ''a'' ''b'' ns = [N_binary t_add (N_key [''b'']) (N_value (V_int 1))] \<and>
   fst (eval_all fp_example ns (bind_ref ''a'' (V_int 1) empty_context)) = Inr (V_int 2) \<and>
   fst (eval_all fp_example (rename_all ''a'' ''b'' ns) (bind_ref ''b'' (V_int 1) empty_context)) = Inr (V_int 2)"
proof -
  let ?ns = "[N_binary t_add (N_key [''a'']) (N_value (V_int 1))]"
  have v: "fst (eval_all fp_example ?ns (bind_ref ''a'' (V_int 1) empty_context)) = Inr (V_int 2)" by code_simp
  have "\<forall>k \<in> {''a''}. let k' = if k = ''a'' then ''b'' else k in
      ctx_container (bind_ref ''b'' (V_int 1) empty_context) k' = ctx_container (bind_ref ''a'' (V_int 1) empty_context) k \<and>
      ctx_ref (bind_ref ''b'' (V_int 1) empty_context) k' = ctx_ref (bind_ref ''a'' (V_int 1) empty_context) k"
    by (simp add: bind_ref_def empty_context_def)
  from rename_correct [OF _ _ this, of ?ns fp_example] show ?thesis
    unfolding Let_def using v by (simp add: rename_all_def rename_key_def)
qed

end
