(* ===== verification/Simplify.thy ===== *)
theory Simplify
  imports Expr "HOL-Library.Sublist"
begin

text \<open>
  The simplification of sequences of expressions, \<^verbatim>\<open>src/we/expr/parse/simplify\<close>: constant propagation, copy
  propagation and dead code elimination, and the pass that runs them in this order. An
  \<^verbatim>\<open>expression_list\<close> is a list of syntax trees. The visitors carry a map or a set along, which the definitions
  pass explicitly; \<^verbatim>\<open>boost::get\<close> on a left hand side that is not a key is the error \<open>bad_get\<close>.

  The two propagation passes are instances of one locale, in which soundness is proved once: the facts in the
  propagation map hold in the context throughout. Soundness needs that no assignment is the right operand of a
  short-circuit operator, and for copies that no assignment copies a part of a variable to the whole or the
  whole to a part. Dead code elimination is sound on sequences of statements, in which an assignment occurs at
  the top of a tree only. Each of the three conditions is necessary (\<open>simplification_limits\<close>).
\<close>

section \<open>Constant propagation\<close>

definition begins_with :: "key \<Rightarrow> key \<Rightarrow> bool" where
  "begins_with lhs rhs \<longleftrightarrow> length lhs \<ge> length rhs \<and> take (length rhs) lhs = rhs"

type_synonym constant_map = "key \<Rightarrow> value_type option"

function erase_parents :: "key \<Rightarrow> constant_map \<Rightarrow> constant_map" where
  "erase_parents k m = (if k = [] then m else erase_parents (butlast k) (m(k := None)))"
  by auto
termination
  by (relation "measure (\<lambda>(k, m). length k)") auto

definition remove_parents_and_children_left :: "key \<Rightarrow> constant_map \<Rightarrow> constant_map" where
  "remove_parents_and_children_left var m =
     (\<lambda>k. if begins_with k var then None else erase_parents var m k)"

definition replace_constant :: "constant_map \<Rightarrow> key \<Rightarrow> node" where
  "replace_constant m k = (case m k of Some v \<Rightarrow> N_value v | None \<Rightarrow> N_key k)"

definition update_constants :: "key \<Rightarrow> node \<Rightarrow> constant_map \<Rightarrow> constant_map" where
  "update_constants lhs r m =
     (let m2 = remove_parents_and_children_left lhs m
      in case r of N_value rhs \<Rightarrow> m2(lhs \<mapsto> rhs) | _ \<Rightarrow> m2)"

primrec constant_propagate :: "node \<Rightarrow> constant_map \<Rightarrow> expr_error + node \<times> constant_map" where
  "constant_propagate (N_value v) m = Inr (N_value v, m)"
| "constant_propagate (N_key k) m = Inr (replace_constant m k, m)"
| "constant_propagate (N_unary t u) m =
     and_then (constant_propagate u m) (\<lambda>(u', m1). Inr (N_unary t u', m1))"
| "constant_propagate (N_binary t l r) m =
     (if is_define t then
        and_then (constant_propagate r m) (\<lambda>(r', m1).
        case l of
          N_key lhs \<Rightarrow> Inr (N_binary t l r', update_constants lhs r' m1)
        | _ \<Rightarrow> Inl bad_get)
      else if associativity t = left then
        and_then (constant_propagate l m) (\<lambda>(l', m1).
        and_then (constant_propagate r m1) (\<lambda>(r', m2). Inr (N_binary t l' r', m2)))
      else
        and_then (constant_propagate r m) (\<lambda>(r', m1).
        and_then (constant_propagate l m1) (\<lambda>(l', m2). Inr (N_binary t l' r', m2))))"
| "constant_propagate (N_ternary t a b d) m =
     and_then (constant_propagate a m) (\<lambda>(a', m1).
     and_then (constant_propagate b m1) (\<lambda>(b', m2).
     and_then (constant_propagate d m2) (\<lambda>(d', m3). Inr (N_ternary t a' b' d', m3))))"

fun constant_propagate_list :: "node list \<Rightarrow> constant_map \<Rightarrow> expr_error + node list" where
  "constant_propagate_list [] m = Inr []"
| "constant_propagate_list (n # ns) m =
     and_then (constant_propagate n m) (\<lambda>(n', m1).
     and_then (constant_propagate_list ns m1) (\<lambda>ns'. Inr (n' # ns')))"

definition constant_propagation :: "node list \<Rightarrow> expr_error + node list" where
  "constant_propagation ns = constant_propagate_list ns (\<lambda>_. None)"

section \<open>Copy propagation\<close>

type_synonym copy_map = "key \<Rightarrow> key option"

definition erase_entries :: "(key \<Rightarrow> bool) \<Rightarrow> copy_map \<Rightarrow> copy_map" where
  "erase_entries P m = (\<lambda>k. case m k of Some r \<Rightarrow> if P k \<or> P r then None else Some r | None \<Rightarrow> None)"

function erase_parents_both :: "key \<Rightarrow> copy_map \<Rightarrow> copy_map" where
  "erase_parents_both k m = (if k = [] then m else erase_parents_both (butlast k) (erase_entries (\<lambda>x. x = k) m))"
  by auto
termination
  by (relation "measure (\<lambda>(k, m). length k)") auto

definition remove_parents_and_children_both :: "key \<Rightarrow> copy_map \<Rightarrow> copy_map" where
  "remove_parents_and_children_both var m = erase_entries (\<lambda>x. begins_with x var) (erase_parents_both var m)"

function copy_key :: "key \<Rightarrow> key \<Rightarrow> copy_map \<Rightarrow> key option" where
  "copy_key parent sfx m =
     (if parent = [] then None
      else case m parent of
        Some replacement \<Rightarrow> Some (replacement @ sfx)
      | None \<Rightarrow> copy_key (butlast parent) (last parent # sfx) m)"
  by auto
termination
  by (relation "measure (\<lambda>(k, _, _). length k)") auto

definition replace_copy :: "copy_map \<Rightarrow> key \<Rightarrow> node" where
  "replace_copy m k = N_key (case copy_key k [] m of Some r \<Rightarrow> r | None \<Rightarrow> k)"

definition update_copies :: "key \<Rightarrow> node \<Rightarrow> copy_map \<Rightarrow> copy_map" where
  "update_copies lhs r m =
     (let m2 = remove_parents_and_children_both lhs m
      in case r of N_key rhs \<Rightarrow> m2(lhs \<mapsto> rhs) | _ \<Rightarrow> m2)"

primrec copy_propagate :: "node \<Rightarrow> copy_map \<Rightarrow> expr_error + node \<times> copy_map" where
  "copy_propagate (N_value v) m = Inr (N_value v, m)"
| "copy_propagate (N_key k) m = Inr (replace_copy m k, m)"
| "copy_propagate (N_unary t u) m =
     and_then (copy_propagate u m) (\<lambda>(u', m1). Inr (N_unary t u', m1))"
| "copy_propagate (N_binary t l r) m =
     (if is_define t then
        and_then (copy_propagate r m) (\<lambda>(r', m1).
        case l of
          N_key lhs \<Rightarrow> Inr (N_binary t l r', update_copies lhs r' m1)
        | _ \<Rightarrow> Inl bad_get)
      else if associativity t = left then
        and_then (copy_propagate l m) (\<lambda>(l', m1).
        and_then (copy_propagate r m1) (\<lambda>(r', m2). Inr (N_binary t l' r', m2)))
      else
        and_then (copy_propagate r m) (\<lambda>(r', m1).
        and_then (copy_propagate l m1) (\<lambda>(l', m2). Inr (N_binary t l' r', m2))))"
| "copy_propagate (N_ternary t a b d) m =
     and_then (copy_propagate a m) (\<lambda>(a', m1).
     and_then (copy_propagate b m1) (\<lambda>(b', m2).
     and_then (copy_propagate d m2) (\<lambda>(d', m3). Inr (N_ternary t a' b' d', m3))))"

fun copy_propagate_list :: "node list \<Rightarrow> copy_map \<Rightarrow> expr_error + node list" where
  "copy_propagate_list [] m = Inr []"
| "copy_propagate_list (n # ns) m =
     and_then (copy_propagate n m) (\<lambda>(n', m1).
     and_then (copy_propagate_list ns m1) (\<lambda>ns'. Inr (n' # ns')))"

definition copy_propagation :: "node list \<Rightarrow> expr_error + node list" where
  "copy_propagation ns = copy_propagate_list ns (\<lambda>_. None)"

section \<open>Dead code elimination\<close>

function parent_referenced :: "key \<Rightarrow> key set \<Rightarrow> bool" where
  "parent_referenced k names = (if k = [] then False else k \<in> names \<or> parent_referenced (butlast k) names)"
  by auto
termination
  by (relation "measure (\<lambda>(k, _). length k)") auto

definition variable_or_member_referenced :: "key \<Rightarrow> key set \<Rightarrow> bool" where
  "variable_or_member_referenced k names \<longleftrightarrow>
     k \<in> names \<or> parent_referenced k names \<or> (\<exists>n \<in> names. begins_with n k)"

text \<open>The state of the visitor: the names referenced later and whether an assignment has been kept.\<close>

primrec eliminate :: "node \<Rightarrow> key set \<times> bool \<Rightarrow> expr_error + node \<times> key set \<times> bool" where
  "eliminate (N_value v) s = Inr (N_value v, s)"
| "eliminate (N_key k) s = Inr (N_key k, insert k (fst s), snd s)"
| "eliminate (N_unary t u) s = and_then (eliminate u s) (\<lambda>(u', s1). Inr (N_unary t u', s1))"
| "eliminate (N_binary t l r) s =
     (if is_define t then
        (case l of
           N_key lhs \<Rightarrow>
             let lhs_referenced = variable_or_member_referenced lhs (fst s);
                 names = Set.filter (\<lambda>n. \<not> begins_with n lhs) (fst s - {lhs})
             in and_then (eliminate r (names, snd s)) (\<lambda>(r', s1).
                if \<not> lhs_referenced then Inr (r', s1) else Inr (N_binary t l r', fst s1, True))
         | _ \<Rightarrow> Inl bad_get)
      else if associativity t = left then
        and_then (eliminate l s) (\<lambda>(l', s1).
        and_then (eliminate r s1) (\<lambda>(r', s2). Inr (N_binary t l' r', s2)))
      else
        and_then (eliminate r s) (\<lambda>(r', s1).
        and_then (eliminate l s1) (\<lambda>(l', s2). Inr (N_binary t l' r', s2))))"
| "eliminate (N_ternary t a b d) s =
     and_then (eliminate a s) (\<lambda>(a', s1).
     and_then (eliminate b s1) (\<lambda>(b', s2).
     and_then (eliminate d s2) (\<lambda>(d', s3). Inr (N_ternary t a' b' d', s3))))"

text \<open>The list is visited from its end.\<close>

fun eliminate_list :: "node list \<Rightarrow> key set \<Rightarrow> expr_error + node list \<times> key set" where
  "eliminate_list [] names = Inr ([], names)"
| "eliminate_list (n # ns) names =
     and_then (eliminate_list ns names) (\<lambda>(ns', names1).
     and_then (eliminate n (names1, False)) (\<lambda>(n', names2, had_assignment).
     Inr (if had_assignment then n' # ns' else ns', names2)))"

definition dead_code_elimination :: "node list \<Rightarrow> key set \<Rightarrow> expr_error + node list" where
  "dead_code_elimination ns needed_bindings = and_then (eliminate_list ns needed_bindings) (\<lambda>(ns', _). Inr ns')"

definition simplification_pass :: "node list \<Rightarrow> key set \<Rightarrow> expr_error + node list" where
  "simplification_pass ns needed_bindings =
     and_then (constant_propagation ns) (\<lambda>ns1.
     and_then (copy_propagation ns1) (\<lambda>ns2. dead_code_elimination ns2 needed_bindings))"

declare erase_parents.simps [simp del] erase_parents_both.simps [simp del] copy_key.simps [simp del]
  parent_referenced.simps [simp del]

definition assign :: "key \<Rightarrow> node \<Rightarrow> node" where
  "assign k e = N_binary t_define (N_key k) e"

definition value_after :: "expr_error + node list \<Rightarrow> eval_context \<Rightarrow> key \<Rightarrow> expr_error + value_type" where
  "value_after p c k = and_then p (\<lambda>ns. and_then (fst (eval_all fp_example ns c)) (\<lambda>_. context_value k (snd (eval_all fp_example ns c))))"

section \<open>Contexts as environments\<close>

definition ctx_wf :: "eval_context \<Rightarrow> bool" where
  "ctx_wf c \<longleftrightarrow> (\<forall>k. ctx_ref c k = None \<or> ctx_container c k = None)"

definition ctx_val :: "eval_context \<Rightarrow> key \<Rightarrow> value_type option" where
  "ctx_val c k = (case k of [] \<Rightarrow> None
     | r # p \<Rightarrow> (case ctx_ref c r of Some w \<Rightarrow> peek p w | None \<Rightarrow> Option.bind (ctx_container c r) (peek p)))"

definition related :: "key \<Rightarrow> key \<Rightarrow> bool" where
  "related k l \<longleftrightarrow> prefix k l \<or> prefix l k"

lemma ctx_val_Nil [simp]: "ctx_val c [] = None"
  by (simp add: ctx_val_def)

lemma context_value_val:
  assumes "ctx_wf c"
  shows "context_value k c = (case ctx_val c k of Some v \<Rightarrow> Inr v
     | None \<Rightarrow> Inl (if k = [] then empty_key else missing_binding (join_with ''.'' k)))"
proof (cases k)
  case (Cons r p)
  then show ?thesis using assms [unfolded ctx_wf_def, rule_format, of r]
    by (auto simp: context_value_def ctx_val_def split: option.split)
qed (simp add: context_value_def ctx_val_def)

lemma ctx_val_append: "p \<noteq> [] \<Longrightarrow> ctx_val c (p @ s) = Option.bind (ctx_val c p) (peek s)"
  by (cases p; cases "ctx_ref c (hd p)"; cases "ctx_container c (hd p)") (simp_all add: ctx_val_def peek_path_append)

lemma begins_with_prefix: "begins_with lhs rhs \<longleftrightarrow> prefix rhs lhs"
  unfolding begins_with_def prefix_def by (metis append_eq_conv_conj append_take_drop_id length_append le_add1)

lemma peek_poke_unrelated: "\<not> related p q \<Longrightarrow> peek q (poke p v x) = peek q v"
  using peek_poke_other [of q v _ p x] peek_poke_new [of p q v x] by (cases "peek q v") (auto simp: related_def)

lemma peek_poke_inner:
  "peek q (poke (q @ s) v x) = Some (poke s (case peek q v of Some w \<Rightarrow> w | None \<Rightarrow> V_control) x)"
proof (induction q arbitrary: v)
  case (Cons k q)
  show ?case
  proof (cases v)
    case (V_struct m)
    then show ?thesis using Cons by (cases "map_of m k") (simp_all add: map_of_deeper, cases q, simp_all)
  qed (use Cons [of V_control] in \<open>simp_all add: map_of_deeper\<close>, (cases q, simp, simp)+)
qed simp

text \<open>The context after an assignment, by the root of the assigned name.\<close>

lemma bind_ctx:
  assumes "snd (bind_and_discard_ref (r # p) v c) = d"
  shows "ctx_ref d r = None"
    and "ctx_container d r = Some (poke p (case ctx_val c [r] of Some w \<Rightarrow> w | None \<Rightarrow> V_control) v)"
    and "x \<noteq> r \<Longrightarrow> ctx_ref d x = ctx_ref c x" and "x \<noteq> r \<Longrightarrow> ctx_container d x = ctx_container c x"
  using assms by (auto simp: bind_and_discard_ref_def ctx_val_def Let_def split: option.splits)

lemma bind_result: "fst (bind_and_discard_ref k v c) = (if k = [] then Inl empty_key else Inr ())"
  by (cases k) (auto simp: bind_and_discard_ref_def Let_def)

lemma bind_wf: "ctx_wf c \<Longrightarrow> ctx_wf (snd (bind_and_discard_ref k v c))"
  by (cases k) (auto simp: bind_and_discard_ref_def ctx_wf_def Let_def split: option.split)

lemma ctx_val_bind:
  assumes "snd (bind_and_discard_ref (r # p) v c) = d"
  shows "ctx_val d (x # q) = (if x = r then peek q (poke p (case ctx_val c [r] of Some w \<Rightarrow> w | None \<Rightarrow> V_control) v) else ctx_val c (x # q))"
  using bind_ctx [OF assms] by (cases "x = r"; cases "ctx_ref c x") (simp_all add: ctx_val_def)

lemma ctx_val_root: "ctx_val c (r # q) = Option.bind (ctx_val c [r]) (peek q)"
  using ctx_val_append [of "[r]" c q] by simp

lemma ctx_val_bind_same: "k \<noteq> [] \<Longrightarrow> ctx_val (snd (bind_and_discard_ref k v c)) k = Some v"
  by (cases k) (simp_all add: ctx_val_bind [OF refl] peek_poke_same)

lemma ctx_val_bind_below: "k \<noteq> [] \<Longrightarrow> ctx_val (snd (bind_and_discard_ref k v c)) (k @ s) = peek s v"
  by (simp add: ctx_val_append ctx_val_bind_same)

lemma peek_default: "q \<noteq> [] \<Longrightarrow> peek q (case x of Some w \<Rightarrow> w | None \<Rightarrow> V_control) = Option.bind x (peek q)"
  by (cases x; cases q) simp_all

lemma peek_control: "q \<noteq> [] \<Longrightarrow> peek q V_control = None"
  by (cases q) simp_all

lemma ctx_val_bind_other:
  assumes "\<not> related k l"
  shows "ctx_val (snd (bind_and_discard_ref k v c)) l = ctx_val c l"
proof -
  obtain r p where k: "k = r # p" using assms by (cases k) (simp_all add: related_def)
  obtain x q where l: "l = x # q" using assms by (cases l) (simp_all add: related_def)
  have "ctx_val (snd (bind_and_discard_ref k v c)) l = ctx_val c l" if x: "x = r"
  proof -
    have "\<not> related p q" "q \<noteq> []" using assms by (auto simp: related_def k l x)
    then show ?thesis
      unfolding k l x ctx_val_bind [OF refl] ctx_val_root [of c r q] by (simp add: peek_poke_unrelated peek_default)
  qed
  then show ?thesis unfolding k l ctx_val_bind [OF refl] by simp
qed

lemma ctx_val_bind_above:
  assumes "p \<noteq> []"
  shows "ctx_val (snd (bind_and_discard_ref (p @ s) v c)) p =
     Some (poke s (case ctx_val c p of Some w \<Rightarrow> w | None \<Rightarrow> V_control) v)"
proof -
  obtain r q where p: "p = r # q" using assms by (cases p) auto
  show ?thesis
    unfolding p append_Cons ctx_val_bind [OF refl] ctx_val_root [of c r q]
    by (cases "q = []"; cases "ctx_val c [r]") (simp_all add: peek_poke_inner peek_control)
qed

section \<open>Equivalence of evaluations up to a condition on the context\<close>

definition equiv_up_to :: "(expr_error \<Rightarrow> expr_error \<Rightarrow> bool) \<Rightarrow> (eval_context \<Rightarrow> bool) \<Rightarrow> (eval_context \<Rightarrow> bool) \<Rightarrow>
  'a evaluation \<Rightarrow> 'a evaluation \<Rightarrow> bool" where
  "equiv_up_to Q P P' m m' \<longleftrightarrow> (\<forall>c. P c \<longrightarrow>
     result_sim Q (fst (m c)) (fst (m' c)) \<and> snd (m' c) = snd (m c) \<and>
     (\<forall>x. fst (m c) = Inr x \<longrightarrow> P' (snd (m c))))"

lemma equiv_up_to_then:
  assumes m: "equiv_up_to Q P P' m m'" and f: "\<And>x. equiv_up_to Q P' P'' (f x) (f' x)"
  shows "equiv_up_to Q P P'' (ev_then m f) (ev_then m' f')"
  unfolding equiv_up_to_def
proof (intro allI impI)
  fix c assume c: "P c"
  obtain r d where r: "m c = (r, d)" by (cases "m c")
  obtain r' where r': "m' c = (r', d)" and s: "result_sim Q r r'" and p: "\<And>x. r = Inr x \<Longrightarrow> P' d"
    using m [unfolded equiv_up_to_def, rule_format, OF c] r by (cases "m' c") auto
  show "result_sim Q (fst (ev_then m f c)) (fst (ev_then m' f' c)) \<and> snd (ev_then m' f' c) = snd (ev_then m f c) \<and>
     (\<forall>x. fst (ev_then m f c) = Inr x \<longrightarrow> P'' (snd (ev_then m f c)))"
  proof (cases r)
    case (Inl e)
    then show ?thesis using s r r' by (auto simp: ev_then_def result_sim_def)
  next
    case (Inr x)
    then have "r' = Inr x" using s by (simp add: result_sim_def)
    then show ?thesis using f [of x, unfolded equiv_up_to_def, rule_format, OF p [OF Inr]] r r' Inr
      by (simp add: ev_then_def)
  qed
qed

lemma equiv_up_to_refl:
  assumes "\<And>e. Q e e" and "\<And>c. snd (m c) = c"
  shows "equiv_up_to Q P P m m"
  using assms by (simp add: equiv_up_to_def result_sim_refl)

lemma pure_evaluations:
  "snd (ev_result x c) = c" "snd (get_bool w c) = c" "snd (map_assign_value a b d c) = c" "snd (get_key n c) = c"
  by (simp_all add: ev_result_def get_bool_def map_assign_value_def get_key_def)

lemmas equiv_simple = equiv_up_to_refl [where m = "\<lambda>c. (r, c)" for r, simplified] equiv_up_to_refl [OF _ pure_evaluations(1)]
  equiv_up_to_refl [OF _ pure_evaluations(2)] equiv_up_to_refl [OF _ pure_evaluations(3)]

primrec no_assignment :: "node \<Rightarrow> bool" where
  "no_assignment (N_value v) = True"
| "no_assignment (N_key k) = True"
| "no_assignment (N_unary t u) = no_assignment u"
| "no_assignment (N_binary t l r) = (t \<noteq> t_define \<and> no_assignment l \<and> no_assignment r)"
| "no_assignment (N_ternary t a b d) = (no_assignment a \<and> no_assignment b \<and> no_assignment d)"

primrec unconditional :: "node \<Rightarrow> bool" where
  "unconditional (N_value v) = True"
| "unconditional (N_key k) = True"
| "unconditional (N_unary t u) = unconditional u"
| "unconditional (N_binary t l r) = (unconditional l \<and> unconditional r \<and> (t \<in> {t_or_boolean, t_and_boolean} \<longrightarrow> no_assignment r))"
| "unconditional (N_ternary t a b d) = (unconditional a \<and> unconditional b \<and> unconditional d)"

text \<open>A statement: an assignment at the top of the tree or none at all.\<close>

definition statement :: "node \<Rightarrow> bool" where
  "statement n \<longleftrightarrow> no_assignment n \<or> (\<exists>k r. n = N_binary t_define (N_key k) r \<and> no_assignment r)"

lemma no_assignment_unconditional: "no_assignment n \<Longrightarrow> unconditional n"
  by (induction n) simp_all

lemma statement_unconditional: "statement n \<Longrightarrow> unconditional n"
  by (auto simp: statement_def no_assignment_unconditional)

lemma pure_then: "(\<And>c. snd (m c) = c) \<Longrightarrow> (\<And>x c. snd (f x c) = c) \<Longrightarrow> snd (ev_then m f c) = c"
  unfolding ev_then_def by (auto split: prod.split sum.split) (metis snd_conv)+

lemma eval_pure: "no_assignment e \<Longrightarrow> snd (eval fp e c) = c"
  by (induction e arbitrary: c) (simp_all add: pure_then pure_evaluations is_define_def is_or_boolean_def is_and_boolean_def)

lemma equiv_unary: "equiv_up_to Q P P' (eval fp u) (eval fp u') \<Longrightarrow> (\<And>e. Q e e) \<Longrightarrow>
  equiv_up_to Q P P' (eval fp (N_unary t u)) (eval fp (N_unary t u'))"
  by (simp add: equiv_up_to_then equiv_simple)

lemma equiv_ternary:
  assumes "equiv_up_to Q P P1 (eval fp a) (eval fp a')" "equiv_up_to Q P1 P2 (eval fp b) (eval fp b')"
    "equiv_up_to Q P2 P3 (eval fp d) (eval fp d')" and "\<And>e. Q e e"
  shows "equiv_up_to Q P P3 (eval fp (N_ternary t a b d)) (eval fp (N_ternary t a' b' d'))"
proof (cases "t = t_map_assign")
  case True
  then show ?thesis using assms by (simp add: equiv_up_to_then equiv_simple)
qed (simp add: equiv_up_to_def result_sim_def assms(4))

lemma equiv_binary_right:
  assumes "equiv_up_to Q P P1 (eval fp r) (eval fp r')" and "equiv_up_to Q P1 P2 (eval fp l) (eval fp l')"
    and "\<And>e. Q e e" and "t \<noteq> t_define" and "associativity t \<noteq> left"
  shows "equiv_up_to Q P P2 (eval fp (N_binary t l r)) (eval fp (N_binary t l' r'))"
proof -
  have "\<not> is_define t" "\<not> is_or_boolean t" "\<not> is_and_boolean t" using assms(4,5)
    by (auto simp: is_define_def is_or_boolean_def is_and_boolean_def associativity_def)
  then show ?thesis using assms by (simp add: equiv_up_to_then equiv_simple)
qed

lemma equiv_binary_left:
  assumes "equiv_up_to Q P P1 (eval fp l) (eval fp l')" and "equiv_up_to Q P1 P2 (eval fp r) (eval fp r')"
    and "\<And>e. Q e e" and "t \<noteq> t_define" and "associativity t = left"
    and "t \<in> {t_or_boolean, t_and_boolean} \<Longrightarrow> P2 = P1"
  shows "equiv_up_to Q P P2 (eval fp (N_binary t l r)) (eval fp (N_binary t l' r'))"
proof (cases "t \<in> {t_or_boolean, t_and_boolean}")
  case True
  then have [simp]: "P2 = P1" using assms(6) by simp
  show ?thesis using True assms(1-3)
    by (auto simp: is_define_def is_or_boolean_def is_and_boolean_def intro!: equiv_up_to_then equiv_simple)
next
  case False
  then show ?thesis using assms by (simp add: is_define_def is_or_boolean_def is_and_boolean_def equiv_up_to_then equiv_simple)
qed

lemma eval_define:
  "eval fp (N_binary t_define (N_key k) r) c =
     (case eval fp r c of
        (Inl e, d) \<Rightarrow> (Inl e, d)
      | (Inr v, d) \<Rightarrow> (if k = [] then Inl empty_key else Inr v, snd (bind_and_discard_ref k v d)))"
  by (cases k) (simp_all add: is_define_def ev_then_def get_key_def bind_and_discard_ref_def Let_def split: prod.split sum.split)

lemma equiv_define:
  assumes r: "equiv_up_to Q P P' (eval fp r) (eval fp r')" and Q: "\<And>e. Q e e"
    and bind: "\<And>c v d. k \<noteq> [] \<Longrightarrow> P c \<Longrightarrow> eval fp r' c = (Inr v, d) \<Longrightarrow> P' d \<Longrightarrow> P'' (snd (bind_and_discard_ref k v d))"
  shows "equiv_up_to Q P P'' (eval fp (N_binary t_define (N_key k) r)) (eval fp (N_binary t_define (N_key k) r'))"
  unfolding equiv_up_to_def
proof (intro allI impI)
  fix c assume c: "P c"
  obtain x d where x: "eval fp r c = (x, d)" by (cases "eval fp r c")
  obtain x' where x': "eval fp r' c = (x', d)" and s: "result_sim Q x x'" and p: "\<And>v. x = Inr v \<Longrightarrow> P' d"
    using r [unfolded equiv_up_to_def, rule_format, OF c] x by (cases "eval fp r' c") auto
  show "result_sim Q (fst (eval fp (N_binary t_define (N_key k) r) c)) (fst (eval fp (N_binary t_define (N_key k) r') c)) \<and>
    snd (eval fp (N_binary t_define (N_key k) r') c) = snd (eval fp (N_binary t_define (N_key k) r) c) \<and>
    (\<forall>v. fst (eval fp (N_binary t_define (N_key k) r) c) = Inr v \<longrightarrow>
       P'' (snd (eval fp (N_binary t_define (N_key k) r) c)))"
  proof (cases x)
    case (Inl e)
    then show ?thesis using s unfolding eval_define x x' by (auto simp: result_sim_def)
  next
    case (Inr v)
    then have v: "x' = Inr v" using s by (simp add: result_sim_def)
    show ?thesis unfolding eval_define x x' Inr v
      using bind [OF _ c x' [unfolded v] p [OF Inr]] Q by (simp add: result_sim_def)
  qed
qed

section \<open>Propagation passes\<close>

text \<open>
  What the passes for constants and for copies have in common: a map of facts about names is carried along in
  the order of evaluation, a name is replaced by what the map knows about it, and an assignment updates the
  map. A pass is sound if the facts of the map hold in the context throughout.
\<close>

primrec all_assignments :: "(key \<Rightarrow> node \<Rightarrow> bool) \<Rightarrow> node \<Rightarrow> bool" where
  "all_assignments ok (N_value v) = True"
| "all_assignments ok (N_key k) = True"
| "all_assignments ok (N_unary t u) = all_assignments ok u"
| "all_assignments ok (N_binary t l r) =
     (all_assignments ok l \<and> all_assignments ok r \<and> (case l of N_key k \<Rightarrow> t = t_define \<longrightarrow> ok k r | _ \<Rightarrow> True))"
| "all_assignments ok (N_ternary t a b d) = (all_assignments ok a \<and> all_assignments ok b \<and> all_assignments ok d)"

locale propagation =
  fixes propagate :: "node \<Rightarrow> 'm \<Rightarrow> expr_error + node \<times> 'm"
    and replacement :: "'m \<Rightarrow> key \<Rightarrow> node"
    and update :: "key \<Rightarrow> node \<Rightarrow> 'm \<Rightarrow> 'm"
    and holds :: "'m \<Rightarrow> eval_context \<Rightarrow> bool"
    and same_error :: "expr_error \<Rightarrow> expr_error \<Rightarrow> bool"
    and ok :: "key \<Rightarrow> node \<Rightarrow> bool"
  assumes propagate_value: "propagate (N_value v) m = Inr (N_value v, m)"
    and propagate_key: "propagate (N_key k) m = Inr (replacement m k, m)"
    and propagate_unary: "propagate (N_unary t u) m = and_then (propagate u m) (\<lambda>(u', m1). Inr (N_unary t u', m1))"
    and propagate_define: "propagate (N_binary t_define l r) m =
      and_then (propagate r m) (\<lambda>(r', m1).
      case l of N_key k \<Rightarrow> Inr (N_binary t_define l r', update k r' m1) | _ \<Rightarrow> Inl bad_get)"
    and propagate_left: "t \<noteq> t_define \<Longrightarrow> associativity t = left \<Longrightarrow> propagate (N_binary t l r) m =
      and_then (propagate l m) (\<lambda>(l', m1). and_then (propagate r m1) (\<lambda>(r', m2). Inr (N_binary t l' r', m2)))"
    and propagate_right: "t \<noteq> t_define \<Longrightarrow> associativity t \<noteq> left \<Longrightarrow> propagate (N_binary t l r) m =
      and_then (propagate r m) (\<lambda>(r', m1). and_then (propagate l m1) (\<lambda>(l', m2). Inr (N_binary t l' r', m2)))"
    and propagate_ternary: "propagate (N_ternary t a b d) m =
      and_then (propagate a m) (\<lambda>(a', m1). and_then (propagate b m1) (\<lambda>(b', m2).
      and_then (propagate d m2) (\<lambda>(d', m3). Inr (N_ternary t a' b' d', m3))))"
    and replacement_pure: "no_assignment (replacement m k)"
    and same_error_refl: "same_error e e"
    and replacement_sound: "holds m c \<Longrightarrow> result_sim same_error (context_value k c) (fst (eval fp (replacement m k) c)) \<and>
      snd (eval fp (replacement m k) c) = c"
    and update_sound: "k \<noteq> [] \<Longrightarrow> ok k r \<Longrightarrow> eval fp r c = (Inr v, c') \<Longrightarrow> holds m c' \<Longrightarrow>
      holds (update k r m) (snd (bind_and_discard_ref k v c'))"
begin

lemma pure: "propagate e m = Inr (e', m') \<Longrightarrow> no_assignment e \<Longrightarrow> m' = m"
proof (induction e arbitrary: m m' e')
  case (N_binary t l r)
  then show ?case by (cases "associativity t = left") (fastforce simp: propagate_left propagate_right)+
qed (fastforce simp: propagate_value propagate_key propagate_unary propagate_ternary)+

lemma keeps_pure: "propagate e m = Inr (e', m') \<Longrightarrow> no_assignment e \<Longrightarrow> no_assignment e'"
proof (induction e arbitrary: m m' e')
  case (N_binary t l r)
  then show ?case by (cases "associativity t = left") (fastforce simp: propagate_left propagate_right)+
qed (fastforce simp: propagate_value propagate_key propagate_unary propagate_ternary replacement_pure)+

lemma keeps_statement: "propagate n m = Inr (n', m') \<Longrightarrow> statement n \<Longrightarrow> statement n'"
  unfolding statement_def by (fastforce simp: propagate_define keeps_pure)

lemma correct:
  "propagate e m = Inr (e', m') \<Longrightarrow> unconditional e \<Longrightarrow> all_assignments ok e' \<Longrightarrow>
   equiv_up_to same_error (holds m) (holds m') (eval fp e) (eval fp e')"
proof (induction e arbitrary: m e' m')
  case (N_value v)
  then show ?case by (auto simp: propagate_value intro!: equiv_simple same_error_refl)
next
  case (N_key k)
  then show ?case using replacement_sound by (auto simp: propagate_key equiv_up_to_def)
next
  case (N_unary t u)
  then obtain u' where u: "propagate u m = Inr (u', m')" and e': "e' = N_unary t u'" by (auto simp: propagate_unary)
  show ?case unfolding e' using N_unary.IH [OF u] N_unary.prems(2,3) by (intro equiv_unary) (auto simp: e' same_error_refl)
next
  case (N_binary t l r)
  consider "t = t_define" | "t \<noteq> t_define" "associativity t = left" | "t \<noteq> t_define" "associativity t \<noteq> left" by blast
  then show ?case
  proof cases
    case 1
    obtain k r' m1 where l: "l = N_key k" and r: "propagate r m = Inr (r', m1)" and e': "e' = N_binary t_define l r'"
      and m': "m' = update k r' m1"
      using N_binary.prems(1) 1 by (cases l) (auto simp: propagate_define)
    have IH: "equiv_up_to same_error (holds m) (holds m1) (eval fp r) (eval fp r')"
      using N_binary.IH(2) [OF r] N_binary.prems(2,3) by (simp add: e')
    have "ok k r'" using N_binary.prems(3) by (simp add: e' l)
    then show ?thesis unfolding 1 l e' m' by (intro equiv_define [OF IH] same_error_refl update_sound)
  next
    case 2
    then obtain l' m1 r' where l: "propagate l m = Inr (l', m1)" and r: "propagate r m1 = Inr (r', m')"
      and e': "e' = N_binary t l' r'" using N_binary.prems(1) by (auto simp: propagate_left)
    have "m' = m1" if "t \<in> {t_or_boolean, t_and_boolean}" using pure [OF r] N_binary.prems(2) that by auto
    then show ?thesis unfolding e'
      using N_binary.IH(1) [OF l] N_binary.IH(2) [OF r] N_binary.prems(2,3) 2
      by (intro equiv_binary_left) (auto simp: e' same_error_refl)
  next
    case 3
    then obtain l' m1 r' where r: "propagate r m = Inr (r', m1)" and l: "propagate l m1 = Inr (l', m')"
      and e': "e' = N_binary t l' r'" using N_binary.prems(1) by (auto simp: propagate_right)
    show ?thesis unfolding e'
      using N_binary.IH(1) [OF l] N_binary.IH(2) [OF r] N_binary.prems(2,3) 3
      by (intro equiv_binary_right) (auto simp: e' same_error_refl)
  qed
next
  case (N_ternary t a b d)
  then obtain a' m1 b' m2 d' where a: "propagate a m = Inr (a', m1)" and b: "propagate b m1 = Inr (b', m2)"
    and d: "propagate d m2 = Inr (d', m')" and e': "e' = N_ternary t a' b' d'" by (auto simp: propagate_ternary)
  show ?case unfolding e'
    using N_ternary.IH(1) [OF a] N_ternary.IH(2) [OF b] N_ternary.IH(3) [OF d] N_ternary.prems(2,3)
    by (intro equiv_ternary) (auto simp: e' same_error_refl)
qed

fun propagate_list :: "node list \<Rightarrow> 'm \<Rightarrow> expr_error + node list" where
  "propagate_list [] m = Inr []"
| "propagate_list (n # ns) m =
     and_then (propagate n m) (\<lambda>(n', m1). and_then (propagate_list ns m1) (\<lambda>ns'. Inr (n' # ns')))"

lemma list_correct:
  "propagate_list ns m = Inr ns' \<Longrightarrow> \<forall>n \<in> set ns. unconditional n \<Longrightarrow> \<forall>n \<in> set ns'. all_assignments ok n \<Longrightarrow>
   equiv_up_to same_error (holds m) (\<lambda>_. True) (eval_nodes fp v ns) (eval_nodes fp v ns')"
proof (induction ns arbitrary: m v ns')
  case Nil
  then show ?case by (simp add: equiv_up_to_def result_sim_def)
next
  case (Cons n ns)
  then obtain n' m1 ns1 where n: "propagate n m = Inr (n', m1)" and ns: "propagate_list ns m1 = Inr ns1" and ns': "ns' = n' # ns1"
    by auto
  show ?case unfolding ns' eval_nodes.simps
    using correct [OF n] Cons.IH [OF ns] Cons.prems(2,3) by (intro equiv_up_to_then) (auto simp: ns')
qed

lemma list_keeps_statements:
  "propagate_list ns m = Inr ns' \<Longrightarrow> \<forall>n \<in> set ns. statement n \<Longrightarrow> \<forall>n \<in> set ns'. statement n"
  by (induction ns arbitrary: m ns') (auto dest: keeps_statement)

lemma eval_all_correct:
  assumes "propagate_list ns m = Inr ns'" and "\<forall>n \<in> set ns. unconditional n" and "\<forall>n \<in> set ns'. all_assignments ok n" and "holds m c"
  shows "result_sim same_error (fst (eval_all fp ns c)) (fst (eval_all fp ns' c))" and "snd (eval_all fp ns' c) = snd (eval_all fp ns c)"
  using list_correct [OF assms(1-3), of fp V_control] assms(4) unfolding equiv_up_to_def eval_all_def by blast+

end

section \<open>Soundness of constant propagation\<close>

definition constants_hold :: "constant_map \<Rightarrow> eval_context \<Rightarrow> bool" where
  "constants_hold m c \<longleftrightarrow> (\<forall>k v. m k = Some v \<longrightarrow> k \<noteq> [] \<and> ctx_ref c (hd k) = None \<and> ctx_val c k = Some v)"

lemma prefix_butlast: "k \<noteq> [] \<Longrightarrow> prefix x k \<longleftrightarrow> x = k \<or> prefix x (butlast k)"
  by (metis append_butlast_last_id prefix_snoc)

lemma erase_parents_eq: "erase_parents k m = (\<lambda>x. if x \<noteq> [] \<and> prefix x k then None else m x)"
proof (induction k m rule: erase_parents.induct)
  case (1 k m)
  show ?case
  proof (cases "k = []")
    case False
    have "erase_parents k m = erase_parents (butlast k) (m(k := None))" using False by (subst erase_parents.simps) simp
    then show ?thesis unfolding 1 [OF False] using False prefix_butlast [OF False] by (auto simp: fun_eq_iff)
  qed (simp add: erase_parents.simps)
qed

lemma remove_left_None: "x \<noteq> [] \<Longrightarrow> related k x \<Longrightarrow> remove_parents_and_children_left k m x = None"
  by (auto simp: remove_parents_and_children_left_def erase_parents_eq begins_with_prefix related_def)

lemma remove_left_le: "remove_parents_and_children_left k m x = Some v \<Longrightarrow> m x = Some v"
  by (auto simp: remove_parents_and_children_left_def erase_parents_eq split: if_splits)

lemma bind_ref_None:
  "ctx_ref c x = None \<Longrightarrow> ctx_ref (snd (bind_and_discard_ref k v c)) x = None"
  "k \<noteq> [] \<Longrightarrow> ctx_ref (snd (bind_and_discard_ref k v c)) (hd k) = None"
  by (cases k; auto simp: bind_and_discard_ref_def Let_def split: option.split)+

lemma constants_hold_bind:
  assumes "constants_hold m c"
  shows "constants_hold (remove_parents_and_children_left k m) (snd (bind_and_discard_ref k v c))"
  unfolding constants_hold_def
proof (intro allI impI)
  fix x w assume x: "remove_parents_and_children_left k m x = Some w"
  then have u: "x \<noteq> []" "ctx_ref c (hd x) = None" "ctx_val c x = Some w"
    using assms remove_left_le [OF x] unfolding constants_hold_def by auto
  have "\<not> related k x" using x remove_left_None [of x k m] u(1) by auto
  then show "x \<noteq> [] \<and> ctx_ref (snd (bind_and_discard_ref k v c)) (hd x) = None \<and>
      ctx_val (snd (bind_and_discard_ref k v c)) x = Some w"
    using u by (simp add: bind_ref_None ctx_val_bind_other)
qed

lemma constants_hold_assign:
  assumes "constants_hold m c" and "k \<noteq> []"
  shows "constants_hold ((remove_parents_and_children_left k m)(k \<mapsto> v)) (snd (bind_and_discard_ref k v c))"
  using constants_hold_bind [OF assms(1), of k v] assms(2)
  by (simp add: constants_hold_def bind_ref_None ctx_val_bind_same)

lemma constants_hold_value:
  assumes "constants_hold m c" and "m k = Some v"
  shows "context_value k c = Inr v"
proof -
  have "k \<noteq> []" "ctx_ref c (hd k) = None" "ctx_val c k = Some v" using assms unfolding constants_hold_def by auto
  then show ?thesis by (cases k) (auto simp: context_value_def ctx_val_def)
qed

lemma all_assignments_True: "all_assignments (\<lambda>_ _. True) e"
  by (induction e) (simp_all split: node.split)

interpretation constants: propagation constant_propagate replace_constant update_constants constants_hold "(=)" "\<lambda>_ _. True"
  by unfold_locales (auto simp: is_define_def Let_def replace_constant_def update_constants_def result_sim_def constants_hold_value
    constants_hold_bind constants_hold_assign split: node.splits option.splits sum.splits)

lemma constant_propagate_list_eq: "constant_propagate_list ns m = constants.propagate_list ns m"
  by (induction ns arbitrary: m) (auto intro!: and_then_cong)

lemma constants_correct:
  assumes "constant_propagation ns = Inr ns'" and "\<forall>n \<in> set ns. unconditional n"
  shows "eval_all fp ns' c = eval_all fp ns c"
proof -
  have "constants_hold (\<lambda>_. None) c" by (simp add: constants_hold_def)
  note c = constants.eval_all_correct [OF assms(1) [unfolded constant_propagation_def constant_propagate_list_eq] assms(2) _ this]
  show ?thesis using c [of fp] by (cases "fst (eval_all fp ns c)") (simp_all add: all_assignments_True result_sim_def prod_eq_iff)
qed

section \<open>Soundness of copy propagation\<close>

definition copies_hold :: "copy_map \<Rightarrow> eval_context \<Rightarrow> bool" where
  "copies_hold m c \<longleftrightarrow> ctx_wf c \<and> (\<forall>k r. m k = Some r \<longrightarrow> k \<noteq> [] \<and> r \<noteq> [] \<and> ctx_val c k \<noteq> None \<and> ctx_val c r = ctx_val c k)"

text \<open>An assignment of a part to the whole or of the whole to a part.\<close>

definition no_overlap :: "key \<Rightarrow> node \<Rightarrow> bool" where
  "no_overlap k r = (case r of N_key l \<Rightarrow> l = k \<or> \<not> related k l | _ \<Rightarrow> True)"

lemma erase_parents_both_eq: "erase_parents_both k m = erase_entries (\<lambda>x. x \<noteq> [] \<and> prefix x k) m"
proof (induction k m rule: erase_parents_both.induct)
  case (1 k m)
  show ?case
  proof (cases "k = []")
    case False
    have "erase_parents_both k m = erase_parents_both (butlast k) (erase_entries (\<lambda>x. x = k) m)"
      using False by (subst erase_parents_both.simps) simp
    then show ?thesis unfolding 1 [OF False] using False prefix_butlast [OF False]
      by (auto simp: fun_eq_iff erase_entries_def split: option.split)
  next
    case True
    then show ?thesis by (auto simp: erase_parents_both.simps fun_eq_iff erase_entries_def split: option.split)
  qed
qed

lemma remove_both_Some:
  assumes "remove_parents_and_children_both k m x = Some r" and "x \<noteq> []" and "r \<noteq> []"
  shows "m x = Some r" and "\<not> related k x" and "\<not> related k r"
  using assms by (auto simp: remove_parents_and_children_both_def erase_parents_both_eq erase_entries_def begins_with_prefix
      related_def split: option.splits if_splits)

lemma remove_both_le: "remove_parents_and_children_both k m x = Some r \<Longrightarrow> m x = Some r"
  by (auto simp: remove_parents_and_children_both_def erase_parents_both_eq erase_entries_def split: option.splits if_splits)

lemma copies_hold_bind:
  assumes "copies_hold m c"
  shows "copies_hold (remove_parents_and_children_both k m) (snd (bind_and_discard_ref k v c))"
  unfolding copies_hold_def
proof (intro conjI allI impI)
  show "ctx_wf (snd (bind_and_discard_ref k v c))" using assms by (simp add: copies_hold_def bind_wf)
  fix x r assume x: "remove_parents_and_children_both k m x = Some r"
  have m: "x \<noteq> []" "r \<noteq> []" "ctx_val c x \<noteq> None" "ctx_val c r = ctx_val c x"
    using assms remove_both_le [OF x] unfolding copies_hold_def by auto
  note nr = remove_both_Some(2,3) [OF x m(1,2)]
  show "x \<noteq> []" "r \<noteq> []" "ctx_val (snd (bind_and_discard_ref k v c)) x \<noteq> None"
    "ctx_val (snd (bind_and_discard_ref k v c)) r = ctx_val (snd (bind_and_discard_ref k v c)) x"
    using m nr by (simp_all add: ctx_val_bind_other)
qed

lemma copies_hold_assign:
  assumes "copies_hold m c" and "k \<noteq> []" and "context_value l c = Inr v" and "l = k \<or> \<not> related k l"
  shows "copies_hold ((remove_parents_and_children_both k m)(k \<mapsto> l)) (snd (bind_and_discard_ref k v c))"
proof -
  have l: "l \<noteq> []" "ctx_val c l = Some v"
    using assms(3) context_value_val [of c l] assms(1) [unfolded copies_hold_def] by (auto split: option.splits if_splits)
  have "ctx_val (snd (bind_and_discard_ref k v c)) l = Some v"
    using assms(2,4) l by (auto simp: ctx_val_bind_same ctx_val_bind_other)
  then show ?thesis
    using copies_hold_bind [OF assms(1), of k v] l(1) assms(2) by (simp add: copies_hold_def ctx_val_bind_same)
qed

lemma copies_hold_update:
  assumes "k \<noteq> []" and "no_overlap k r" and "eval fp r c = (Inr v, c')" and "copies_hold m c'"
  shows "copies_hold (update_copies k r m) (snd (bind_and_discard_ref k v c'))"
proof (cases r)
  case (N_key l)
  then have "context_value l c' = Inr v" using assms(3) by auto
  then show ?thesis using copies_hold_assign [OF assms(4,1)] assms(2) N_key by (simp add: update_copies_def no_overlap_def)
qed (simp_all add: update_copies_def copies_hold_bind assms(4))

lemma copy_key_Some:
  "copy_key p s m = Some r \<Longrightarrow> \<exists>q x t. p @ s = q @ t \<and> q \<noteq> [] \<and> m q = Some x \<and> r = x @ t"
proof (induction p s m rule: copy_key.induct)
  case (1 p s m)
  show ?case
  proof (cases "p = [] \<or> m p \<noteq> None")
    case True
    then obtain x where "p \<noteq> []" "m p = Some x" "r = x @ s"
      using 1(2) by (subst (asm) copy_key.simps) (auto split: if_splits)
    then show ?thesis by blast
  next
    case False
    then have "copy_key (butlast p) (last p # s) m = Some r" using 1(2) by (subst (asm) copy_key.simps) simp
    then have "\<exists>q x t. butlast p @ last p # s = q @ t \<and> q \<noteq> [] \<and> m q = Some x \<and> r = x @ t" using 1(1) False by simp
    moreover have "butlast p @ last p # s = p @ s" using False by (metis append_butlast_last_id append_Cons append_Nil append_assoc)
    ultimately show ?thesis by (simp only:)
  qed
qed

lemma copies_hold_replacement:
  assumes "copies_hold m c"
  shows "result_sim (\<lambda>_ _. True) (context_value k c) (fst (eval fp (replace_copy m k) c))"
proof (cases "copy_key k [] m")
  case None
  then show ?thesis by (simp add: replace_copy_def result_sim_refl)
next
  case (Some r)
  then obtain q x t where q: "k = q @ t" "q \<noteq> []" "m q = Some x" "r = x @ t" using copy_key_Some [of k "[]" m r] by auto
  then have "x \<noteq> []" "ctx_val c x = ctx_val c q" "ctx_wf c" using assms unfolding copies_hold_def by auto
  then have "ctx_val c r = ctx_val c k" using q by (simp add: ctx_val_append)
  then show ?thesis using Some \<open>ctx_wf c\<close>
    by (auto simp: replace_copy_def context_value_val result_sim_def split: option.split)
qed

interpretation copies: propagation copy_propagate replace_copy update_copies copies_hold "\<lambda>_ _. True" no_overlap
  by unfold_locales
    (auto simp: is_define_def copies_hold_replacement copies_hold_update, simp_all add: replace_copy_def)

lemma copy_propagate_list_eq: "copy_propagate_list ns m = copies.propagate_list ns m"
  by (induction ns arbitrary: m) (auto intro!: and_then_cong)

lemma copies_correct:
  assumes "copy_propagation ns = Inr ns'" and "\<forall>n \<in> set ns. unconditional n" and "\<forall>n \<in> set ns'. all_assignments no_overlap n"
    and "ctx_wf c"
  shows "(case fst (eval_all fp ns c) of Inr v \<Rightarrow> fst (eval_all fp ns' c) = Inr v
           | Inl e \<Rightarrow> \<exists>e'. fst (eval_all fp ns' c) = Inl e') \<and>
         snd (eval_all fp ns' c) = snd (eval_all fp ns c)"
proof -
  have "copies_hold (\<lambda>_. None) c" using assms(4) by (simp add: copies_hold_def)
  note c = copies.eval_all_correct [OF assms(1) [unfolded copy_propagation_def copy_propagate_list_eq] assms(2,3) this]
  show ?thesis using c [of fp] by (cases "fst (eval_all fp ns c)") (auto simp: result_sim_def)
qed

section \<open>Soundness of dead code elimination\<close>

primrec keys :: "node \<Rightarrow> key set" where
  "keys (N_value v) = {}"
| "keys (N_key k) = {k}"
| "keys (N_unary t u) = keys u"
| "keys (N_binary t l r) = keys l \<union> keys r"
| "keys (N_ternary t a b d) = keys a \<union> keys b \<union> keys d"

definition ctx_agree :: "key set \<Rightarrow> eval_context \<Rightarrow> eval_context \<Rightarrow> bool" where
  "ctx_agree R c d \<longleftrightarrow> ctx_wf c \<and> ctx_wf d \<and> (\<forall>k \<in> R. ctx_val c k = ctx_val d k)"

lemma ctx_agree_mono: "ctx_agree R c d \<Longrightarrow> S \<subseteq> R \<Longrightarrow> ctx_agree S c d"
  by (auto simp: ctx_agree_def)

lemma parent_referenced_iff: "parent_referenced k names \<longleftrightarrow> (\<exists>x \<in> names. x \<noteq> [] \<and> prefix x k)"
proof (induction k names rule: parent_referenced.induct)
  case (1 k names)
  show ?case
  proof (cases "k = []")
    case False
    then show ?thesis using 1 by (subst parent_referenced.simps) (auto simp: prefix_butlast)
  qed (simp add: parent_referenced.simps)
qed

lemma not_referenced: "\<not> variable_or_member_referenced k names \<Longrightarrow> x \<in> names \<Longrightarrow> x \<noteq> [] \<Longrightarrow> \<not> related k x"
  by (auto simp: variable_or_member_referenced_def parent_referenced_iff begins_with_prefix related_def)

lemma then_cong_fst:
  assumes "fst (m c) = fst (m d)" and "\<And>c. snd (m c) = c" and "\<And>x. fst (m c) = Inr x \<Longrightarrow> fst (f x c) = fst (f x d)"
  shows "fst (ev_then m f c) = fst (ev_then m f d)"
  using assms(1) assms(2) [of c] assms(2) [of d] assms(3)
  by (cases "m c"; cases "m d") (auto simp: ev_then_def split: sum.split)

lemma pure_result: "fst (ev_result x c) = fst (ev_result x d)" "fst (get_bool w c) = fst (get_bool w d)"
  "fst (map_assign_value a b e c) = fst (map_assign_value a b e d)"
  by (simp_all add: ev_result_def get_bool_def map_assign_value_def)

lemma eval_agree:
  "no_assignment e \<Longrightarrow> ctx_agree (keys e) c d \<Longrightarrow> fst (eval fp e c) = fst (eval fp e d)"
proof (induction e)
  case (N_key k)
  then show ?case by (simp add: ctx_agree_def context_value_val)
next
  case (N_unary t u)
  then show ?case by (auto intro!: then_cong_fst pure_result eval_pure)
next
  case (N_binary t l r)
  have IH: "fst (eval fp l c) = fst (eval fp l d)" "fst (eval fp r c) = fst (eval fp r d)"
    and p: "\<And>c. snd (eval fp l c) = c" "\<And>c. snd (eval fp r c) = c"
    using N_binary by (auto intro: ctx_agree_mono eval_pure)
  show ?case using N_binary.prems(1)
    by (auto simp: is_define_def intro!: then_cong_fst IH p pure_result pure_evaluations)
next
  case (N_ternary t a b e)
  have IH: "fst (eval fp a c) = fst (eval fp a d)" "fst (eval fp b c) = fst (eval fp b d)" "fst (eval fp e c) = fst (eval fp e d)"
    and p: "\<And>c. snd (eval fp a c) = c" "\<And>c. snd (eval fp b c) = c" "\<And>c. snd (eval fp e c) = c"
    using N_ternary by (auto intro: ctx_agree_mono eval_pure)
  show ?case by (auto intro!: then_cong_fst IH p pure_result pure_evaluations)
qed simp

lemma eliminate_pure: "no_assignment e \<Longrightarrow> eliminate e s = Inr (e, fst s \<union> keys e, snd s)"
  by (induction e arbitrary: s) (auto simp: is_define_def Un_ac)

text \<open>An assignment executed in both contexts, and one executed in the first context only.\<close>

lemma ctx_agree_bind:
  assumes "ctx_agree R c d" and "k \<noteq> []" and "\<forall>x \<in> S. x \<in> R \<or> prefix k x"
  shows "ctx_agree S (snd (bind_and_discard_ref k v c)) (snd (bind_and_discard_ref k v d))"
proof -
  have "ctx_val (snd (bind_and_discard_ref k v c)) x = ctx_val (snd (bind_and_discard_ref k v d)) x" if "x \<in> S" for x
  proof -
    consider "x = []" | y where "x = k @ y" | y where "k = x @ y" "x \<noteq> []" | "\<not> related k x"
      unfolding related_def prefix_def by blast
    then show ?thesis
    proof cases
      case 2
      then show ?thesis using assms(2) by (simp add: ctx_val_bind_below)
    next
      case 3
      then show ?thesis using that assms by (cases "x = k") (auto simp: ctx_val_bind_same ctx_val_bind_above ctx_agree_def)
    next
      case 4
      then show ?thesis using that assms by (auto simp: ctx_val_bind_other ctx_agree_def related_def)
    qed simp
  qed
  then show ?thesis using assms(1) by (simp add: ctx_agree_def bind_wf)
qed

lemma ctx_agree_drop:
  assumes "ctx_agree R c d" and "\<And>x. x \<in> S \<Longrightarrow> x \<noteq> [] \<Longrightarrow> x \<in> R \<and> \<not> related k x"
  shows "ctx_agree S (snd (bind_and_discard_ref k v c)) d"
proof -
  have "ctx_val (snd (bind_and_discard_ref k v c)) x = ctx_val d x" if "x \<in> S" for x
    using assms that by (cases "x = []") (auto simp: ctx_val_bind_other ctx_agree_def)
  then show ?thesis using assms(1) by (simp add: ctx_agree_def bind_wf)
qed

lemma eliminate_statement:
  assumes n: "statement n" and e: "eliminate n (S, False) = Inr (n', R, kept)" and a: "ctx_agree R c d"
    and ev: "eval fp n c = (Inr v, c')"
  shows "if kept then \<exists>d'. eval fp n' d = (Inr v, d') \<and> ctx_agree S c' d' else ctx_agree S c' d"
proof (cases "no_assignment n")
  case True
  then have "c' = c" "\<not> kept" "S \<subseteq> R" using e eval_pure [OF True, of fp c] ev by (auto simp: eliminate_pure)
  then show ?thesis using ctx_agree_mono [OF a] by simp
next
  case False
  then obtain k r where n: "n = N_binary t_define (N_key k) r" and r: "no_assignment r" using n by (auto simp: statement_def)
  let ?S = "{x \<in> S. \<not> prefix k x}"
  have el: "R = ?S \<union> keys r" "kept = variable_or_member_referenced k S" "kept \<Longrightarrow> n' = n"
    using e by (auto simp: n is_define_def Let_def eliminate_pure [OF r] begins_with_prefix split: if_splits)
  have k: "k \<noteq> []" and vr: "fst (eval fp r c) = Inr v" and c': "c' = snd (bind_and_discard_ref k v c)"
    using ev [unfolded n eval_define] eval_pure [OF r, of fp c] by (auto split: prod.splits sum.splits if_splits)
  show ?thesis
  proof (cases kept)
    case True
    have "fst (eval fp r d) = Inr v" using eval_agree [OF r ctx_agree_mono [OF a]] vr el(1) by auto
    then have "eval fp n' d = (Inr v, snd (bind_and_discard_ref k v d))"
      unfolding el(3) [OF True] n eval_define using k eval_pure [OF r, of fp d] by (cases "eval fp r d") simp
    moreover have "ctx_agree S c' (snd (bind_and_discard_ref k v d))"
      unfolding c' by (rule ctx_agree_bind [OF a k]) (auto simp: el(1))
    ultimately show ?thesis using True by auto
  next
    case False
    then have "ctx_agree S c' d"
      unfolding c' using not_referenced [of k S] el(1,2) by (intro ctx_agree_drop [OF a]) (auto simp: related_def)
    then show ?thesis using False by simp
  qed
qed

lemma eliminate_list_correct:
  assumes "\<forall>n \<in> set ns. statement n" and "eliminate_list ns S = Inr (ns', R)" and "ctx_agree R c d"
    and "eval_nodes fp v ns c = (Inr w, c')"
  shows "\<exists>w' d'. eval_nodes fp v' ns' d = (Inr w', d') \<and> ctx_agree S c' d'"
  using assms
proof (induction ns arbitrary: ns' R c d v v')
  case Nil
  then show ?case by auto
next
  case (Cons n ns)
  obtain ns1 R1 n' kept where l: "eliminate_list ns S = Inr (ns1, R1)" and n: "eliminate n (R1, False) = Inr (n', R, kept)"
    and ns': "ns' = (if kept then n' # ns1 else ns1)" using Cons.prems(2) by auto
  obtain u c1 where u: "eval fp n c = (Inr u, c1)" and ns: "eval_nodes fp u ns c1 = (Inr w, c')"
    using Cons.prems(4) by (auto simp: ev_then_def split: prod.splits sum.splits)
  have st: "statement n" "\<forall>n \<in> set ns. statement n" using Cons.prems(1) by auto
  show ?case
  proof (cases kept)
    case True
    then obtain d1 where d1: "eval fp n' d = (Inr u, d1)" "ctx_agree R1 c1 d1"
      using eliminate_statement [OF st(1) n Cons.prems(3) u] by auto
    then show ?thesis using Cons.IH [OF st(2) l d1(2) ns, of u] True by (simp add: ns' ev_then_def)
  next
    case False
    then have "ctx_agree R1 c1 d" using eliminate_statement [OF st(1) n Cons.prems(3) u] by simp
    then show ?thesis using Cons.IH [OF st(2) l _ ns, of d v'] False by (simp add: ns')
  qed
qed

lemma elimination_correct:
  assumes "dead_code_elimination ns needed = Inr ns'" and "\<forall>n \<in> set ns. statement n" and "ctx_wf c"
    and "eval_all fp ns c = (Inr v, d)"
  shows "\<exists>v' d'. eval_all fp ns' c = (Inr v', d') \<and> (\<forall>k \<in> needed. context_value k d' = context_value k d)"
proof -
  obtain R where R: "eliminate_list ns needed = Inr (ns', R)" using assms(1) by (auto simp: dead_code_elimination_def)
  have "ctx_agree R c c" using assms(3) by (simp add: ctx_agree_def)
  from eliminate_list_correct [OF assms(2) R this assms(4) [unfolded eval_all_def], of V_control]
  show ?thesis unfolding eval_all_def by (auto simp: ctx_agree_def context_value_val)
qed

section \<open>Properties\<close>

text \<open>
  C31: Constant propagation preserves the value, the error and the effect of a sequence of expressions in which
  no assignment is the right operand of a short-circuit operator.
\<close>

theorem constant_propagation_correct:
  assumes "constant_propagation ns = Inr ns'" and "\<forall>n \<in> set ns. unconditional n"
  shows "eval_all fp ns' c = eval_all fp ns c"
  by (rule constants_correct [OF assms])

theorem constant_propagation_correct_witness:
  "let ns = [assign [''a''] (N_value (V_int 1)), assign [''b''] (N_key [''a''])];
       ns' = [assign [''a''] (N_value (V_int 1)), assign [''b''] (N_value (V_int 1))]
   in constant_propagation ns = Inr ns' \<and> eval_all fp_example ns' empty_context = eval_all fp_example ns empty_context"
proof -
  let ?ns = "[assign [''a''] (N_value (V_int 1)), assign [''b''] (N_key [''a''])]"
  let ?ns' = "[assign [''a''] (N_value (V_int 1)), assign [''b''] (N_value (V_int 1))]"
  have p: "constant_propagation ?ns = Inr ?ns'" by code_simp
  have "\<forall>n \<in> set ?ns. unconditional n" by (simp add: assign_def)
  from constant_propagation_correct [OF p this] show ?thesis unfolding Let_def using p by blast
qed



text \<open>
  C33: Dead code elimination refines a sequence of statements: if the sequence succeeds, then so does the
  reduced one, and all needed bindings have the same values afterwards.
\<close>

theorem dead_code_elimination_correct:
  assumes "dead_code_elimination ns needed = Inr ns'" and "\<forall>n \<in> set ns. statement n" and "ctx_wf c"
    and "eval_all fp ns c = (Inr v, d)"
  shows "\<exists>v' d'. eval_all fp ns' c = (Inr v', d') \<and> (\<forall>k \<in> needed. context_value k d' = context_value k d)"
  by (rule elimination_correct [OF assms])

theorem dead_code_elimination_correct_witness:
  "let ns = [assign [''a''] (N_value (V_int 1)), assign [''b''] (N_value (V_int 2))]; ns' = [assign [''b''] (N_value (V_int 2))]
   in dead_code_elimination ns {[''b'']} = Inr ns' \<and>
      (\<exists>v d v' d'. eval_all fp_example ns empty_context = (Inr v, d) \<and> eval_all fp_example ns' empty_context = (Inr v', d') \<and>
         context_value [''b''] d' = context_value [''b''] d)"
proof -
  let ?ns = "[assign [''a''] (N_value (V_int 1)), assign [''b''] (N_value (V_int 2))]"
  let ?ns' = "[assign [''b''] (N_value (V_int 2))]"
  have p: "dead_code_elimination ?ns {[''b'']} = Inr ?ns'" by code_simp
  have u: "\<forall>n \<in> set ?ns. statement n" by (simp add: assign_def statement_def)
  have w: "ctx_wf empty_context" by (simp add: ctx_wf_def empty_context_def)
  have "fst (eval_all fp_example ?ns empty_context) = Inr (V_int 2)" by code_simp
  then obtain d where e: "eval_all fp_example ?ns empty_context = (Inr (V_int 2), d)" by (metis prod.collapse)
  from dead_code_elimination_correct [OF p u w e] show ?thesis unfolding Let_def using p e by blast
qed




end
