(* ===== verification/Net.thy ===== *)
theory Net
  imports Expr
begin

text \<open>
  The Petri nets of the workflow engine: \<^verbatim>\<open>src/we/type/net.cpp\<close> with the data of
  \<^verbatim>\<open>net.hpp\<close>, \<^verbatim>\<open>place.hpp\<close>, \<^verbatim>\<open>port.hpp\<close>, \<^verbatim>\<open>transition.hpp\<close>,
  \<^verbatim>\<open>property.hpp\<close> and \<^verbatim>\<open>id.hpp\<close>.

  \<^item> The identifiers are counters that start at 0; they are natural numbers here, since no program counts to
    \<open>2 ^ 64\<close>.
  \<^item> A hash map from places, names or transitions is a function with \<^const>\<open>None\<close> for a missing key, a bimap of
    places and transitions is a list of pairs, the tokens of a place are an association list. The order in which the code
    visits such a container is not specified; in the model it is the order of insertion.
  \<^item> The map \<^verbatim>\<open>_enabled\<close> from priorities to sets of transitions is ordered, the greatest priority first.
  \<^item> The iterators of \<^verbatim>\<open>cross_type\<close> are the lists of the tokens from the position to the end. The
    places that the condition refers to are marked in the slots.
  \<^item> An operation gets the state of the net and returns an error or a value, with the state in which it
    leaves the net in both cases. The map of transitions is read only by them and is an argument of its own.
  \<^item> The module calls of a transition are a parameter of the type, they play no role for nets.
\<close>

section \<open>Identifiers, properties, places and ports\<close>

type_synonym place_id = nat
type_synonym port_id = nat
type_synonym transition_id = nat
type_synonym token_id = nat
type_synonym priority = int
type_synonym property = value_type
type_synonym tokens = "(token_id \<times> value_type) list"

definition property_empty :: property where
  "property_empty = V_struct []"

definition property_set :: "string list \<Rightarrow> value_type \<Rightarrow> property \<Rightarrow> property" where
  "property_set path v p = poke path p v"

definition property_get :: "string list \<Rightarrow> property \<Rightarrow> value_type option" where
  "property_get path p = peek path p"

record place =
  place_name :: string
  place_signature :: signature_type
  place_put_token :: "bool option"
  place_prop :: property

definition is_marked_for_put_token :: "place \<Rightarrow> bool" where
  "is_marked_for_put_token p \<longleftrightarrow> place_put_token p = Some True"

datatype port_direction = PORT_IN | PORT_OUT | PORT_TUNNEL

record port =
  port_name :: string
  port_direction_of :: port_direction
  port_signature :: signature_type
  associated_place :: "place_id option"
  port_properties :: property

record expression =
  expression_text :: string
  ast :: "node list"

section \<open>Nets\<close>

datatype edge = PT | PT_READ | TP | TP_MANY

record net_state =
  next_place :: place_id
  pmap :: "place_id \<Rightarrow> place option"
  place_id_by_name :: "string \<Rightarrow> place_id option"
  next_transition :: transition_id
  adj_pt_consume :: "(place_id \<times> transition_id) list"
  adj_pt_read :: "(place_id \<times> transition_id) list"
  adj_tp :: "(place_id \<times> transition_id) list"
  port_to_place :: "transition_id \<Rightarrow> port_id \<Rightarrow> (place_id \<times> property) option"
  port_many_to_place :: "transition_id \<Rightarrow> port_id \<Rightarrow> (place_id \<times> property) option"
  port_to_eureka :: "transition_id \<Rightarrow> port_id option"
  port_to_response :: "transition_id \<Rightarrow> port_id \<Rightarrow> (string \<times> property) option"
  place_to_port :: "transition_id \<Rightarrow> place_id \<Rightarrow> (port_id \<times> property) option"
  next_token :: token_id
  token_by_place_id :: "place_id \<Rightarrow> tokens"
  enabled :: "(priority \<times> transition_id list) list"
  enabled_choice :: "transition_id \<Rightarrow> (place_id \<times> token_id \<times> bool) list option"

record transition_info =
  transition_name :: string
  condition :: "expression option"
  ports_input :: "(port_id \<times> port) list"
  ports_output :: "(port_id \<times> port) list"
  ports_tunnel :: "(port_id \<times> port) list"
  port_id_counter :: port_id
  transition_prop :: property
  requirements :: "(string \<times> bool) list"
  preferences :: "string list"
  priority :: priority
  eureka_id :: "string option"

datatype 'm transition = Transition (info: transition_info) (data: "'m transition_data")
  and 'm transition_data =
    Module_call 'm
  | Multi_module_call "(string \<times> 'm) list"
  | Expression expression
  | Sub_net "'m net"
  and 'm net = Net (state: net_state) (transitions: "(transition_id \<times> 'm transition) list")

type_synonym 'm tmap = "(transition_id \<times> 'm transition) list"

definition empty_net_state :: net_state where
  "empty_net_state = \<lparr>next_place = 0, pmap = (\<lambda>_. None), place_id_by_name = (\<lambda>_. None), next_transition = 0,
     adj_pt_consume = [], adj_pt_read = [], adj_tp = [], port_to_place = (\<lambda>_ _. None), port_many_to_place = (\<lambda>_ _. None),
     port_to_eureka = (\<lambda>_. None), port_to_response = (\<lambda>_ _. None), place_to_port = (\<lambda>_ _. None), next_token = 0,
     token_by_place_id = (\<lambda>_. []), enabled = [], enabled_choice = (\<lambda>_. None)\<rparr>"

datatype net_error =
    duplicate_place string
  | duplicate_out_and_out_many
  | duplicate_connection
  | duplicate_read_connection
  | duplicate_response
  | duplicate_eureka
  | place_not_found string value_type
  | place_not_marked string value_type
  | type_failed type_error
  | expression_failed expr_error
  | net_bad_get
  | map_at
  | port_unknown string string
  | port_not_associated string string
  | input_after_evaluation_context
  | no_context_for_net
  | output_for_net
  | preferences_without_targets
  | unknown_plugin u64
  | unexpected_eureka "string list"
  | nested_error string net_error
  | external_error string
  | runtime_error string
  | logic_error string
  | assertion_failed
  | undefined_behaviour_in_net

section \<open>Operations with errors and a state\<close>

type_synonym ('s, 'a) operation = "'s \<Rightarrow> (net_error + 'a) \<times> 's"

definition op_return :: "'a \<Rightarrow> ('s, 'a) operation" where
  "op_return x = (\<lambda>s. (Inr x, s))"

definition op_throw :: "net_error \<Rightarrow> ('s, 'a) operation" where
  "op_throw e = (\<lambda>s. (Inl e, s))"

definition op_then :: "('s, 'a) operation \<Rightarrow> ('a \<Rightarrow> ('s, 'b) operation) \<Rightarrow> ('s, 'b) operation" where
  "op_then m f = (\<lambda>s. case m s of (Inl e, s') \<Rightarrow> (Inl e, s') | (Inr x, s') \<Rightarrow> f x s')"

definition op_get :: "('s \<Rightarrow> 'a) \<Rightarrow> ('s, 'a) operation" where
  "op_get f = (\<lambda>s. (Inr (f s), s))"

definition op_modify :: "('s \<Rightarrow> 's) \<Rightarrow> ('s, unit) operation" where
  "op_modify f = (\<lambda>s. (Inr (), f s))"

definition op_result :: "net_error + 'a \<Rightarrow> ('s, 'a) operation" where
  "op_result r = (\<lambda>s. (r, s))"

fun op_for_each :: "('a \<Rightarrow> ('s, unit) operation) \<Rightarrow> 'a list \<Rightarrow> ('s, unit) operation" where
  "op_for_each f [] = op_return ()"
| "op_for_each f (x # xs) = op_then (f x) (\<lambda>_. op_for_each f xs)"

definition at :: "'a option \<Rightarrow> net_error + 'a" where
  "at x = (case x of Some y \<Rightarrow> Inr y | None \<Rightarrow> Inl map_at)"

definition lift_expr :: "expr_error + 'a \<Rightarrow> net_error + 'a" where
  "lift_expr r = (case r of Inl e \<Rightarrow> Inl (expression_failed e) | Inr x \<Rightarrow> Inr x)"

section \<open>Construction\<close>

definition add_place :: "place \<Rightarrow> (net_state, place_id) operation" where
  "add_place p =
     op_then (op_get next_place) (\<lambda>pid.
     op_then (op_modify (\<lambda>s. s\<lparr>next_place := pid + 1, pmap := (pmap s)(pid \<mapsto> p)\<rparr>)) (\<lambda>_.
     op_then (op_get (\<lambda>s. place_id_by_name s (place_name p))) (\<lambda>known.
     if known \<noteq> None then op_throw (duplicate_place (place_name p))
     else op_then (op_modify (\<lambda>s. s\<lparr>place_id_by_name := (place_id_by_name s)(place_name p \<mapsto> pid)\<rparr>)) (\<lambda>_.
          op_return pid))))"

definition add_transition :: "'m transition \<Rightarrow> 'm net \<Rightarrow> transition_id \<times> 'm net" where
  "add_transition t n =
     (let tid = next_transition (state n)
      in (tid, Net ((state n)\<lparr>next_transition := tid + 1\<rparr>) (transitions n @ [(tid, t)])))"

definition insert_adj :: "place_id \<times> transition_id \<Rightarrow> (place_id \<times> transition_id) list \<Rightarrow> (place_id \<times> transition_id) list" where
  "insert_adj e adj = (if e \<in> set adj then adj else adj @ [e])"

definition places_of :: "transition_id \<Rightarrow> (place_id \<times> transition_id) list \<Rightarrow> place_id list" where
  "places_of tid adj = map fst (filter (\<lambda>e. snd e = tid) adj)"

definition transitions_of :: "place_id \<Rightarrow> (place_id \<times> transition_id) list \<Rightarrow> transition_id list" where
  "transitions_of pid adj = map snd (filter (\<lambda>e. fst e = pid) adj)"

section \<open>The search for an enabling combination of tokens\<close>

record slot =
  slot_place :: place_id
  slot_begin :: tokens
  slot_pos :: tokens
  slot_read :: bool
  slot_name :: string
  slot_referenced :: bool

definition input_port_name :: "net_state \<Rightarrow> transition_id \<Rightarrow> transition_info \<Rightarrow> place_id \<Rightarrow> net_error + string" where
  "input_port_name s tid t pid =
     and_then (at (place_to_port s tid pid)) (\<lambda>(port, _).
     case map_of (ports_input t) port of
       Some p \<Rightarrow> Inr (port_name p)
     | None \<Rightarrow> and_then (at (map_of (ports_tunnel t) port)) (\<lambda>p. Inr (port_name p)))"

definition cross_push :: "place_id \<Rightarrow> tokens \<Rightarrow> bool \<Rightarrow> string \<Rightarrow> string set \<Rightarrow> slot list \<Rightarrow> slot list" where
  "cross_push pid toks is_read name roots m =
     (if pid \<in> slot_place ` set m then m
      else m @ [\<lparr>slot_place = pid, slot_begin = toks, slot_pos = toks, slot_read = is_read, slot_name = name,
                 slot_referenced = (name \<in> roots)\<rparr>])"

fun do_step :: "slot list \<Rightarrow> bool \<times> slot list" where
  "do_step [] = (False, [])"
| "do_step (s # ss) =
     (if slot_referenced s then
        (let next = tl (slot_pos s)
         in if next \<noteq> [] then (True, s\<lparr>slot_pos := next\<rparr> # ss)
            else (case do_step ss of (b, ss') \<Rightarrow> (b, s\<lparr>slot_pos := slot_begin s\<rparr> # ss')))
      else (case do_step ss of (b, ss') \<Rightarrow> (b, s # ss')))"

definition bind_slot :: "slot \<Rightarrow> eval_context \<Rightarrow> eval_context" where
  "bind_slot s c = bind_ref (slot_name s) (snd (hd (slot_pos s))) c"

definition cross_context :: "slot list \<Rightarrow> eval_context" where
  "cross_context m = fold bind_slot (filter slot_referenced m) empty_context"

fun steps_left :: "slot list \<Rightarrow> nat" where
  "steps_left [] = 0"
| "steps_left (s # ss) =
     (if slot_referenced s then length (slot_pos s) + (length (slot_begin s) + 1) * steps_left ss else steps_left ss)"

lemma do_step_decreases: "do_step m = (True, m') \<Longrightarrow> steps_left m' < steps_left m"
proof (induction m arbitrary: m')
  case (Cons s ss)
  show ?case
  proof (cases "slot_referenced s \<and> tl (slot_pos s) = []")
    case True
    then obtain ss' where m': "m' = s\<lparr>slot_pos := slot_begin s\<rparr> # ss'" and ss: "do_step ss = (True, ss')"
      using Cons.prems by (auto simp: Let_def split: prod.splits)
    have "Suc (steps_left ss') \<le> steps_left ss" using Cons.IH [OF ss] by simp
    then have "(length (slot_begin s) + 1) * Suc (steps_left ss') \<le> (length (slot_begin s) + 1) * steps_left ss"
      by (rule mult_le_mono2)
    then show ?thesis using True by (simp add: m')
  next
    case False
    then show ?thesis using Cons by (auto simp: Let_def split: prod.splits if_splits) (cases "slot_pos s"; simp)+
  qed
qed simp

function enables_loop :: "fp_ops \<Rightarrow> node list \<Rightarrow> slot list \<Rightarrow> net_error + bool \<times> slot list" where
  "enables_loop fp cond m =
     (case fst (eval_all fp cond (cross_context m)) of
        Inl e \<Rightarrow> Inl (expression_failed e)
      | Inr (V_bool True) \<Rightarrow> Inr (True, m)
      | Inr (V_bool False) \<Rightarrow>
          (case do_step m of
             (True, m') \<Rightarrow> enables_loop fp cond m'
           | (False, m') \<Rightarrow> Inr (False, m'))
      | Inr _ \<Rightarrow> Inl net_bad_get)"
  by auto
termination
  by (relation "measure (\<lambda>(_, _, m). steps_left m)") (auto dest: do_step_decreases [OF sym])

declare enables_loop.simps [simp del]

definition enables :: "fp_ops \<Rightarrow> transition_info \<Rightarrow> slot list \<Rightarrow> net_error + bool \<times> slot list" where
  "enables fp t m =
     (if length m < length (ports_input t) then Inr (False, m)
      else case condition t of None \<Rightarrow> Inr (True, m) | Some e \<Rightarrow> enables_loop fp (ast e) m)"

fun update_key :: "'k \<Rightarrow> 'v \<Rightarrow> ('k \<times> 'v) list \<Rightarrow> ('k \<times> 'v) list" where
  "update_key k v [] = [(k, v)]"
| "update_key k v ((l, w) # m) = (if l = k then (l, v) # m else (l, w) # update_key k v m)"

definition write_to :: "slot list \<Rightarrow> (place_id \<times> token_id \<times> bool) list \<Rightarrow> (place_id \<times> token_id \<times> bool) list" where
  "write_to m choice = fold (\<lambda>s. update_key (slot_place s) (fst (hd (slot_pos s)), slot_read s)) m choice"

section \<open>Enabled transitions\<close>

fun enabled_insert :: "priority \<Rightarrow> transition_id \<Rightarrow> (priority \<times> transition_id list) list \<Rightarrow> (priority \<times> transition_id list) list" where
  "enabled_insert p t [] = [(p, [t])]"
| "enabled_insert p t ((q, ts) # e) =
     (if q = p then (q, if t \<in> set ts then ts else ts @ [t]) # e
      else if q < p then (p, [t]) # (q, ts) # e
      else (q, ts) # enabled_insert p t e)"

fun enabled_erase :: "priority \<Rightarrow> transition_id \<Rightarrow> (priority \<times> transition_id list) list \<Rightarrow> (priority \<times> transition_id list) list" where
  "enabled_erase p t [] = []"
| "enabled_erase p t ((q, ts) # e) =
     (if q = p then (let ts' = removeAll t ts in if ts' = [] then e else (q, ts') # e)
      else (q, ts) # enabled_erase p t e)"

definition is_enabled :: "priority \<Rightarrow> transition_id \<Rightarrow> net_state \<Rightarrow> bool" where
  "is_enabled p t s = (case map_of (enabled s) p of Some ts \<Rightarrow> t \<in> set ts | None \<Rightarrow> False)"

definition disable :: "'m tmap \<Rightarrow> transition_id \<Rightarrow> (net_state, unit) operation" where
  "disable tm tid =
     op_then (op_result (at (map_of tm tid))) (\<lambda>t.
     op_modify (\<lambda>s. s\<lparr>enabled := enabled_erase (priority (info t)) tid (enabled s),
                      enabled_choice := (enabled_choice s)(tid := None)\<rparr>))"

fun push_all :: "(place_id \<Rightarrow> net_error + tokens) \<Rightarrow> (place_id \<Rightarrow> net_error + string) \<Rightarrow> string set \<Rightarrow> bool \<Rightarrow>
  place_id list \<Rightarrow> slot list \<Rightarrow> net_error + slot list option" where
  "push_all toks names roots is_read [] m = Inr (Some m)"
| "push_all toks names roots is_read (pid # pids) m =
     and_then (toks pid) (\<lambda>ts.
     if ts = [] then Inr None
     else and_then (names pid) (\<lambda>name.
          push_all toks names roots is_read pids (cross_push pid ts is_read name roots m)))"

text \<open>The common part of the two functions that bring the state of a transition up to date.\<close>

definition condition_key_roots :: "transition_info \<Rightarrow> net_error + string set" where
  "condition_key_roots t = (case condition t of None \<Rightarrow> Inr {} | Some e \<Rightarrow> lift_expr (key_roots_of (ast e) {}))"

definition collect_slots :: "(place_id \<Rightarrow> net_error + tokens) \<Rightarrow> net_state \<Rightarrow> transition_id \<Rightarrow> transition_info \<Rightarrow> string set \<Rightarrow>
  net_error + slot list option" where
  "collect_slots toks s tid t roots =
     and_then (push_all toks (input_port_name s tid t) roots False (places_of tid (adj_pt_consume s)) []) (\<lambda>r.
     case r of
       None \<Rightarrow> Inr None
     | Some m \<Rightarrow> push_all toks (input_port_name s tid t) roots True (places_of tid (adj_pt_read s)) m)"

definition decide_enabled :: "fp_ops \<Rightarrow> 'm tmap \<Rightarrow> transition_id \<Rightarrow> 'm transition \<Rightarrow> slot list \<Rightarrow> (net_state, unit) operation" where
  "decide_enabled fp tm tid t m =
     op_then (op_result (enables fp (info t) m)) (\<lambda>(b, m').
     if b then
       op_modify (\<lambda>s. s\<lparr>enabled := enabled_insert (priority (info t)) tid (enabled s),
         enabled_choice := (enabled_choice s)(tid \<mapsto>
           write_to m' (case enabled_choice s tid of Some c \<Rightarrow> c | None \<Rightarrow> []))\<rparr>)
     else disable tm tid)"

definition refresh_enabled :: "fp_ops \<Rightarrow> 'm tmap \<Rightarrow> transition_id \<Rightarrow> (net_state \<Rightarrow> place_id \<Rightarrow> net_error + tokens) \<Rightarrow>
  (net_state, unit) operation" where
  "refresh_enabled fp tm tid toks =
     op_then (op_result (at (map_of tm tid))) (\<lambda>t.
     op_then (op_result (condition_key_roots (info t))) (\<lambda>roots.
     op_then (\<lambda>s. (collect_slots (toks s) s tid (info t) roots, s)) (\<lambda>slots.
     case slots of None \<Rightarrow> disable tm tid | Some m \<Rightarrow> decide_enabled fp tm tid t m)))"

definition update_enabled :: "fp_ops \<Rightarrow> 'm tmap \<Rightarrow> transition_id \<Rightarrow> (net_state, unit) operation" where
  "update_enabled fp tm tid = refresh_enabled fp tm tid (\<lambda>s pid. Inr (token_by_place_id s pid))"

definition with_new_token :: "place_id \<times> token_id \<Rightarrow> net_state \<Rightarrow> place_id \<Rightarrow> net_error + tokens" where
  "with_new_token u s pid =
     (if pid = fst u then
        (case filter (\<lambda>t. fst t = snd u) (token_by_place_id s pid) of
           [] \<Rightarrow> Inl undefined_behaviour_in_net
         | t # _ \<Rightarrow> Inr [t])
      else Inr (token_by_place_id s pid))"

definition update_enabled_put_token :: "fp_ops \<Rightarrow> 'm tmap \<Rightarrow> place_id \<times> token_id \<Rightarrow> transition_id \<Rightarrow> (net_state, unit) operation" where
  "update_enabled_put_token fp tm u tid =
     op_then (op_result (at (map_of tm tid))) (\<lambda>t.
     op_then (op_get (is_enabled (priority (info t)) tid)) (\<lambda>already.
     if already then op_return () else refresh_enabled fp tm tid (with_new_token u)))"

section \<open>Connections\<close>

definition add_connection :: "fp_ops \<Rightarrow> 'm tmap \<Rightarrow> edge \<Rightarrow> transition_id \<Rightarrow> place_id \<Rightarrow> port_id \<Rightarrow> property \<Rightarrow>
  (net_state, unit) operation" where
  "add_connection fp tm type tid pid port property =
     (case type of
        TP \<Rightarrow>
          op_then (op_get (\<lambda>s. port_many_to_place s tid port)) (\<lambda>many.
          if many \<noteq> None then op_throw duplicate_out_and_out_many
          else op_then (op_modify (\<lambda>s. s\<lparr>adj_tp := adj_tp s @ [(pid, tid)]\<rparr>)) (\<lambda>_.
          op_then (op_get (\<lambda>s. port_to_place s tid port)) (\<lambda>known.
          if known \<noteq> None then op_throw duplicate_connection
          else op_modify (\<lambda>s. s\<lparr>port_to_place := (port_to_place s)(tid := (port_to_place s tid)(port \<mapsto> (pid, property)))\<rparr>))))
      | TP_MANY \<Rightarrow>
          op_then (op_get (\<lambda>s. port_to_place s tid port)) (\<lambda>one.
          if one \<noteq> None then op_throw duplicate_out_and_out_many
          else op_then (op_modify (\<lambda>s. s\<lparr>adj_tp := adj_tp s @ [(pid, tid)]\<rparr>)) (\<lambda>_.
          op_then (op_get (\<lambda>s. port_many_to_place s tid port)) (\<lambda>known.
          if known \<noteq> None then op_throw duplicate_connection
          else op_modify (\<lambda>s. s\<lparr>port_many_to_place := (port_many_to_place s)(tid := (port_many_to_place s tid)(port \<mapsto> (pid, property)))\<rparr>))))
      | PT \<Rightarrow>
          op_then (op_modify (\<lambda>s. s\<lparr>adj_pt_consume := insert_adj (pid, tid) (adj_pt_consume s)\<rparr>)) (\<lambda>_.
          op_then (op_get (\<lambda>s. place_to_port s tid pid)) (\<lambda>known.
          if known \<noteq> None then op_throw duplicate_connection
          else op_then (op_modify (\<lambda>s. s\<lparr>place_to_port := (place_to_port s)(tid := (place_to_port s tid)(pid \<mapsto> (port, property)))\<rparr>)) (\<lambda>_.
          update_enabled fp tm tid)))
      | PT_READ \<Rightarrow>
          op_then (op_modify (\<lambda>s. s\<lparr>adj_pt_read := insert_adj (pid, tid) (adj_pt_read s)\<rparr>)) (\<lambda>_.
          op_then (op_get (\<lambda>s. place_to_port s tid pid)) (\<lambda>known.
          if known \<noteq> None then op_throw duplicate_read_connection
          else op_then (op_modify (\<lambda>s. s\<lparr>place_to_port := (place_to_port s)(tid := (place_to_port s tid)(pid \<mapsto> (port, property)))\<rparr>)) (\<lambda>_.
          update_enabled fp tm tid))))"

definition add_response :: "transition_id \<Rightarrow> port_id \<Rightarrow> string \<Rightarrow> property \<Rightarrow> (net_state, unit) operation" where
  "add_response tid port to property =
     op_then (op_get (\<lambda>s. port_to_response s tid port)) (\<lambda>known.
     if known \<noteq> None then op_throw duplicate_response
     else op_modify (\<lambda>s. s\<lparr>port_to_response := (port_to_response s)(tid := (port_to_response s tid)(port \<mapsto> (to, property)))\<rparr>))"

definition add_eureka :: "transition_id \<Rightarrow> port_id \<Rightarrow> (net_state, unit) operation" where
  "add_eureka tid port =
     op_then (op_get (\<lambda>s. port_to_eureka s tid)) (\<lambda>known.
     if known \<noteq> None then op_throw duplicate_eureka
     else op_modify (\<lambda>s. s\<lparr>port_to_eureka := (port_to_eureka s)(tid \<mapsto> port)\<rparr>))"

section \<open>Tokens\<close>

definition do_put_value :: "place_id \<Rightarrow> value_type \<Rightarrow> (net_state, place_id \<times> token_id) operation" where
  "do_put_value pid value =
     op_then (\<lambda>s. (at (pmap s pid), s)) (\<lambda>p.
     op_then (op_get next_token) (\<lambda>token.
     op_then (op_modify (\<lambda>s. s\<lparr>next_token := token + 1\<rparr>)) (\<lambda>_.
     case require_type [place_name p] value (place_signature p) of
       Inl e \<Rightarrow> op_throw (type_failed e)
     | Inr _ \<Rightarrow>
         op_then (op_modify (\<lambda>s. s\<lparr>token_by_place_id := (token_by_place_id s)(pid := token_by_place_id s pid @ [(token, value)])\<rparr>))
           (\<lambda>_. op_return (pid, token)))))"

definition adjacent :: "net_state \<Rightarrow> place_id \<Rightarrow> transition_id list" where
  "adjacent s pid = transitions_of pid (adj_pt_consume s) @ transitions_of pid (adj_pt_read s)"

definition do_update :: "fp_ops \<Rightarrow> 'm tmap \<Rightarrow> place_id \<times> token_id \<Rightarrow> (net_state, unit) operation" where
  "do_update fp tm u =
     op_then (op_get (\<lambda>s. adjacent s (fst u))) (\<lambda>tids. op_for_each (update_enabled_put_token fp tm u) tids)"

definition put_value :: "fp_ops \<Rightarrow> 'm tmap \<Rightarrow> place_id \<Rightarrow> value_type \<Rightarrow> (net_state, unit) operation" where
  "put_value fp tm pid value = op_then (do_put_value pid value) (do_update fp tm)"

definition put_token :: "fp_ops \<Rightarrow> 'm tmap \<Rightarrow> string \<Rightarrow> value_type \<Rightarrow> (net_state, unit) operation" where
  "put_token fp tm name value =
     op_then (op_get (\<lambda>s. place_id_by_name s name)) (\<lambda>known.
     case known of
       None \<Rightarrow> op_throw (place_not_found name value)
     | Some pid \<Rightarrow>
         op_then (\<lambda>s. (at (pmap s pid), s)) (\<lambda>p.
         if \<not> is_marked_for_put_token p then op_throw (place_not_marked name value)
         else put_value fp tm pid value))"

definition get_token :: "net_state \<Rightarrow> place_id \<Rightarrow> tokens" where
  "get_token s pid = token_by_place_id s pid"

section \<open>Taking the tokens of an enabled transition\<close>

fun extract_choice :: "net_state \<Rightarrow> transition_id \<Rightarrow> (port_id \<Rightarrow> value_type \<Rightarrow> 'a \<Rightarrow> net_error + 'a) \<Rightarrow>
  (place_id \<times> token_id \<times> bool) list \<Rightarrow> 'a \<Rightarrow> (place_id \<times> token_id) list \<Rightarrow> net_error + 'a \<times> (place_id \<times> token_id) list" where
  "extract_choice s tid fun [] acc deleted = Inr (acc, deleted)"
| "extract_choice s tid fun ((pid, token, is_read) # ch) acc deleted =
     and_then (at (place_to_port s tid pid)) (\<lambda>(port, _).
     and_then (at (map_of (token_by_place_id s pid) token)) (\<lambda>value.
     and_then (fun port value acc) (\<lambda>acc'.
     extract_choice s tid fun ch acc' (if is_read then deleted else (pid, token) # deleted))))"

definition do_extract :: "net_state \<Rightarrow> transition_id \<Rightarrow> (port_id \<Rightarrow> value_type \<Rightarrow> 'a \<Rightarrow> net_error + 'a) \<Rightarrow> 'a \<Rightarrow>
  net_error + 'a \<times> (place_id \<times> token_id) list" where
  "do_extract s tid fun acc =
     and_then (at (enabled_choice s tid)) (\<lambda>choice. extract_choice s tid fun choice acc [])"

definition erase_token :: "place_id \<times> token_id \<Rightarrow> (net_state, unit) operation" where
  "erase_token d =
     op_modify (\<lambda>s. s\<lparr>token_by_place_id := (token_by_place_id s)(fst d :=
       filter (\<lambda>t. fst t \<noteq> snd d) (token_by_place_id s (fst d)))\<rparr>)"

definition recheck :: "fp_ops \<Rightarrow> 'm tmap \<Rightarrow> token_id set \<Rightarrow> transition_id \<Rightarrow> (net_state, unit) operation" where
  "recheck fp tm deleted_tokens tid =
     op_then (op_result (at (map_of tm tid))) (\<lambda>t.
     op_then (op_get (is_enabled (priority (info t)) tid)) (\<lambda>already.
     if already then
       op_then (\<lambda>s. (at (enabled_choice s tid), s)) (\<lambda>choices.
       if list_ex (\<lambda>(_, token, _). token \<in> deleted_tokens) choices then update_enabled fp tm tid else op_return ())
     else op_return ()))"

definition do_delete :: "fp_ops \<Rightarrow> 'm tmap \<Rightarrow> (place_id \<times> token_id) list \<Rightarrow> (net_state, unit) operation" where
  "do_delete fp tm tokens_to_be_deleted =
     op_then (op_for_each erase_token tokens_to_be_deleted) (\<lambda>_.
     op_for_each (\<lambda>d.
       op_then (op_get (\<lambda>s. adjacent s (fst d))) (\<lambda>tids. op_for_each (recheck fp tm (snd ` set tokens_to_be_deleted)) tids))
       tokens_to_be_deleted)"

section \<open>Activities\<close>

record 'm activity =
  activity_transition :: "'m transition"
  activity_transition_id :: "transition_id option"
  activity_input :: "(value_type \<times> port_id) list"
  activity_output :: "(value_type \<times> port_id) list"
  evaluation_context_requested :: bool

definition make_activity :: "'m transition \<Rightarrow> transition_id option \<Rightarrow> 'm activity" where
  "make_activity t tid = \<lparr>activity_transition = t, activity_transition_id = tid, activity_input = [], activity_output = [],
     evaluation_context_requested = False\<rparr>"

definition add_input :: "fp_ops \<Rightarrow> port_id \<Rightarrow> value_type \<Rightarrow> 'm activity \<Rightarrow> net_error + 'm activity" where
  "add_input fp port value a =
     (if evaluation_context_requested a then Inl input_after_evaluation_context
      else case data (activity_transition a) of
        Sub_net n \<Rightarrow>
          and_then (at (map_of (ports_input (info (activity_transition a))) port)) (\<lambda>p.
          case associated_place p of
            None \<Rightarrow> Inr a
          | Some pid \<Rightarrow>
              (case put_value fp (transitions n) pid value (state n) of
                 (Inl e, s) \<Rightarrow> Inl e
               | (Inr _, s) \<Rightarrow> Inr (a\<lparr>activity_transition :=
                   Transition (info (activity_transition a)) (Sub_net (Net s (transitions n)))\<rparr>)))
      | _ \<Rightarrow> Inr (a\<lparr>activity_input := activity_input a @ [(value, port)]\<rparr>))"

definition extract_activity :: "fp_ops \<Rightarrow> 'm tmap \<Rightarrow> transition_id \<Rightarrow> 'm transition \<Rightarrow> (net_state, 'm activity) operation" where
  "extract_activity fp tm tid t =
     op_then (\<lambda>s. (do_extract s tid (add_input fp) (make_activity t (Some tid)), s)) (\<lambda>(act, tokens_to_be_deleted).
     op_then (do_delete fp tm tokens_to_be_deleted) (\<lambda>_. op_return act))"

end
