(* ===== verification/Net_Run.thy ===== *)
theory Net_Run
  imports Net
begin

text \<open>
  Running a net: \<^verbatim>\<open>fire_expressions_and_extract_activity_random\<close>, \<^verbatim>\<open>fire_expression\<close> and
  \<^verbatim>\<open>inject\<close> of \<^verbatim>\<open>src/we/type/net.cpp\<close>, and the table of plugins of
  \<^verbatim>\<open>src/we/plugin/Plugins.cpp\<close>.
\<close>

section \<open>Plugins and callbacks\<close>

text \<open>
  Plugins are shared objects written by users and the callbacks belong to the surrounding workflow engine: both
  are parameters, functions on a state \<open>'w\<close> of the world outside of the net. The table of plugins is
  \<^verbatim>\<open>Plugins\<close> of \<^verbatim>\<open>src/we/plugin/Plugins.cpp\<close>.
\<close>

record 'w environment =
  parse_expression :: "string \<Rightarrow> net_error + node list"
  workflow_response :: "value_type \<Rightarrow> value_type \<Rightarrow> 'w \<Rightarrow> (net_error + unit) \<times> 'w"
  eureka_response :: "string list \<Rightarrow> 'w \<Rightarrow> (net_error + unit) \<times> 'w"
  plugin_construct :: "string \<Rightarrow> eval_context \<Rightarrow> u64 \<Rightarrow> 'w \<Rightarrow> (net_error + unit) \<times> 'w"
  plugin_destruct :: "u64 \<Rightarrow> 'w \<Rightarrow> 'w"
  plugin_before_eval :: "u64 \<Rightarrow> eval_context \<Rightarrow> 'w \<Rightarrow> (net_error + unit) \<times> 'w"
  plugin_after_eval :: "u64 \<Rightarrow> eval_context \<Rightarrow> 'w \<Rightarrow> (net_error + unit) \<times> 'w"

record plugins =
  next_plugin :: u64
  live_plugins :: "u64 list"

record 'w run =
  run_net :: net_state
  run_plugins :: plugins
  run_world :: 'w

definition on_net :: "(net_state, 'a) operation \<Rightarrow> ('w run, 'a) operation" where
  "on_net f r = (case f (run_net r) of (x, s) \<Rightarrow> (x, r\<lparr>run_net := s\<rparr>))"

definition on_world :: "('w, 'a) operation \<Rightarrow> ('w run, 'a) operation" where
  "on_world f r = (case f (run_world r) of (x, w) \<Rightarrow> (x, r\<lparr>run_world := w\<rparr>))"

definition plugins_create :: "'w environment \<Rightarrow> string \<Rightarrow> eval_context \<Rightarrow> ('w run, u64) operation" where
  "plugins_create env path c =
     op_then (op_get (next_plugin \<circ> run_plugins)) (\<lambda>pid.
     op_then (op_modify (\<lambda>r. r\<lparr>run_plugins := (run_plugins r)\<lparr>next_plugin := pid + 1\<rparr>\<rparr>)) (\<lambda>_.
     op_then (on_world (plugin_construct env path c pid)) (\<lambda>_.
     op_then (op_modify (\<lambda>r. r\<lparr>run_plugins := (run_plugins r)\<lparr>live_plugins := live_plugins (run_plugins r) @ [pid]\<rparr>\<rparr>)) (\<lambda>_.
     op_return pid))))"

definition plugins_at :: "u64 \<Rightarrow> ('w run, unit) operation" where
  "plugins_at pid r = (if pid \<in> set (live_plugins (run_plugins r)) then Inr () else Inl (unknown_plugin pid), r)"

definition plugins_destroy :: "'w environment \<Rightarrow> u64 \<Rightarrow> ('w run, unit) operation" where
  "plugins_destroy env pid =
     op_then (plugins_at pid) (\<lambda>_.
     op_modify (\<lambda>r. r\<lparr>run_plugins := (run_plugins r)\<lparr>live_plugins := removeAll pid (live_plugins (run_plugins r))\<rparr>,
                      run_world := plugin_destruct env pid (run_world r)\<rparr>))"

definition plugins_before_eval :: "'w environment \<Rightarrow> eval_context \<Rightarrow> u64 \<Rightarrow> ('w run, unit) operation" where
  "plugins_before_eval env c pid = op_then (plugins_at pid) (\<lambda>_. on_world (plugin_before_eval env pid c))"

definition plugins_after_eval :: "'w environment \<Rightarrow> eval_context \<Rightarrow> u64 \<Rightarrow> ('w run, unit) operation" where
  "plugins_after_eval env c pid = op_then (plugins_at pid) (\<lambda>_. on_world (plugin_after_eval env pid c))"

section \<open>Access to values of a certain type\<close>

definition get_string :: "value_type \<Rightarrow> net_error + string" where
  "get_string v = (case v of V_string x \<Rightarrow> Inr x | _ \<Rightarrow> Inl net_bad_get)"

definition get_ulong :: "value_type \<Rightarrow> net_error + u64" where
  "get_ulong v = (case v of V_ulong x \<Rightarrow> Inr x | _ \<Rightarrow> Inl net_bad_get)"

definition get_list :: "value_type \<Rightarrow> net_error + value_type list" where
  "get_list v = (case v of V_list x \<Rightarrow> Inr x | _ \<Rightarrow> Inl net_bad_get)"

definition get_set :: "value_type \<Rightarrow> net_error + value_type list" where
  "get_set v = (case v of V_set x \<Rightarrow> Inr x | _ \<Rightarrow> Inl net_bad_get)"

fun unwrap_strings :: "value_type list \<Rightarrow> string list \<Rightarrow> net_error + string list" where
  "unwrap_strings [] ids = Inr ids"
| "unwrap_strings (v # vs) ids = and_then (get_string v) (\<lambda>x. unwrap_strings vs (set_insert string_lt x ids))"

definition nest :: "string \<Rightarrow> ('s, 'a) operation \<Rightarrow> ('s, 'a) operation" where
  "nest msg f s = (case f s of (Inl e, s') \<Rightarrow> (Inl (nested_error msg e), s') | (Inr x, s') \<Rightarrow> (Inr x, s'))"

section \<open>Firing expressions\<close>

text \<open>Evaluation within a run: the context is returned together with the value.\<close>

definition eval_in :: "fp_ops \<Rightarrow> node list \<Rightarrow> eval_context \<Rightarrow> net_error + value_type \<times> eval_context" where
  "eval_in fp ns c = (case eval_all fp ns c of (Inl e, _) \<Rightarrow> Inl (expression_failed e) | (Inr v, d) \<Rightarrow> Inr (v, d))"

definition context_bind :: "transition_info \<Rightarrow> port_id \<Rightarrow> value_type \<Rightarrow> eval_context \<Rightarrow> net_error + eval_context" where
  "context_bind t port value c = and_then (at (map_of (ports_input t) port)) (\<lambda>p. Inr (bind_ref (port_name p) value c))"

definition call_plugins :: "fp_ops \<Rightarrow> 'w environment \<Rightarrow> (eval_context \<Rightarrow> u64 \<Rightarrow> ('w run, unit) operation) \<Rightarrow>
  string \<Rightarrow> value_type \<Rightarrow> eval_context \<Rightarrow> ('w run, eval_context) operation" where
  "call_plugins fp env call key commands c =
     (case peek [key] commands of
        None \<Rightarrow> op_return c
      | Some cmd \<Rightarrow>
          op_then (op_result (and_then (get_string cmd) (parse_expression env))) (\<lambda>e.
          op_then (op_result (eval_in fp e c)) (\<lambda>(pids, c').
          op_then (op_result (get_list pids)) (\<lambda>ids.
          op_then (op_for_each (\<lambda>pid. op_then (op_result (get_ulong pid)) (call c')) ids) (\<lambda>_.
          op_return c')))))"

definition plugins_before :: "fp_ops \<Rightarrow> 'w environment \<Rightarrow> value_type option \<Rightarrow> eval_context \<Rightarrow> ('w run, eval_context) operation" where
  "plugins_before fp env commands c =
     (case commands of
        None \<Rightarrow> op_return c
      | Some cs \<Rightarrow>
          op_then (call_plugins fp env (plugins_before_eval env) ''call_before_eval'' cs c) (\<lambda>c1.
          if peek [''destroy''] cs \<noteq> None
          then op_then (op_result (and_then (lift_expr (context_value [''plugin_id''] c1)) get_ulong)) (\<lambda>pid.
               op_then (plugins_destroy env pid) (\<lambda>_. op_return c1))
          else op_return c1))"

definition plugins_after :: "fp_ops \<Rightarrow> 'w environment \<Rightarrow> value_type option \<Rightarrow> eval_context \<Rightarrow> ('w run, eval_context) operation" where
  "plugins_after fp env commands c =
     (case commands of
        None \<Rightarrow> op_return c
      | Some cs \<Rightarrow>
          op_then
            (if peek [''create''] cs \<noteq> None
             then op_then (op_result (and_then (lift_expr (context_value [''plugin_path''] c)) get_string)) (\<lambda>path.
                  op_then (plugins_create env path c) (\<lambda>pid.
                  op_return (snd (bind_and_discard_ref [''plugin_id''] (V_ulong pid) c))))
             else op_return c) (\<lambda>c1.
          call_plugins fp env (plugins_after_eval env) ''call_after_eval'' cs c1))"

fun put_many :: "place_id \<Rightarrow> value_type list \<Rightarrow> (net_state, (place_id \<times> token_id) list) operation" where
  "put_many pid [] = op_return []"
| "put_many pid (v # vs) = op_then (do_put_value pid v) (\<lambda>u. op_then (put_many pid vs) (\<lambda>us. op_return (u # us)))"

definition send_eureka :: "'w environment \<Rightarrow> value_type \<Rightarrow> ('w run, unit) operation" where
  "send_eureka env v =
     op_then (op_result (and_then (get_set v) (\<lambda>ids. unwrap_strings ids []))) (\<lambda>eureka_ids.
     if eureka_ids \<noteq> [] then nest ''inject result: sending eureka response failed'' (on_world (eureka_response env eureka_ids))
     else op_return ())"

definition fire_output :: "'w environment \<Rightarrow> transition_id \<Rightarrow> eval_context \<Rightarrow> port_id \<times> port \<Rightarrow>
  ('w run, (place_id \<times> token_id) list) operation" where
  "fire_output env tid c p =
     op_then (op_get run_net) (\<lambda>s.
     let value = lift_expr (context_value [port_name (snd p)] c)
     in case port_to_place s tid (fst p) of
       Some (pid, _) \<Rightarrow> op_then (op_result value) (\<lambda>v. on_net (put_many pid [v]))
     | None \<Rightarrow>
         (case port_many_to_place s tid (fst p) of
            Some (pid, _) \<Rightarrow> op_then (op_result (and_then value get_list)) (\<lambda>vs. on_net (put_many pid vs))
          | None \<Rightarrow>
              if port_to_eureka s tid = Some (fst p)
              then op_then (op_then (op_result value) (send_eureka env)) (\<lambda>_. op_return [])
              else nest ''fire_expression: sending workflow response failed''
                (op_then (op_result (at (port_to_response s tid (fst p)))) (\<lambda>(to, _).
                 op_then (op_result (lift_expr (context_value [to] c))) (\<lambda>description.
                 op_then (op_result value) (\<lambda>v.
                 op_then (on_world (workflow_response env description v)) (\<lambda>_. op_return [])))))))"

fun fire_outputs :: "'w environment \<Rightarrow> transition_id \<Rightarrow> eval_context \<Rightarrow> (port_id \<times> port) list \<Rightarrow>
  ('w run, (place_id \<times> token_id) list) operation" where
  "fire_outputs env tid c [] = op_return []"
| "fire_outputs env tid c (p # ps) =
     op_then (fire_output env tid c p) (\<lambda>us. op_then (fire_outputs env tid c ps) (\<lambda>vs. op_return (us @ vs)))"

definition fire_expression :: "fp_ops \<Rightarrow> 'w environment \<Rightarrow> 'm tmap \<Rightarrow> transition_id \<Rightarrow> 'm transition \<Rightarrow> expression \<Rightarrow>
  ('w run, unit) operation" where
  "fire_expression fp env tm tid t e =
     op_then (\<lambda>r. (do_extract (run_net r) tid (context_bind (info t)) empty_context, r)) (\<lambda>(c, tokens_to_be_deleted).
     let commands = property_get [''gspc'', ''we'', ''plugin''] (transition_prop (info t)) in
     op_then (plugins_before fp env commands c) (\<lambda>c1.
     op_then (op_result (eval_in fp (ast e) c1)) (\<lambda>(_, c2).
     op_then (plugins_after fp env commands c2) (\<lambda>c3.
     op_then (fire_outputs env tid c3 (ports_output (info t))) (\<lambda>pending_updates.
     op_then (on_net (do_delete fp tm tokens_to_be_deleted)) (\<lambda>_.
     on_net (op_for_each (do_update fp tm) pending_updates)))))))"

text \<open>
  The loop over expressions may run forever: then the result is \<open>None\<close>. The random engine is a state
  \<open>'g\<close> with a function that draws an index below the given bound.
\<close>

partial_function (option) fire_expressions_and_extract_activity_random ::
  "fp_ops \<Rightarrow> 'w environment \<Rightarrow> ('g \<Rightarrow> nat \<Rightarrow> nat \<times> 'g) \<Rightarrow> 'm tmap \<Rightarrow> 'g \<Rightarrow> 'w run \<Rightarrow>
   ((net_error + 'm activity option) \<times> 'g \<times> 'w run) option" where
  "fire_expressions_and_extract_activity_random fp env draw tm g r =
     (case enabled (run_net r) of
        [] \<Rightarrow> Some (Inr None, g, r)
      | (_, tids) # _ \<Rightarrow>
          (case draw g (length tids) of
             (i, g') \<Rightarrow>
               (case map_of tm (tids ! i) of
                  None \<Rightarrow> Some (Inl map_at, g', r)
                | Some t \<Rightarrow>
                    (case data t of
                       Expression e \<Rightarrow>
                         (case fire_expression fp env tm (tids ! i) t e r of
                            (Inl err, r') \<Rightarrow> Some (Inl err, g', r')
                          | (Inr _, r') \<Rightarrow> fire_expressions_and_extract_activity_random fp env draw tm g' r')
                     | _ \<Rightarrow>
                         (case on_net (extract_activity fp tm (tids ! i) t) r of
                            (Inl err, r') \<Rightarrow> Some (Inl err, g', r')
                          | (Inr a, r') \<Rightarrow> Some (Inr (Some a), g', r'))))))"

section \<open>Injecting results\<close>

definition input_port_by_name :: "transition_info \<Rightarrow> string \<Rightarrow> net_error + port_id" where
  "input_port_by_name t name =
     (case filter (\<lambda>p. port_name (snd p) = name) (ports_input t) of
        p # _ \<Rightarrow> Inr (fst p)
      | [] \<Rightarrow> Inl (port_unknown (transition_name t) name))"

definition output_port_by_name :: "transition_info \<Rightarrow> string \<Rightarrow> net_error + port_id" where
  "output_port_by_name t name =
     (case filter (\<lambda>p. port_name (snd p) = name) (ports_output t) of
        p # _ \<Rightarrow> Inr (fst p)
      | [] \<Rightarrow> Inl (port_unknown (transition_name t) name))"

definition inject_token :: "fp_ops \<Rightarrow> 'w environment \<Rightarrow> 'm tmap \<Rightarrow> transition_id \<Rightarrow> (value_type \<times> port_id) list \<Rightarrow>
  value_type \<times> port_id \<Rightarrow> ('w run, unit) operation" where
  "inject_token fp env tm tid input out =
     op_then (op_get run_net) (\<lambda>s.
     case port_to_place s tid (snd out) of
       Some (pid, _) \<Rightarrow> on_net (put_value fp tm pid (fst out))
     | None \<Rightarrow>
         (case port_many_to_place s tid (snd out) of
            Some (pid, _) \<Rightarrow>
              op_then (op_result (get_list (fst out))) (\<lambda>vs. on_net (op_for_each (put_value fp tm pid) vs))
          | None \<Rightarrow>
              if port_to_eureka s tid = Some (snd out) then send_eureka env (fst out)
              else nest ''inject result: sending workflow response failed''
                (op_then (op_result (at (port_to_response s tid (snd out)))) (\<lambda>(to, _).
                 op_then (op_result (at (map_of tm tid))) (\<lambda>t.
                 op_then (op_result (input_port_by_name (info t) to)) (\<lambda>port.
                 case filter (\<lambda>i. snd i = port) input of
                   [] \<Rightarrow> op_throw undefined_behaviour_in_net
                 | i # _ \<Rightarrow> on_world (workflow_response env (fst i) (fst out))))))))"

definition inject :: "fp_ops \<Rightarrow> 'w environment \<Rightarrow> 'm tmap \<Rightarrow> transition_id \<Rightarrow> (value_type \<times> port_id) list \<Rightarrow>
  (value_type \<times> port_id) list \<Rightarrow> ('w run, unit) operation" where
  "inject fp env tm tid output input = op_for_each (inject_token fp env tm tid input) output"

end
