(* ===== verification/Net_Search.thy ===== *)
theory Net_Search
  imports Net_Run
begin

text \<open>
  The search of \<^verbatim>\<open>cross_type::enables\<close> in \<^verbatim>\<open>src/we/type/net.cpp\<close> for tokens that enable a
  transition. The positions of the iterators stand for the list of the combinations that are still to be visited
  (\<open>remaining\<close>); the search visits every combination of the tokens on the places that the condition refers to
  at most once, stops at the first that fulfils the condition and is sound and complete for all combinations of all
  input places (\<open>enables_sound\<close>, \<open>enables_complete\<close>).
\<close>

section \<open>The order in which combinations are visited\<close>

fun combinations :: "'a list list \<Rightarrow> 'a list list" where
  "combinations [] = [[]]"
| "combinations (ts # tss) = concat (map (\<lambda>c. map (\<lambda>t. t # c) ts) (combinations tss))"

definition candidates :: "slot \<Rightarrow> tokens" where
  "candidates s = (if slot_referenced s then slot_begin s else [hd (slot_pos s)])"

definition current :: "slot list \<Rightarrow> tokens" where
  "current m = map (hd \<circ> slot_pos) m"

definition combination_context :: "slot list \<Rightarrow> tokens \<Rightarrow> eval_context" where
  "combination_context m c =
     fold (\<lambda>(s, t). bind_ref (slot_name s) (snd t)) (filter (slot_referenced \<circ> fst) (zip m c)) empty_context"

fun search :: "fp_ops \<Rightarrow> node list \<Rightarrow> slot list \<Rightarrow> tokens list \<Rightarrow> net_error + tokens option" where
  "search fp cond m [] = Inr None"
| "search fp cond m (c # cs) =
     (case fst (eval_all fp cond (combination_context m c)) of
        Inl e \<Rightarrow> Inl (expression_failed e)
      | Inr (V_bool b) \<Rightarrow> if b then Inr (Some c) else search fp cond m cs
      | Inr _ \<Rightarrow> Inl net_bad_get)"

definition found :: "net_error + bool \<times> slot list \<Rightarrow> net_error + tokens option" where
  "found r = and_then r (\<lambda>(b, m). Inr (if b then Some (current m) else None))"

fun remaining :: "slot list \<Rightarrow> tokens list" where
  "remaining [] = [[]]"
| "remaining (s # ss) =
     (if slot_referenced s then
        map (\<lambda>t. t # hd (remaining ss)) (slot_pos s) @
        concat (map (\<lambda>c. map (\<lambda>t. t # c) (slot_begin s)) (tl (remaining ss)))
      else map (\<lambda>c. hd (slot_pos s) # c) (remaining ss))"

definition slot_wf :: "slot \<Rightarrow> bool" where
  "slot_wf s \<longleftrightarrow> slot_pos s \<noteq> [] \<and> slot_begin s \<noteq> []"

definition same_slot :: "slot \<Rightarrow> slot \<Rightarrow> bool" where
  "same_slot s s' \<longleftrightarrow> slot_place s' = slot_place s \<and> slot_begin s' = slot_begin s \<and> slot_read s' = slot_read s \<and>
     slot_name s' = slot_name s \<and> slot_referenced s' = slot_referenced s"

lemma same_slot_pos [simp]: "same_slot s s" "same_slot s (s\<lparr>slot_pos := p\<rparr>)"
  by (simp_all add: same_slot_def)

lemma slot_wf_pos [simp]: "slot_wf (s\<lparr>slot_pos := p\<rparr>) \<longleftrightarrow> p \<noteq> [] \<and> slot_begin s \<noteq> []"
  by (simp add: slot_wf_def)

lemma remaining_current: "list_all slot_wf m \<Longrightarrow> remaining m \<noteq> [] \<and> hd (remaining m) = current m"
  by (induction m) (auto simp: current_def slot_wf_def hd_append hd_map)

lemma remaining_initial:
  "\<forall>s \<in> set m. slot_pos s = slot_begin s \<and> slot_begin s \<noteq> [] \<Longrightarrow> remaining m = combinations (map candidates m)"
proof (induction m)
  case (Cons s ss)
  then have r: "remaining ss = combinations (map candidates ss)" by simp
  have "list_all slot_wf ss" using Cons.prems by (simp add: list_all_iff slot_wf_def)
  from remaining_current [OF this] obtain c cs where cs: "remaining ss = c # cs" by (cases "remaining ss") auto
  show ?case using Cons.prems r [symmetric] cs by (simp add: candidates_def [of s] cs)
qed simp

lemma do_step_remaining:
  assumes "list_all slot_wf m" and "do_step m = (b, m')"
  shows "list_all slot_wf m' \<and> list_all2 same_slot m m' \<and>
    (if b then remaining m' = tl (remaining m) else tl (remaining m) = [])"
  using assms
proof (induction m arbitrary: m' b)
  case (Cons s ss)
  obtain b1 ss' where d: "do_step ss = (b1, ss')" by (cases "do_step ss")
  have ss: "list_all slot_wf ss" using Cons.prems(1) by simp
  obtain p ps where p: "slot_pos s = p # ps" using Cons.prems(1) by (cases "slot_pos s") (auto simp: slot_wf_def)
  obtain q qs where q: "slot_begin s = q # qs" using Cons.prems(1) by (cases "slot_begin s") (auto simp: slot_wf_def)
  obtain c cs where c: "remaining ss = c # cs" using remaining_current [OF ss] by (cases "remaining ss") auto
  have IH: "list_all slot_wf ss' \<and> list_all2 same_slot ss ss' \<and> (if b1 then remaining ss' = cs else cs = [])"
    using Cons.IH [OF ss d] c by (cases b1) simp_all
  have ss': "remaining ss' \<noteq> []" using IH remaining_current by blast
  have refl: "list_all2 same_slot ss ss" by (rule list_all2_refl) simp
  show ?case
  proof (cases "slot_referenced s \<and> ps \<noteq> []")
    case True
    then show ?thesis using Cons.prems p q c d refl by (auto simp: Let_def)
  next
    case False
    then show ?thesis using Cons.prems p q c d IH ss'
      by (cases "remaining ss'") (auto simp: Let_def split: if_splits)
  qed
qed simp

lemma cross_context_current: "cross_context m = combination_context m (current m)"
proof -
  have "fold bind_slot (filter slot_referenced m) c =
    fold (\<lambda>(s, t). bind_ref (slot_name s) (snd t)) (filter (slot_referenced \<circ> fst) (zip m (current m))) c" for c
    by (induction m arbitrary: c) (simp_all add: current_def bind_slot_def)
  then show ?thesis by (simp add: cross_context_def combination_context_def)
qed

lemma combination_context_same: "list_all2 same_slot m m' \<Longrightarrow> combination_context m' c = combination_context m c"
proof -
  assume a: "list_all2 same_slot m m'"
  have "fold (\<lambda>(s, t). bind_ref (slot_name s) (snd t)) (filter (slot_referenced \<circ> fst) (zip m' c)) d =
    fold (\<lambda>(s, t). bind_ref (slot_name s) (snd t)) (filter (slot_referenced \<circ> fst) (zip m c)) d" for d
    using a
  proof (induction m m' arbitrary: c d rule: list_all2_induct)
    case (Cons s ss s' ss')
    then show ?case by (cases c) (simp_all add: same_slot_def)
  qed simp
  then show ?thesis by (simp add: combination_context_def)
qed

lemma search_same: "list_all2 same_slot m m' \<Longrightarrow> search fp cond m' cs = search fp cond m cs"
  by (induction cs) (simp_all only: search.simps combination_context_same)

lemma same_slot_trans: "list_all2 same_slot m m' \<Longrightarrow> list_all2 same_slot m' m'' \<Longrightarrow> list_all2 same_slot m m''"
  by (rule list_all2_trans) (auto simp: same_slot_def)

lemma same_slot_refl: "list_all2 same_slot m m"
  by (rule list_all2_refl) simp

lemma enables_loop_search:
  assumes "list_all slot_wf m"
  shows "found (enables_loop fp cond m) = search fp cond m (remaining m)"
  using assms
proof (induction fp cond m rule: enables_loop.induct)
  case (1 fp cond m)
  obtain b m' where d: "do_step m = (b, m')" by (cases "do_step m")
  note step = do_step_remaining [OF 1(2) d]
  obtain cs where cs: "remaining m = current m # cs"
    using remaining_current [OF 1(2)] by (cases "remaining m") auto
  show ?case
  proof (cases "fst (eval_all fp cond (cross_context m)) = Inr (V_bool False)")
    case True
    then have u: "enables_loop fp cond m = (if b then enables_loop fp cond m' else Inr (False, m'))"
      by (subst enables_loop.simps) (simp add: d)
    have e: "search fp cond m (remaining m) = search fp cond m cs"
      using True by (simp add: cs cross_context_current)
    show ?thesis
    proof (cases b)
      case b: True
      then have m': "list_all slot_wf m'" "list_all2 same_slot m m'" "remaining m' = cs" using step cs by auto
      have "found (enables_loop fp cond m') = search fp cond m' (remaining m')"
        using "1.IH" [OF True refl refl, of b m'] d b m'(1) by simp
      then show ?thesis using u e b m' search_same [OF m'(2)] by simp
    next
      case False
      then have "cs = []" using step cs by simp
      then show ?thesis unfolding e using u False by (simp add: found_def)
    qed
  next
    case False
    have e: "search fp cond m (remaining m) = (case fst (eval_all fp cond (cross_context m)) of
        Inl e \<Rightarrow> Inl (expression_failed e)
      | Inr (V_bool b) \<Rightarrow> if b then Inr (Some (current m)) else search fp cond m cs
      | Inr _ \<Rightarrow> Inl net_bad_get)"
      by (simp add: cs cross_context_current)
    show ?thesis unfolding e using False
      by (subst enables_loop.simps) (auto simp: found_def split: sum.split value_type.split bool.split)
  qed
qed

lemma enables_loop_same:
  assumes "list_all slot_wf m" and "enables_loop fp cond m = Inr (b, m')"
  shows "list_all slot_wf m' \<and> list_all2 same_slot m m'"
  using assms
proof (induction fp cond m arbitrary: m' rule: enables_loop.induct)
  case (1 fp cond m)
  obtain b1 m1 where d: "do_step m = (b1, m1)" by (cases "do_step m")
  note step = do_step_remaining [OF 1(2) d]
  show ?case
  proof (cases "fst (eval_all fp cond (cross_context m)) = Inr (V_bool False)")
    case True
    then have u: "enables_loop fp cond m = (if b1 then enables_loop fp cond m1 else Inr (False, m1))"
      by (subst enables_loop.simps) (simp add: d)
    show ?thesis
    proof (cases b1)
      case b1: True
      have "list_all slot_wf m' \<and> list_all2 same_slot m1 m'"
        using "1.IH" [OF True refl refl, of b1 m1 m'] d b1 step 1(3) u by simp
      then show ?thesis using step same_slot_trans by blast
    next
      case False
      then show ?thesis using u 1(3) step by simp
    qed
  next
    case False
    have "m' = m" using 1(3) False
      by (subst (asm) enables_loop.simps) (auto split: sum.splits value_type.splits bool.splits)
    then show ?thesis using 1(2) same_slot_refl by simp
  qed
qed

lemma set_combinations: "set (combinations tss) = {c. list_all2 (\<lambda>t ts. t \<in> set ts) c tss}"
proof (induction tss)
  case (Cons ts tss)
  then show ?case by (auto simp: list_all2_Cons2)
qed simp

lemma search_None: "search fp cond m cs = Inr None \<Longrightarrow> c \<in> set cs \<Longrightarrow>
  fst (eval_all fp cond (combination_context m c)) = Inr (V_bool False)"
  by (induction cs) (auto split: sum.splits value_type.splits if_splits)

lemma search_Some: "search fp cond m cs = Inr (Some c) \<Longrightarrow>
  c \<in> set cs \<and> fst (eval_all fp cond (combination_context m c)) = Inr (V_bool True)"
  by (induction cs) (auto split: sum.splits value_type.splits if_splits)

section \<open>When a transition is enabled\<close>

definition in_places :: "net_state \<Rightarrow> transition_id \<Rightarrow> place_id list" where
  "in_places s tid = places_of tid (adj_pt_consume s) @ places_of tid (adj_pt_read s)"

definition bound_name :: "net_state \<Rightarrow> transition_id \<Rightarrow> transition_info \<Rightarrow> place_id \<Rightarrow> string" where
  "bound_name s tid t p = projr (input_port_name s tid t p)"

definition input_context :: "net_state \<Rightarrow> transition_id \<Rightarrow> transition_info \<Rightarrow> (place_id \<Rightarrow> token_id \<times> value_type) \<Rightarrow> eval_context" where
  "input_context s tid t f = fold (\<lambda>p. bind_ref (bound_name s tid t p) (snd (f p))) (in_places s tid) empty_context"

definition holds :: "fp_ops \<Rightarrow> net_state \<Rightarrow> transition_id \<Rightarrow> transition_info \<Rightarrow> (place_id \<Rightarrow> token_id \<times> value_type) \<Rightarrow> bool" where
  "holds fp s tid t f \<longleftrightarrow> length (ports_input t) \<le> length (in_places s tid) \<and>
     (case condition t of None \<Rightarrow> True | Some e \<Rightarrow> fst (eval_all fp (ast e) (input_context s tid t f)) = Inr (V_bool True))"

definition selects :: "(place_id \<Rightarrow> tokens) \<Rightarrow> net_state \<Rightarrow> transition_id \<Rightarrow> (place_id \<Rightarrow> token_id \<times> value_type) \<Rightarrow> bool" where
  "selects toks s tid f \<longleftrightarrow> (\<forall>p \<in> set (in_places s tid). f p \<in> set (toks p))"

definition transition_enabled :: "fp_ops \<Rightarrow> net_state \<Rightarrow> transition_id \<Rightarrow> transition_info \<Rightarrow> bool" where
  "transition_enabled fp s tid t \<longleftrightarrow> in_places s tid \<noteq> [] \<and> (\<exists>f. selects (token_by_place_id s) s tid f \<and> holds fp s tid t f)"

section \<open>The slots of a transition\<close>

definition slot_of :: "(place_id \<Rightarrow> net_error + tokens) \<Rightarrow> (place_id \<Rightarrow> net_error + string) \<Rightarrow> string set \<Rightarrow> bool \<Rightarrow> place_id \<Rightarrow> slot" where
  "slot_of toks names roots r p = \<lparr>slot_place = p, slot_begin = projr (toks p), slot_pos = projr (toks p), slot_read = r,
     slot_name = projr (names p), slot_referenced = (projr (names p) \<in> roots)\<rparr>"

lemma slot_of_simps [simp]:
  "slot_place (slot_of toks names roots r p) = p" "slot_begin (slot_of toks names roots r p) = projr (toks p)"
  "slot_pos (slot_of toks names roots r p) = projr (toks p)" "slot_read (slot_of toks names roots r p) = r"
  "slot_name (slot_of toks names roots r p) = projr (names p)"
  "slot_referenced (slot_of toks names roots r p) \<longleftrightarrow> projr (names p) \<in> roots"
  by (simp_all add: slot_of_def)

lemma and_then_eq_Inr: "and_then r f = Inr y \<longleftrightarrow> (\<exists>x. r = Inr x \<and> f x = Inr y)"
  by (cases r) simp_all

lemma push_all_None: "push_all toks names roots r pids m = Inr None \<Longrightarrow> \<exists>p \<in> set pids. toks p = Inr []"
  by (induction pids arbitrary: m) (auto simp: and_then_eq_Inr split: if_splits)

lemma push_all_Some:
  assumes "push_all toks names roots r pids m = Inr (Some m')" and "distinct pids" and "set pids \<inter> slot_place ` set m = {}"
  shows "m' = m @ map (slot_of toks names roots r) pids \<and> (\<forall>p \<in> set pids. \<exists>ts. toks p = Inr ts \<and> ts \<noteq> [])"
  using assms
proof (induction pids arbitrary: m)
  case (Cons p pids)
  obtain ts name where p: "toks p = Inr ts" "ts \<noteq> []" "names p = Inr name"
      and r: "push_all toks names roots r pids (cross_push p ts r name roots m) = Inr (Some m')"
    using Cons.prems(1) by (auto simp: and_then_eq_Inr split: if_splits)
  have m: "cross_push p ts r name roots m = m @ [slot_of toks names roots r p]"
    using Cons.prems(3) p by (auto simp: cross_push_def slot_of_def)
  show ?case using Cons.IH [OF r] Cons.prems(2,3) p by (auto simp: m)
qed simp

definition slots_of :: "(place_id \<Rightarrow> net_error + tokens) \<Rightarrow> net_state \<Rightarrow> transition_id \<Rightarrow> transition_info \<Rightarrow> string set \<Rightarrow> slot list" where
  "slots_of toks s tid t roots =
     map (\<lambda>p. slot_of toks (input_port_name s tid t) roots (p \<notin> set (places_of tid (adj_pt_consume s))) p) (in_places s tid)"

lemma collect_slots_None:
  "collect_slots toks s tid t roots = Inr None \<Longrightarrow> \<exists>p \<in> set (in_places s tid). toks p = Inr []"
proof -
  assume "collect_slots toks s tid t roots = Inr None"
  then obtain r where r: "push_all toks (input_port_name s tid t) roots False (places_of tid (adj_pt_consume s)) [] = Inr r"
      and n: "(case r of None \<Rightarrow> Inr None
        | Some m \<Rightarrow> push_all toks (input_port_name s tid t) roots True (places_of tid (adj_pt_read s)) m) = Inr None"
    by (auto simp: collect_slots_def and_then_eq_Inr)
  show ?thesis using r n push_all_None by (cases r) (auto simp: in_places_def dest!: push_all_None)
qed

lemma collect_slots_Some:
  assumes "collect_slots toks s tid t roots = Inr (Some m)" and d: "distinct (in_places s tid)"
  shows "m = slots_of toks s tid t roots \<and> (\<forall>p \<in> set (in_places s tid). \<exists>ts. toks p = Inr ts \<and> ts \<noteq> [])"
proof -
  let ?c = "places_of tid (adj_pt_consume s)" and ?r = "places_of tid (adj_pt_read s)"
  obtain m1 where m1: "push_all toks (input_port_name s tid t) roots False ?c [] = Inr (Some m1)"
      and m: "push_all toks (input_port_name s tid t) roots True ?r m1 = Inr (Some m)"
    using assms(1) by (auto simp: collect_slots_def and_then_eq_Inr split: option.splits)
  have c: "m1 = map (slot_of toks (input_port_name s tid t) roots False) ?c"
      "\<forall>p \<in> set ?c. \<exists>ts. toks p = Inr ts \<and> ts \<noteq> []"
    using push_all_Some [OF m1] d by (auto simp: in_places_def)
  have r: "m = m1 @ map (slot_of toks (input_port_name s tid t) roots True) ?r"
      "\<forall>p \<in> set ?r. \<exists>ts. toks p = Inr ts \<and> ts \<noteq> []"
    using push_all_Some [OF m] d c(1) by (auto simp: in_places_def image_image)
  have "map (slot_of toks (input_port_name s tid t) roots True) ?r =
      map (\<lambda>p. slot_of toks (input_port_name s tid t) roots (p \<notin> set ?c) p) ?r"
    using d by (intro map_cong refl) (auto simp: in_places_def intro!: arg_cong [where f = "\<lambda>b. slot_of _ _ _ b _"])
  then show ?thesis using c r by (auto simp: slots_of_def in_places_def)
qed

section \<open>Bindings that the condition does not refer to\<close>

lemma fold_bind_agree:
  assumes "\<forall>k \<in> R. ctx_container c' k = ctx_container c k \<and> ctx_ref c' k = ctx_ref c k"
  shows "\<forall>k \<in> R. ctx_container (fold (\<lambda>(n, v). bind_ref n v) (filter (\<lambda>x. fst x \<in> R) xs) c') k =
        ctx_container (fold (\<lambda>(n, v). bind_ref n v) xs c) k \<and>
      ctx_ref (fold (\<lambda>(n, v). bind_ref n v) (filter (\<lambda>x. fst x \<in> R) xs) c') k =
        ctx_ref (fold (\<lambda>(n, v). bind_ref n v) xs c) k"
  using assms
proof (induction xs arbitrary: c c')
  case (Cons x xs)
  obtain n v where x: "x = (n, v)" by (cases x)
  show ?case
  proof (cases "n \<in> R")
    case True
    have "\<forall>k \<in> R. ctx_container (bind_ref n v c') k = ctx_container (bind_ref n v c) k \<and>
        ctx_ref (bind_ref n v c') k = ctx_ref (bind_ref n v c) k"
      using Cons.prems by (simp add: bind_ref_def)
    from Cons.IH [OF this] show ?thesis using True by (simp add: x)
  next
    case False
    then have "\<forall>k \<in> R. ctx_container c' k = ctx_container (bind_ref n v c) k \<and> ctx_ref c' k = ctx_ref (bind_ref n v c) k"
      using Cons.prems by (auto simp: bind_ref_def)
    from Cons.IH [OF this] show ?thesis using False by (simp add: x)
  qed
qed simp

lemma eval_all_agree:
  assumes "key_roots_of ns {} = Inr R"
    and "\<forall>k \<in> R. ctx_container c' k = ctx_container c k \<and> ctx_ref c' k = ctx_ref c k"
  shows "fst (eval_all fp ns c') = fst (eval_all fp ns c)"
proof -
  have R: "\<forall>n \<in> set ns. key_roots n \<subseteq> R" using key_roots_of_eq [OF assms(1)] by auto
  have "map_root (\<lambda>k. k) k = k" for k by (simp add: map_root_def split: list.split)
  then have sim: "eval_sim (=) (\<lambda>k. k) R (eval_all fp ns) (eval_all fp ns)"
    using eval_nodes_sim [of "(=)" "\<lambda>k. k" R ns fp V_control] R unfolding map_roots_id eval_all_def by simp
  have "ctx_sim (\<lambda>k. k) R c c'" using assms(2) by (simp add: ctx_sim_def)
  from eval_simD(1) [OF sim this] show ?thesis by (auto simp: result_sim_def split: sum.splits)
qed

lemma fold_bind_pairs:
  "fold (\<lambda>p. bind_ref (n p) (snd (f p))) ps c = fold (\<lambda>(n, v). bind_ref n v) (map (\<lambda>p. (n p, snd (f p))) ps) c"
  by (induction ps arbitrary: c) simp_all

lemma combination_context_slots:
  "combination_context (slots_of toks s tid t roots) (map f (in_places s tid)) =
     fold (\<lambda>(n, v). bind_ref n v)
       (filter (\<lambda>x. fst x \<in> roots) (map (\<lambda>p. (bound_name s tid t p, snd (f p))) (in_places s tid))) empty_context"
proof -
  have "fold (\<lambda>(sl, t). bind_ref (slot_name sl) (snd t)) (filter (slot_referenced \<circ> fst)
        (zip (map (\<lambda>p. slot_of toks (input_port_name s tid t) roots (p \<notin> C) p) ps) (map f ps))) c =
      fold (\<lambda>(n, v). bind_ref n v) (filter (\<lambda>x. fst x \<in> roots) (map (\<lambda>p. (bound_name s tid t p, snd (f p))) ps)) c" for ps c C
    by (induction ps arbitrary: c) (simp_all add: bound_name_def)
  then show ?thesis by (simp add: combination_context_def slots_of_def)
qed

lemma eval_combination:
  assumes "key_roots_of ns {} = Inr roots"
  shows "fst (eval_all fp ns (combination_context (slots_of toks s tid t roots) (map f (in_places s tid)))) =
    fst (eval_all fp ns (input_context s tid t f))"
  unfolding combination_context_slots input_context_def fold_bind_pairs
  by (rule eval_all_agree [OF assms]) (rule fold_bind_agree, simp)

section \<open>The search is sound and complete\<close>

lemma map_the_zip: "distinct xs \<Longrightarrow> length xs = length ys \<Longrightarrow> map (\<lambda>x. the (map_of (zip xs ys) x)) xs = ys"
  by (rule nth_equalityI) (simp_all add: map_of_zip_nth)

lemma combination_not_referenced:
  assumes "\<forall>p \<in> set (in_places s tid). bound_name s tid t p \<in> roots \<longrightarrow> g p = f p"
  shows "combination_context (slots_of toks s tid t roots) (map g (in_places s tid)) =
    combination_context (slots_of toks s tid t roots) (map f (in_places s tid))"
proof -
  have "filter (\<lambda>x. fst x \<in> roots) (map (\<lambda>p. (bound_name s tid t p, snd (g p))) ps) =
      filter (\<lambda>x. fst x \<in> roots) (map (\<lambda>p. (bound_name s tid t p, snd (f p))) ps)"
    if "\<forall>p \<in> set ps. bound_name s tid t p \<in> roots \<longrightarrow> g p = f p" for ps
    using that by (induction ps) simp_all
  from this [OF assms] show ?thesis unfolding combination_context_slots by simp
qed

lemma enables_same:
  assumes "\<forall>p \<in> set (in_places s tid). projr (toks p) \<noteq> []" and "enables fp t (slots_of toks s tid t roots) = Inr (b, m')"
  shows "list_all2 same_slot (slots_of toks s tid t roots) m' \<and> length m' = length (in_places s tid)"
proof -
  let ?m = "slots_of toks s tid t roots"
  have wf: "list_all slot_wf ?m" using assms(1) by (simp add: slots_of_def list_all_iff slot_wf_def)
  have same: "list_all2 same_slot ?m m'"
    using assms(2) enables_loop_same [OF wf] same_slot_refl by (auto simp: enables_def split: if_splits option.splits)
  from list_all2_lengthD [OF this] show ?thesis using same by (simp add: slots_of_def)
qed

lemma slots_of_search:
  assumes "\<forall>p \<in> set (in_places s tid). projr (toks p) \<noteq> []"
  shows "found (enables_loop fp cond (slots_of toks s tid t roots)) =
      search fp cond (slots_of toks s tid t roots) (remaining (slots_of toks s tid t roots))"
    and "map f (in_places s tid) \<in> set (remaining (slots_of toks s tid t roots)) \<longleftrightarrow>
      (\<forall>p \<in> set (in_places s tid). if bound_name s tid t p \<in> roots then f p \<in> set (projr (toks p)) else f p = hd (projr (toks p)))"
    and "current (slots_of toks s tid t roots) \<in> set (remaining (slots_of toks s tid t roots))"
proof -
  let ?m = "slots_of toks s tid t roots"
  have wf: "list_all slot_wf ?m" using assms by (simp add: slots_of_def list_all_iff slot_wf_def)
  show "found (enables_loop fp cond ?m) = search fp cond ?m (remaining ?m)" by (rule enables_loop_search [OF wf])
  have rem: "remaining ?m = combinations (map candidates ?m)"
    by (rule remaining_initial) (use assms in \<open>auto simp: slots_of_def\<close>)
  show "map f (in_places s tid) \<in> set (remaining ?m) \<longleftrightarrow>
      (\<forall>p \<in> set (in_places s tid). if bound_name s tid t p \<in> roots then f p \<in> set (projr (toks p)) else f p = hd (projr (toks p)))"
    unfolding rem set_combinations
    by (simp add: slots_of_def list_all2_map1 list_all2_map2 list_all2_same candidates_def bound_name_def)
  show "current ?m \<in> set (remaining ?m)" using remaining_current [OF wf] by (metis hd_in_set)
qed

lemma key_roots_of_condition: "condition_key_roots t = Inr roots \<Longrightarrow> condition t = Some ex \<Longrightarrow> key_roots_of (ast ex) {} = Inr roots"
  by (auto simp: condition_key_roots_def lift_expr_def split: sum.splits)

lemma enables_sound:
  assumes d: "distinct (in_places s tid)" and roots: "condition_key_roots t = Inr roots"
    and ne: "\<forall>p \<in> set (in_places s tid). projr (toks p) \<noteq> []"
    and e: "enables fp t (slots_of toks s tid t roots) = Inr (True, m')"
  shows "\<exists>f. selects (projr \<circ> toks) s tid f \<and> holds fp s tid t f \<and> current m' = map f (in_places s tid)"
proof -
  let ?m = "slots_of toks s tid t roots"
  have l: "length (ports_input t) \<le> length (in_places s tid)" using e by (auto simp: enables_def slots_of_def split: if_splits)
  define f where "f = (\<lambda>p. the (map_of (zip (in_places s tid) (current m')) p))"
  have cur: "current m' = map f (in_places s tid)"
    using d enables_same [OF ne e] by (simp add: map_the_zip f_def current_def)
  have c: "current m' \<in> set (remaining ?m) \<and>
      (\<forall>ex. condition t = Some ex \<longrightarrow> fst (eval_all fp (ast ex) (combination_context ?m (current m'))) = Inr (V_bool True))"
  proof (cases "condition t")
    case None
    then have "m' = ?m" using e by (auto simp: enables_def split: if_splits)
    then show ?thesis using slots_of_search(3) [of s tid toks t roots] ne None by simp
  next
    case (Some ex)
    then have "enables_loop fp (ast ex) ?m = Inr (True, m')" using e by (auto simp: enables_def split: if_splits)
    then have "search fp (ast ex) ?m (remaining ?m) = Inr (Some (current m'))"
      using slots_of_search(1) [OF ne, of fp "ast ex" t roots] by (simp add: found_def)
    from search_Some [OF this] show ?thesis using Some by simp
  qed
  have sel: "f p \<in> set (projr (toks p))" if "p \<in> set (in_places s tid)" for p
    using c [unfolded cur slots_of_search(2) [OF ne]] ne that hd_in_set by metis
  have "holds fp s tid t f"
    using c l eval_combination [OF key_roots_of_condition [OF roots]] by (auto simp: holds_def cur split: option.split)
  then show ?thesis using sel cur by (auto simp: selects_def)
qed

lemma enables_complete:
  assumes roots: "condition_key_roots t = Inr roots" and ne: "\<forall>p \<in> set (in_places s tid). projr (toks p) \<noteq> []"
    and e: "enables fp t (slots_of toks s tid t roots) = Inr (False, m')" and sel: "selects (projr \<circ> toks) s tid f"
  shows "\<not> holds fp s tid t f"
proof (cases "length (in_places s tid) < length (ports_input t)")
  case False
  let ?m = "slots_of toks s tid t roots"
  obtain ex where ex: "condition t = Some ex" and l: "enables_loop fp (ast ex) ?m = Inr (False, m')"
    using e False by (auto simp: enables_def slots_of_def split: if_splits option.splits)
  define g where "g = (\<lambda>p. if bound_name s tid t p \<in> roots then f p else hd (projr (toks p)))"
  have "map g (in_places s tid) \<in> set (remaining ?m)"
    using sel unfolding slots_of_search(2) [OF ne] by (simp add: g_def selects_def)
  moreover have "search fp (ast ex) ?m (remaining ?m) = Inr None"
    using slots_of_search(1) [OF ne, of fp "ast ex" t roots] l by (simp add: found_def)
  ultimately have "fst (eval_all fp (ast ex) (combination_context ?m (map g (in_places s tid)))) = Inr (V_bool False)"
    by (rule search_None [rotated])
  moreover have "combination_context ?m (map g (in_places s tid)) = combination_context ?m (map f (in_places s tid))"
    by (rule combination_not_referenced) (simp add: g_def)
  ultimately show ?thesis
    using eval_combination [OF key_roots_of_condition [OF roots ex], of fp toks s tid t f] by (simp add: holds_def ex)
qed (simp add: holds_def)

section \<open>Property\<close>

text \<open>
  C6: The search that steps iterators like an odometer finds exactly what a search through the list of all
  combinations finds: the first combination of the tokens on the referenced places for which the condition is true, or
  the error that an earlier combination raises, or that there is none. It always ends.
\<close>

theorem enables_loop_exact:
  assumes "\<forall>s \<in> set m. slot_pos s = slot_begin s \<and> slot_begin s \<noteq> []"
  shows "found (enables_loop fp cond m) = search fp cond m (combinations (map candidates m))"
  using enables_loop_search [of m fp cond] remaining_initial [OF assms] assms by (simp add: list_all_iff slot_wf_def)

theorem enables_loop_exact_witness:
  "let sl = \<lambda>p n ts. \<lparr>slot_place = p, slot_begin = ts, slot_pos = ts, slot_read = False, slot_name = n, slot_referenced = True\<rparr>;
       m = [sl 0 ''x'' [(0, V_bool False), (1, V_bool True)], sl 1 ''y'' [(2, V_bool False), (3, V_bool True)]]
   in found (enables_loop fp_example [N_key [''y'']] m) = Inr (Some [(0, V_bool False), (3, V_bool True)])"
proof -
  let ?sl = "\<lambda>p n ts. \<lparr>slot_place = p, slot_begin = ts, slot_pos = ts, slot_read = False, slot_name = n, slot_referenced = True\<rparr>"
  let ?m = "[?sl 0 ''x'' [(0, V_bool False), (1, V_bool True)], ?sl 1 ''y'' [(2, V_bool False), (3, V_bool True)]]"
  have m: "\<forall>s \<in> set ?m. slot_pos s = slot_begin s \<and> slot_begin s \<noteq> []" by simp
  have "search fp_example [N_key [''y'']] ?m (combinations (map candidates ?m)) = Inr (Some [(0, V_bool False), (3, V_bool True)])"
    by (simp add: candidates_def combination_context_def bind_ref_def empty_context_def eval_all_def ev_then_def context_value_def)
  then show ?thesis using enables_loop_exact [OF m, of fp_example "[N_key [''y'']]"] by simp
qed

end
