(* ===== verification/Net_Enabled.thy ===== *)
theory Net_Enabled
  imports Net_Search
begin

text \<open>
  The bookkeeping of enabled transitions: the map from priorities to transitions, the choices of tokens, the
  invariant of nets (\<open>net_inv\<close>) and how bringing one transition up to date keeps it. The invariant has two
  parameters for the states within an operation: tokens that have been removed, so that choices may still refer to
  them, and tokens that have been put, so that transitions may be enabled by them without being recorded.
\<close>

section \<open>The map of enabled transitions\<close>

definition enabled_wf :: "(priority \<times> transition_id list) list \<Rightarrow> bool" where
  "enabled_wf e \<longleftrightarrow> sorted_wrt (>) (map fst e) \<and> (\<forall>x \<in> set e. snd x \<noteq> [] \<and> distinct (snd x))"

definition members :: "(priority \<times> transition_id list) list \<Rightarrow> (priority \<times> transition_id) set" where
  "members e = {(p, tid). \<exists>ts. (p, ts) \<in> set e \<and> tid \<in> set ts}"

lemma members_simps [simp]:
  "members [] = {}" "members ((q, ts) # e) = Pair q ` set ts \<union> members e"
  by (auto simp: members_def)

lemma members_fst: "(p, tid) \<in> members e \<Longrightarrow> p \<in> fst ` set e"
  by (force simp: members_def)

lemma enabled_insert_keys: "fst ` set (enabled_insert p t e) = insert p (fst ` set e)"
  by (induction p t e rule: enabled_insert.induct) auto

lemma enabled_insert_wf: "enabled_wf e \<Longrightarrow> enabled_wf (enabled_insert p t e) \<and> members (enabled_insert p t e) = insert (p, t) (members e)"
proof (induction p t e rule: enabled_insert.induct)
  case (2 p t q ts e)
  then show ?case using enabled_insert_keys [of p t e]
    by (auto simp: enabled_wf_def not_less dest: less_trans)
qed (simp add: enabled_wf_def)

lemma enabled_erase_keys: "fst ` set (enabled_erase p t e) \<subseteq> fst ` set e"
  by (induction p t e rule: enabled_erase.induct) (auto simp: Let_def)

lemma enabled_erase_wf: "enabled_wf e \<Longrightarrow> enabled_wf (enabled_erase p t e) \<and> members (enabled_erase p t e) = members e - {(p, t)}"
proof (induction p t e rule: enabled_erase.induct)
  case (2 p t q ts e)
  have k: "\<forall>x \<in> fst ` set e. x < q" and e: "enabled_wf e" using "2.prems" by (auto simp: enabled_wf_def)
  have q: "(q, t) \<notin> members e" using k members_fst by blast
  show ?case
  proof (cases "q = p")
    case True
    have "removeAll t ts = [] \<Longrightarrow> Pair q ` set ts \<subseteq> {(q, t)}" by (induction ts) (auto split: if_splits)
    then show ?thesis using True q e "2.prems" k by (auto simp: Let_def enabled_wf_def distinct_removeAll)
  next
    case False
    have "\<forall>x \<in> fst ` set (enabled_erase p t e). x < q" using k enabled_erase_keys [of p t e] by blast
    moreover have "enabled_wf (enabled_erase p t e) \<and> members (enabled_erase p t e) = members e - {(p, t)}"
      by (rule "2.IH" [OF False e])
    ultimately show ?thesis using "2.prems" False by (auto simp: enabled_wf_def)
  qed
qed (simp add: enabled_wf_def)

lemma is_enabled_members: "enabled_wf (enabled s) \<Longrightarrow> is_enabled p t s \<longleftrightarrow> (p, t) \<in> members (enabled s)"
proof -
  assume wf: "enabled_wf (enabled s)"
  then have d: "distinct (map fst (enabled s))"
    by (auto simp: enabled_wf_def distinct_conv_nth sorted_wrt_iff_nth_less) (metis less_irrefl nat_neq_iff)
  have "(\<exists>ts. map_of (enabled s) p = Some ts \<and> t \<in> set ts) \<longleftrightarrow> (p, t) \<in> members (enabled s)"
    by (simp add: members_def map_of_eq_Some_iff [OF d])
  then show ?thesis by (auto simp: is_enabled_def split: option.splits)
qed

section \<open>Choices\<close>

lemma update_key_keys: "fst ` set (update_key k v ch) = insert k (fst ` set ch)"
  by (induction k v ch rule: update_key.induct) (auto simp: image_Un insert_commute)

lemma update_key_simps [simp]:
  "map_of (update_key k v ch) = (map_of ch)(k \<mapsto> v)" "fst ` set (update_key k v ch) = insert k (fst ` set ch)"
  "distinct (map fst (update_key k v ch)) \<longleftrightarrow> distinct (map fst ch)"
  by (induction k v ch rule: update_key.induct) (auto simp: update_key_keys)

lemma write_to_keys:
  "fst ` set (write_to m ch) = slot_place ` set m \<union> fst ` set ch"
  "distinct (map fst ch) \<Longrightarrow> distinct (map fst (write_to m ch))"
  unfolding write_to_def by (induction m arbitrary: ch) simp_all

lemma write_to_other: "p \<notin> slot_place ` set m \<Longrightarrow> map_of (write_to m ch) p = map_of ch p"
  unfolding write_to_def by (induction m arbitrary: ch) simp_all

lemma write_to_slot:
  "distinct (map slot_place m) \<Longrightarrow> sl \<in> set m \<Longrightarrow>
   map_of (write_to m ch) (slot_place sl) = Some (fst (hd (slot_pos sl)), slot_read sl)"
proof (induction m arbitrary: ch)
  case (Cons x m)
  have w: "write_to (x # m) ch = write_to m (update_key (slot_place x) (fst (hd (slot_pos x)), slot_read x) ch)"
    by (simp add: write_to_def)
  show ?case
  proof (cases "sl \<in> set m")
    case True
    then show ?thesis using Cons by (simp add: w)
  next
    case False
    then show ?thesis using Cons.prems by (simp add: w write_to_other)
  qed
qed simp

definition valid_choice :: "fp_ops \<Rightarrow> net_state \<Rightarrow> transition_id \<Rightarrow> transition_info \<Rightarrow> (place_id \<times> token_id \<times> bool) list \<Rightarrow> bool" where
  "valid_choice fp s tid t ch \<longleftrightarrow> in_places s tid \<noteq> [] \<and> distinct (map fst ch) \<and> fst ` set ch = set (in_places s tid) \<and>
     (\<exists>f. selects (token_by_place_id s) s tid f \<and> holds fp s tid t f \<and>
        (\<forall>p \<in> set (in_places s tid). map_of ch p = Some (fst (f p), p \<notin> set (places_of tid (adj_pt_consume s)))))"

definition keys_ok :: "net_state \<Rightarrow> transition_id \<Rightarrow> (place_id \<times> token_id \<times> bool) list \<Rightarrow> bool" where
  "keys_ok s tid ch \<longleftrightarrow> distinct (map fst ch) \<and> fst ` set ch \<subseteq> set (in_places s tid)"

lemma same_slot_places: "list_all2 same_slot m m' \<Longrightarrow> map slot_place m' = map slot_place m \<and> map slot_read m' = map slot_read m"
  by (induction m m' rule: list_all2_induct) (auto simp: same_slot_def)

lemma write_to_valid:
  assumes "list_all2 same_slot (slots_of toks s tid t roots) m'" and d: "distinct (in_places s tid)" and "in_places s tid \<noteq> []"
    and "selects (token_by_place_id s) s tid f" and "holds fp s tid t f" and c: "current m' = map f (in_places s tid)"
    and ch: "keys_ok s tid ch"
  shows "valid_choice fp s tid t (write_to m' ch)"
proof -
  have pl: "map slot_place m' = in_places s tid"
      and rd: "map slot_read m' = map (\<lambda>p. p \<notin> set (places_of tid (adj_pt_consume s))) (in_places s tid)"
    using same_slot_places [OF assms(1)] by (simp_all add: slots_of_def comp_def)
  have "map_of (write_to m' ch) p = Some (fst (f p), p \<notin> set (places_of tid (adj_pt_consume s)))"
    if p: "p \<in> set (in_places s tid)" for p
  proof -
    obtain i where i: "i < length m'" "p = in_places s tid ! i" using p pl by (metis in_set_conv_nth length_map)
    have "slot_place (m' ! i) = p" using i pl by (metis nth_map)
    moreover have "hd (slot_pos (m' ! i)) = f p" using i c pl unfolding current_def by (metis comp_apply nth_map length_map)
    moreover have "slot_read (m' ! i) \<longleftrightarrow> p \<notin> set (places_of tid (adj_pt_consume s))" using i rd pl by (metis nth_map length_map)
    ultimately show ?thesis using write_to_slot [of m' "m' ! i" ch] i(1) d pl by simp
  qed
  moreover have "fst ` set (write_to m' ch) = set (in_places s tid)"
    using ch pl [symmetric] by (auto simp: write_to_keys(1) keys_ok_def)
  ultimately show ?thesis using assms by (auto simp: valid_choice_def write_to_keys keys_ok_def)
qed

section \<open>Successful operations\<close>

lemma op_then_Inr: "op_then m f s = (Inr y, s'') \<longleftrightarrow> (\<exists>x s'. m s = (Inr x, s') \<and> f x s' = (Inr y, s''))"
  by (cases "m s" rule: prod.exhaust; cases "fst (m s)") (auto simp: op_then_def)

lemma op_simps:
  "op_return x s = (r, s') \<longleftrightarrow> r = Inr x \<and> s' = s" "op_throw e s = (r, s') \<longleftrightarrow> r = Inl e \<and> s' = s"
  "op_get g s = (r, s') \<longleftrightarrow> r = Inr (g s) \<and> s' = s" "op_modify h s = (r', s') \<longleftrightarrow> r' = Inr () \<and> s' = h s"
  "op_result q s = (r, s') \<longleftrightarrow> q = r \<and> s' = s"
  by (auto simp: op_return_def op_throw_def op_get_def op_modify_def op_result_def)

lemma at_Inr: "at x = Inr y \<longleftrightarrow> x = Some y"
  by (cases x) (simp_all add: at_def)

lemmas op_inv = op_then_Inr op_simps at_Inr

lemma op_for_each_inv:
  assumes "op_for_each f xs s = (Inr u, s')" and "P s"
    and "\<And>x s s'. x \<in> set xs \<Longrightarrow> P s \<Longrightarrow> f x s = (Inr (), s') \<Longrightarrow> P s'"
  shows "P s'"
  using assms by (induction xs arbitrary: s) (auto simp: op_inv)

section \<open>The invariant\<close>

definition tokens_ok :: "net_state \<Rightarrow> bool" where
  "tokens_ok s \<longleftrightarrow>
     (\<forall>p. distinct (map fst (token_by_place_id s p)) \<and> (\<forall>x \<in> set (token_by_place_id s p). fst x < next_token s)) \<and>
     (\<forall>p q. \<forall>x \<in> set (token_by_place_id s p). \<forall>y \<in> set (token_by_place_id s q). fst x = fst y \<longrightarrow> p = q)"

definition adj_ok :: "'m tmap \<Rightarrow> net_state \<Rightarrow> bool" where
  "adj_ok tm s \<longleftrightarrow> distinct (adj_pt_consume s) \<and> distinct (adj_pt_read s) \<and> set (adj_pt_consume s) \<inter> set (adj_pt_read s) = {} \<and>
     (\<forall>e \<in> set (adj_pt_consume s) \<union> set (adj_pt_read s). place_to_port s (snd e) (fst e) \<noteq> None \<and> map_of tm (snd e) \<noteq> None)"

definition enabled_ok :: "'m tmap \<Rightarrow> net_state \<Rightarrow> bool" where
  "enabled_ok tm s \<longleftrightarrow> enabled_wf (enabled s) \<and>
     members (enabled s) = {(p, tid). enabled_choice s tid \<noteq> None \<and> (\<exists>t. map_of tm tid = Some t \<and> priority (info t) = p)} \<and>
     (\<forall>tid. enabled_choice s tid \<noteq> None \<longrightarrow> map_of tm tid \<noteq> None)"

definition avoids :: "(place_id \<times> token_id) set \<Rightarrow> net_state \<Rightarrow> transition_id \<Rightarrow> (place_id \<Rightarrow> token_id \<times> value_type) \<Rightarrow> bool" where
  "avoids U s tid f \<longleftrightarrow> (\<forall>p \<in> set (in_places s tid). (p, fst (f p)) \<notin> U)"

definition no_choice :: "fp_ops \<Rightarrow> net_state \<Rightarrow> (place_id \<times> token_id) set \<Rightarrow> transition_id \<Rightarrow> transition_info \<Rightarrow> bool" where
  "no_choice fp s U tid t \<longleftrightarrow> in_places s tid = [] \<or>
     (\<forall>f. selects (token_by_place_id s) s tid f \<longrightarrow> avoids U s tid f \<longrightarrow> \<not> holds fp s tid t f)"

definition tid_ok :: "fp_ops \<Rightarrow> net_state \<Rightarrow> (place_id \<times> token_id) set \<Rightarrow> (place_id \<times> token_id) set \<Rightarrow> transition_id \<Rightarrow> transition_info \<Rightarrow> bool" where
  "tid_ok fp s D U tid t \<longleftrightarrow>
     (case enabled_choice s tid of
        Some ch \<Rightarrow> keys_ok s tid ch \<and> ((\<exists>x \<in> set ch. (fst x, fst (snd x)) \<in> D) \<or> valid_choice fp s tid t ch)
      | None \<Rightarrow> no_choice fp s U tid t)"

definition net_inv :: "fp_ops \<Rightarrow> 'm tmap \<Rightarrow> (place_id \<times> token_id) set \<Rightarrow> (place_id \<times> token_id) set \<Rightarrow> net_state \<Rightarrow> bool" where
  "net_inv fp tm D U s \<longleftrightarrow> tokens_ok s \<and> adj_ok tm s \<and> enabled_ok tm s \<and>
     (\<forall>tid t. map_of tm tid = Some t \<longrightarrow> tid_ok fp s D U tid (info t))"

lemma net_invD:
  assumes "net_inv fp tm D U s"
  shows "tokens_ok s" "adj_ok tm s" "enabled_ok tm s" "map_of tm tid = Some t \<Longrightarrow> tid_ok fp s D U tid (info t)"
  using assms by (simp_all add: net_inv_def)

lemma places_of_set: "p \<in> set (places_of tid adj) \<longleftrightarrow> (p, tid) \<in> set adj"
  by (force simp: places_of_def)

lemma in_places_set: "p \<in> set (in_places s tid) \<longleftrightarrow> (p, tid) \<in> set (adj_pt_consume s) \<union> set (adj_pt_read s)"
  by (auto simp: in_places_def places_of_set)

lemma adjacent_set: "tid \<in> set (adjacent s p) \<longleftrightarrow> p \<in> set (in_places s tid)"
  by (force simp: adjacent_def transitions_of_def in_places_set)

lemma places_of_distinct: "distinct adj \<Longrightarrow> distinct (places_of tid adj)"
  by (auto simp: places_of_def distinct_map inj_on_def)

lemma in_places_distinct: "adj_ok tm s \<Longrightarrow> distinct (in_places s tid)"
  by (auto simp: adj_ok_def in_places_def places_of_distinct places_of_set)

text \<open>What the enabledness of a transition depends on besides the tokens.\<close>

definition wiring :: "net_state \<Rightarrow>
  (place_id \<times> transition_id) list \<times> (place_id \<times> transition_id) list \<times> (transition_id \<Rightarrow> place_id \<Rightarrow> (port_id \<times> property) option)" where
  "wiring s = (adj_pt_consume s, adj_pt_read s, place_to_port s)"

lemma wiring_spec:
  assumes "wiring s' = wiring s"
  shows "adj_pt_consume s' = adj_pt_consume s" "adj_pt_read s' = adj_pt_read s" "place_to_port s' = place_to_port s"
    "adjacent s' = adjacent s" "in_places s' = in_places s" "input_port_name s' = input_port_name s" "holds fp s' = holds fp s"
    "selects toks s' = selects toks s" "keys_ok s' = keys_ok s" "avoids U s' = avoids U s" "adj_ok tm s' = adj_ok tm s"
proof -
  show f: "adj_pt_consume s' = adj_pt_consume s" "adj_pt_read s' = adj_pt_read s" "place_to_port s' = place_to_port s"
    using assms by (simp_all add: wiring_def)
  show g: "adjacent s' = adjacent s" "in_places s' = in_places s" by (simp_all add: fun_eq_iff adjacent_def in_places_def f)
  show n: "input_port_name s' = input_port_name s" by (simp add: fun_eq_iff input_port_name_def f)
  have "bound_name s' = bound_name s" by (simp add: fun_eq_iff bound_name_def n)
  then have i: "input_context s' = input_context s" by (simp add: fun_eq_iff input_context_def g)
  show "holds fp s' = holds fp s" unfolding fun_eq_iff holds_def g i by simp
  show "selects toks s' = selects toks s" "keys_ok s' = keys_ok s" "avoids U s' = avoids U s" "adj_ok tm s' = adj_ok tm s"
    by (simp_all add: fun_eq_iff selects_def keys_ok_def avoids_def adj_ok_def f g)
qed

text \<open>Nothing but the enabled transitions and their choices is changed by bringing a transition up to date.\<close>

definition static :: "net_state \<Rightarrow> net_state" where
  "static s = s\<lparr>enabled := [], enabled_choice := (\<lambda>_. None)\<rparr>"

lemma static_fields:
  assumes "static s' = static s"
  shows "wiring s' = wiring s" "token_by_place_id s' = token_by_place_id s" "next_token s' = next_token s"
    "next_transition s' = next_transition s" "pmap s' = pmap s" "next_place s' = next_place s"
  using assms by (cases s; cases s'; simp add: static_def wiring_def)+

lemma static_spec:
  assumes "static s' = static s"
  shows "valid_choice fp s' = valid_choice fp s" "no_choice fp s' = no_choice fp s" "tokens_ok s' = tokens_ok s"
  unfolding fun_eq_iff valid_choice_def no_choice_def tokens_ok_def wiring_spec [OF static_fields(1) [OF assms]]
    static_fields [OF assms] by simp_all

section \<open>Bringing a transition up to date\<close>

lemma disable_inv:
  assumes "disable tm tid s = (Inr u, s')" and en: "enabled_ok tm s"
  shows "static s' = static s \<and> enabled_ok tm s' \<and> enabled_choice s' = (enabled_choice s)(tid := None)"
proof -
  obtain t where t: "map_of tm tid = Some t"
      and s': "s' = s\<lparr>enabled := enabled_erase (priority (info t)) tid (enabled s), enabled_choice := (enabled_choice s)(tid := None)\<rparr>"
    using assms(1) by (auto simp: disable_def op_inv)
  have "enabled_ok tm s'" using en enabled_erase_wf [of "enabled s" "priority (info t)" tid] t
    by (auto simp: enabled_ok_def s')
  then show ?thesis by (simp add: s' static_def)
qed

lemma enable_inv:
  assumes en: "enabled_ok tm s" and t: "map_of tm tid = Some t"
    and s': "s' = s\<lparr>enabled := enabled_insert (priority (info t)) tid (enabled s), enabled_choice := (enabled_choice s)(tid \<mapsto> ch)\<rparr>"
  shows "static s' = static s \<and> enabled_ok tm s' \<and> enabled_choice s' = (enabled_choice s)(tid \<mapsto> ch)"
proof -
  have "enabled_ok tm s'" using en enabled_insert_wf [of "enabled s" "priority (info t)" tid] t
    by (auto simp: enabled_ok_def s')
  then show ?thesis by (simp add: s' static_def)
qed

lemma decide_enabled_inv:
  assumes d: "distinct (in_places s tid)" and en: "enabled_ok tm s" and ne: "in_places s tid \<noteq> []" and t: "map_of tm tid = Some t"
    and ch: "\<And>ch. enabled_choice s tid = Some ch \<Longrightarrow> keys_ok s tid ch"
    and roots: "condition_key_roots (info t) = Inr roots"
    and ts: "\<forall>p \<in> set (in_places s tid). \<exists>ts. toks p = Inr ts \<and> ts \<noteq> [] \<and> set ts \<subseteq> set (token_by_place_id s p)"
    and r: "decide_enabled fp tm tid t (slots_of toks s tid (info t) roots) s = (Inr u, s')"
  shows "\<exists>c. static s' = static s \<and> enabled_ok tm s' \<and> enabled_choice s' = (enabled_choice s)(tid := c) \<and>
    (case c of Some ch \<Rightarrow> valid_choice fp s tid (info t) ch
     | None \<Rightarrow> \<forall>f. (\<forall>p \<in> set (in_places s tid). \<exists>ts. toks p = Inr ts \<and> f p \<in> set ts) \<longrightarrow> \<not> holds fp s tid (info t) f)"
proof -
  have ts': "\<forall>p \<in> set (in_places s tid). projr (toks p) \<noteq> []" using ts by auto
  obtain b m' where b: "enables fp (info t) (slots_of toks s tid (info t) roots) = Inr (b, m')"
      and rest: "(if b then op_modify (\<lambda>s. s\<lparr>enabled := enabled_insert (priority (info t)) tid (enabled s),
           enabled_choice := (enabled_choice s)(tid \<mapsto>
             write_to m' (case enabled_choice s tid of Some c \<Rightarrow> c | None \<Rightarrow> []))\<rparr>) else disable tm tid) s = (Inr u, s')"
    using r by (auto simp: decide_enabled_def op_inv)
  show ?thesis
  proof (cases b)
    case True
    let ?ch = "write_to m' (case enabled_choice s tid of Some c \<Rightarrow> c | None \<Rightarrow> [])"
    obtain f where f: "selects (projr \<circ> toks) s tid f" "holds fp s tid (info t) f" "current m' = map f (in_places s tid)"
      using enables_sound [OF d roots ts', of fp m'] b True by auto
    have "selects (token_by_place_id s) s tid f" using f(1) ts by (fastforce simp: selects_def)
    moreover have "keys_ok s tid (case enabled_choice s tid of Some c \<Rightarrow> c | None \<Rightarrow> [])"
      using ch by (auto simp: keys_ok_def split: option.split)
    ultimately have "valid_choice fp s tid (info t) ?ch"
      using enables_same [OF ts' b] f d ne by (intro write_to_valid) auto
    then show ?thesis using enable_inv [OF en t, of s' ?ch] rest True by (intro exI [of _ "Some ?ch"]) (simp add: op_simps)
  next
    case False
    then have "disable tm tid s = (Inr u, s')" using rest by simp
    note dis = disable_inv [OF this en]
    have "\<not> holds fp s tid (info t) f" if "\<forall>p \<in> set (in_places s tid). \<exists>ts. toks p = Inr ts \<and> f p \<in> set ts" for f
    proof -
      have "selects (projr \<circ> toks) s tid f" using that by (auto simp: selects_def)
      then show ?thesis using enables_complete [OF roots ts', of fp m' f] b False by simp
    qed
    then show ?thesis using dis by (intro exI [of _ None]) simp
  qed
qed

lemma refresh_enabled_inv:
  assumes adj: "adj_ok tm s" and en: "enabled_ok tm s" and ne: "in_places s tid \<noteq> []"
    and ch: "\<And>ch. enabled_choice s tid = Some ch \<Longrightarrow> keys_ok s tid ch"
    and toks: "\<And>p ts. toks s p = Inr ts \<Longrightarrow> set ts \<subseteq> set (token_by_place_id s p)"
    and r: "refresh_enabled fp tm tid toks s = (Inr u, s')"
  shows "\<exists>t c. map_of tm tid = Some t \<and> static s' = static s \<and> enabled_ok tm s' \<and> enabled_choice s' = (enabled_choice s)(tid := c) \<and>
    (case c of Some ch \<Rightarrow> valid_choice fp s tid (info t) ch
     | None \<Rightarrow> \<forall>f. (\<forall>p \<in> set (in_places s tid). \<exists>ts. toks s p = Inr ts \<and> f p \<in> set ts) \<longrightarrow> \<not> holds fp s tid (info t) f)"
proof -
  obtain t roots slots where t: "map_of tm tid = Some t" and roots: "condition_key_roots (info t) = Inr roots"
      and slots: "collect_slots (toks s) s tid (info t) roots = Inr slots"
      and rest: "(case slots of None \<Rightarrow> disable tm tid | Some m \<Rightarrow> decide_enabled fp tm tid t m) s = (Inr u, s')"
    using r by (auto simp: refresh_enabled_def op_inv)
  note d = in_places_distinct [OF adj]
  show ?thesis
  proof (cases slots)
    case None
    then have "disable tm tid s = (Inr u, s')" using rest by simp
    from disable_inv [OF this en] have "static s' = static s \<and> enabled_ok tm s' \<and> enabled_choice s' = (enabled_choice s)(tid := None)" .
    moreover obtain p where "p \<in> set (in_places s tid)" "toks s p = Inr []" using collect_slots_None slots None by blast
    ultimately show ?thesis using t by (intro exI [of _ t] exI [of _ None]) auto
  next
    case (Some m)
    have m: "m = slots_of (toks s) s tid (info t) roots" and ts: "\<forall>p \<in> set (in_places s tid). \<exists>ts. toks s p = Inr ts \<and> ts \<noteq> []"
      using collect_slots_Some [OF slots [unfolded Some] d] by auto
    have "\<forall>p \<in> set (in_places s tid). \<exists>ts. toks s p = Inr ts \<and> ts \<noteq> [] \<and> set ts \<subseteq> set (token_by_place_id s p)"
      using ts toks by blast
    from decide_enabled_inv [OF d en ne t ch roots this] rest Some m t show ?thesis by auto
  qed
qed

lemma op_for_each_cover:
  assumes "op_for_each f xs s = (Inr u, s')" and "P s"
    and "\<And>x s s'. x \<in> set xs \<Longrightarrow> P s \<Longrightarrow> f x s = (Inr (), s') \<Longrightarrow> P s' \<and> Q x s' \<and> (\<forall>y. Q y s \<longrightarrow> Q y s')"
  shows "P s' \<and> (\<forall>x \<in> set xs. Q x s') \<and> (\<forall>y. Q y s \<longrightarrow> Q y s')"
  using assms
proof (induction xs arbitrary: s)
  case (Cons x xs)
  obtain s1 where s1: "f x s = (Inr (), s1)" and r: "op_for_each f xs s1 = (Inr u, s')"
    using Cons.prems(1) by (auto simp: op_inv)
  have x: "P s1 \<and> Q x s1 \<and> (\<forall>y. Q y s \<longrightarrow> Q y s1)" using Cons.prems(3) [OF _ Cons.prems(2) s1] by simp
  have "P s' \<and> (\<forall>x \<in> set xs. Q x s') \<and> (\<forall>y. Q y s1 \<longrightarrow> Q y s')"
    using Cons.IH [OF r conjunct1 [OF x]] Cons.prems(3) [OF list.set_intros(2)] by blast
  then show ?case using x by auto
qed (simp add: op_inv)

lemma filter_key_unique: "distinct (map fst xs) \<Longrightarrow> x \<in> set xs \<Longrightarrow> fst x = k \<Longrightarrow> filter (\<lambda>y. fst y = k) xs = [x]"
  by (induction xs) (auto simp: filter_empty_conv rev_image_eqI)

section \<open>Refreshing one transition keeps the invariant\<close>

lemma valid_keys: "valid_choice fp s tid t ch \<Longrightarrow> keys_ok s tid ch"
  by (simp add: valid_choice_def keys_ok_def)

lemma no_choice_mono: "no_choice fp s U tid t \<Longrightarrow> U \<subseteq> V \<Longrightarrow> no_choice fp s V tid t"
  unfolding no_choice_def avoids_def by blast

text \<open>How a step that looks at one transition changes the invariant.\<close>

definition touches :: "fp_ops \<Rightarrow> 'm tmap \<Rightarrow> (place_id \<times> token_id) set \<Rightarrow> (place_id \<times> token_id) set \<Rightarrow> transition_id \<Rightarrow> net_state \<Rightarrow> net_state \<Rightarrow> bool" where
  "touches fp tm D U tid s s' \<longleftrightarrow> static s' = static s \<and> enabled_ok tm s' \<and>
     (\<forall>tid'. tid' \<noteq> tid \<longrightarrow> enabled_choice s' tid' = enabled_choice s tid') \<and>
     (\<forall>t. map_of tm tid = Some t \<longrightarrow> tid_ok fp s' D U tid (info t))"

lemma touches_inv:
  assumes i: "net_inv fp tm D U s" and t: "touches fp tm D' U' tid s s'" and sub: "D' \<subseteq> D" "U' \<subseteq> U"
  shows "net_inv fp tm D U s'"
    and "map_of tm tid' = Some t \<Longrightarrow> tid_ok fp s D' U' tid' (info t) \<Longrightarrow> tid_ok fp s' D' U' tid' (info t)"
proof -
  have st: "static s' = static s" and en: "enabled_ok tm s'" and
      oth: "\<And>tid'. tid' \<noteq> tid \<Longrightarrow> enabled_choice s' tid' = enabled_choice s tid'" and
      own: "\<And>t. map_of tm tid = Some t \<Longrightarrow> tid_ok fp s' D' U' tid (info t)"
    using t by (simp_all add: touches_def)
  note spec = static_spec [OF st] wiring_spec [OF static_fields(1) [OF st]]
  have other: "tid' \<noteq> tid \<Longrightarrow> tid_ok fp s' D U tid' t = tid_ok fp s D U tid' t" for tid' t D U
    unfolding tid_ok_def spec by (simp add: oth)
  have own': "tid_ok fp s' D U tid (info t)" if "map_of tm tid = Some t" for t
    using own [OF that] sub(1) no_choice_mono [OF _ sub(2)]
    by (cases "enabled_choice s' tid") (auto simp: tid_ok_def)
  have "tid_ok fp s' D U tid' (info t)" if "map_of tm tid' = Some t" for tid' t
    using own' other that net_invD(4) [OF i that] by (cases "tid' = tid") simp_all
  then show "net_inv fp tm D U s'" using i en by (simp add: net_inv_def spec)
  show "map_of tm tid' = Some t \<Longrightarrow> tid_ok fp s D' U' tid' (info t) \<Longrightarrow> tid_ok fp s' D' U' tid' (info t)"
    using own other by (cases "tid' = tid") simp_all
qed

lemma tid_ok_keys: "tid_ok fp s D U tid t \<Longrightarrow> enabled_choice s tid = Some ch \<Longrightarrow> keys_ok s tid ch"
  by (simp add: tid_ok_def)

lemma inv_keys: "net_inv fp tm D U s \<Longrightarrow> enabled_choice s tid = Some ch \<Longrightarrow> keys_ok s tid ch"
  by (metis enabled_ok_def net_invD(3) net_invD(4) not_None_eq option.distinct(1) tid_ok_keys)

lemma update_enabled_touches:
  assumes "adj_ok tm s" "enabled_ok tm s" "in_places s tid \<noteq> []" "\<And>ch. enabled_choice s tid = Some ch \<Longrightarrow> keys_ok s tid ch"
    and r: "update_enabled fp tm tid s = (Inr u, s')"
  shows "touches fp tm {} {} tid s s'"
proof -
  obtain t c where t: "map_of tm tid = Some t" "static s' = static s" "enabled_ok tm s'" "enabled_choice s' = (enabled_choice s)(tid := c)"
    and c: "case c of Some ch \<Rightarrow> valid_choice fp s tid (info t) ch
     | None \<Rightarrow> \<forall>f. (\<forall>p \<in> set (in_places s tid). \<exists>ts. Inr (token_by_place_id s p) = (Inr ts :: net_error + tokens) \<and> f p \<in> set ts) \<longrightarrow>
         \<not> holds fp s tid (info t) f"
    using refresh_enabled_inv [OF assms(1-4) _ r [unfolded update_enabled_def]] by blast
  note spec = static_spec [OF t(2)] wiring_spec [OF static_fields(1) [OF t(2)]]
  have "tid_ok fp s' {} {} tid (info t)"
    using c unfolding tid_ok_def spec t(4) by (cases c) (simp_all add: valid_keys no_choice_def selects_def)
  then show ?thesis using t by (simp add: touches_def)
qed

lemma new_token_no_choice:
  assumes tok: "tokens_ok s" and tid: "fst u \<in> set (in_places s tid)" and old: "no_choice fp s (insert u U) tid t"
    and none: "\<forall>f. (\<forall>p \<in> set (in_places s tid). \<exists>ts. with_new_token u s p = Inr ts \<and> f p \<in> set ts) \<longrightarrow> \<not> holds fp s tid t f"
  shows "no_choice fp s U tid t"
  unfolding no_choice_def
proof (intro disjI2 allI impI)
  fix f assume f: "selects (token_by_place_id s) s tid f" "avoids U s tid f"
  show "\<not> holds fp s tid t f"
  proof (cases "fst (f (fst u)) = snd u")
    case True
    have "f (fst u) \<in> set (token_by_place_id s (fst u))" using f(1) tid by (simp add: selects_def)
    moreover have "distinct (map fst (token_by_place_id s (fst u)))" using tok by (simp add: tokens_ok_def)
    ultimately have "filter (\<lambda>t. fst t = snd u) (token_by_place_id s (fst u)) = [f (fst u)]"
      using True by (intro filter_key_unique) auto
    then have "\<forall>p \<in> set (in_places s tid). \<exists>ts. with_new_token u s p = Inr ts \<and> f p \<in> set ts"
      using f(1) by (auto simp: with_new_token_def selects_def)
    then show ?thesis using none by simp
  next
    case False
    then have "avoids (insert u U) s tid f" using f(2) by (auto simp: avoids_def)
    then show ?thesis using old f(1) tid by (auto simp: no_choice_def)
  qed
qed

lemma is_enabled_choice:
  "enabled_ok tm s \<Longrightarrow> map_of tm tid = Some t \<Longrightarrow> is_enabled (priority (info t)) tid s \<longleftrightarrow> enabled_choice s tid \<noteq> None"
  by (auto simp: enabled_ok_def is_enabled_members)

lemma update_enabled_put_token_touches:
  assumes i: "net_inv fp tm D (insert u U) s" and tid: "fst u \<in> set (in_places s tid)"
    and r: "update_enabled_put_token fp tm u tid s = (Inr x, s')"
  shows "touches fp tm D U tid s s'"
proof -
  note inv = net_invD [OF i]
  obtain t where t: "map_of tm tid = Some t" and r': "(if is_enabled (priority (info t)) tid s then op_return ()
      else refresh_enabled fp tm tid (with_new_token u)) s = (Inr x, s')"
    using r by (auto simp: update_enabled_put_token_def op_inv)
  note en = is_enabled_choice [OF inv(3) t]
  show ?thesis
  proof (cases "enabled_choice s tid")
    case (Some ch)
    then have "s' = s" using r' en by (auto simp: op_simps)
    then show ?thesis using inv(3) inv(4) [OF t] Some t by (simp add: touches_def tid_ok_def)
  next
    case None
    then have r'': "refresh_enabled fp tm tid (with_new_token u) s = (Inr x, s')" using r' en by simp
    have ne: "in_places s tid \<noteq> []" using tid by auto
    have toks: "with_new_token u s p = Inr ts \<Longrightarrow> set ts \<subseteq> set (token_by_place_id s p)" for p ts
      by (auto simp: with_new_token_def filter_eq_Cons_iff split: if_splits list.splits)
    have keys: "\<And>ch. enabled_choice s tid = Some ch \<Longrightarrow> keys_ok s tid ch" using None by simp
    obtain t' c where t': "map_of tm tid = Some t'" and c: "static s' = static s" "enabled_ok tm s'" "enabled_choice s' = (enabled_choice s)(tid := c)"
      "case c of Some ch \<Rightarrow> valid_choice fp s tid (info t') ch
       | None \<Rightarrow> \<forall>f. (\<forall>p \<in> set (in_places s tid). \<exists>ts. with_new_token u s p = Inr ts \<and> f p \<in> set ts) \<longrightarrow> \<not> holds fp s tid (info t') f"
      using refresh_enabled_inv [OF inv(2,3) ne keys toks r''] by blast
    have "t' = t" using t t' by simp
    have new: "no_choice fp s U tid (info t)" if "c = None"
      using new_token_no_choice [OF inv(1) tid] inv(4) [OF t] None c(4) that \<open>t' = t\<close> by (simp add: tid_ok_def)
    note spec = static_spec [OF c(1)] wiring_spec [OF static_fields(1) [OF c(1)]]
    have "tid_ok fp s' D U tid (info t)" using c(3,4) new \<open>t' = t\<close> unfolding tid_ok_def spec by (cases c) (simp_all add: valid_keys)
    then show ?thesis using c(1-3) t unfolding touches_def by simp
  qed
qed

end
