(* ===== verification/Net_Invariant.thy ===== *)
theory Net_Invariant
  imports Net_Enabled
begin

text \<open>
  Every operation on tokens and on the structure of a net keeps the invariant of \<open>Net_Enabled\<close>.
\<close>

section \<open>New tokens\<close>

lemma tokens_okD:
  assumes "tokens_ok s"
  shows "distinct (map fst (token_by_place_id s p))" "x \<in> set (token_by_place_id s p) \<Longrightarrow> fst x < next_token s"
    "x \<in> set (token_by_place_id s p) \<Longrightarrow> y \<in> set (token_by_place_id s q) \<Longrightarrow> fst x = fst y \<Longrightarrow> p = q"
  using assms unfolding tokens_ok_def by blast+

lemma tokens_okI:
  assumes "\<And>p. distinct (map fst (token_by_place_id s p))" "\<And>p x. x \<in> set (token_by_place_id s p) \<Longrightarrow> fst x < next_token s"
    "\<And>p q x y. x \<in> set (token_by_place_id s p) \<Longrightarrow> y \<in> set (token_by_place_id s q) \<Longrightarrow> fst x = fst y \<Longrightarrow> p = q"
  shows "tokens_ok s"
  using assms unfolding tokens_ok_def by blast

lemma tokens_ok_put:
  assumes "tokens_ok s"
  shows "tokens_ok (s\<lparr>next_token := next_token s + 1,
    token_by_place_id := (token_by_place_id s)(pid := token_by_place_id s pid @ [(next_token s, v)])\<rparr>)"
proof (rule tokens_okI)
  let ?s = "s\<lparr>next_token := next_token s + 1,
    token_by_place_id := (token_by_place_id s)(pid := token_by_place_id s pid @ [(next_token s, v)])\<rparr>"
  note ok = tokens_okD [OF assms]
  have m: "x \<in> set (token_by_place_id ?s p) \<longleftrightarrow> x \<in> set (token_by_place_id s p) \<or> p = pid \<and> x = (next_token s, v)" for x p
    by auto
  show "distinct (map fst (token_by_place_id ?s p))" for p using ok(1,2) by fastforce
  show "x \<in> set (token_by_place_id ?s p) \<Longrightarrow> fst x < next_token ?s" for p x unfolding m using ok(2) less_SucI by fastforce
  show "x \<in> set (token_by_place_id ?s p) \<Longrightarrow> y \<in> set (token_by_place_id ?s q) \<Longrightarrow> fst x = fst y \<Longrightarrow> p = q" for p q x y
    unfolding m using ok(2) [of x p] ok(2) [of y q] ok(3) [of x p y q] by auto
qed

lemma tokens_ok_filter: "tokens_ok s \<Longrightarrow> tokens_ok (s\<lparr>token_by_place_id := (\<lambda>p. filter (P p) (token_by_place_id s p))\<rparr>)"
  by (rule tokens_okI) (auto intro: distinct_map_filter dest: tokens_okD)

lemma tid_ok_not_adjacent:
  assumes "tid_ok fp s D (insert u U) tid t" and "fst u \<notin> set (in_places s tid)"
  shows "tid_ok fp s D U tid t"
proof -
  have "avoids (insert u U) s tid f = avoids U s tid f" for f using assms(2) by (cases u) (auto simp: avoids_def)
  then show ?thesis using assms(1) by (simp add: tid_ok_def no_choice_def split: option.splits)
qed

lemma do_update_inv:
  assumes i: "net_inv fp tm D (insert u U) s" and r: "do_update fp tm u s = (Inr x, s')"
  shows "net_inv fp tm D U s' \<and> static s' = static s"
proof -
  let ?P = "\<lambda>s'. net_inv fp tm D (insert u U) s' \<and> static s' = static s"
  let ?Q = "\<lambda>tid s'. \<forall>t. map_of tm tid = Some t \<longrightarrow> tid_ok fp s' D U tid (info t)"
  have run: "op_for_each (update_enabled_put_token fp tm u) (adjacent s (fst u)) s = (Inr x, s')"
    using r by (auto simp: do_update_def op_inv)
  have "?P s' \<and> (\<forall>tid \<in> set (adjacent s (fst u)). ?Q tid s') \<and> (\<forall>tid. ?Q tid s \<longrightarrow> ?Q tid s')"
  proof (rule op_for_each_cover [OF run])
    show "?P s" using i by simp
    fix tid s1 s2 assume tid: "tid \<in> set (adjacent s (fst u))" and s1: "?P s1" and u: "update_enabled_put_token fp tm u tid s1 = (Inr (), s2)"
    have "fst u \<in> set (in_places s1 tid)" using tid s1 wiring_spec(5) [OF static_fields(1)] by (metis adjacent_set)
    from update_enabled_put_token_touches [OF conjunct1 [OF s1] this u] have t: "touches fp tm D U tid s1 s2" .
    have "?P s2" using touches_inv(1) [OF conjunct1 [OF s1] t] t s1 by (auto simp: touches_def)
    moreover have "?Q tid s2" using t by (simp add: touches_def)
    moreover have "\<forall>y. ?Q y s1 \<longrightarrow> ?Q y s2" using touches_inv(2) [OF conjunct1 [OF s1] t] by blast
    ultimately show "?P s2 \<and> ?Q tid s2 \<and> (\<forall>y. ?Q y s1 \<longrightarrow> ?Q y s2)" by blast
  qed
  then have p: "?P s'" and q: "\<And>tid. fst u \<in> set (in_places s tid) \<Longrightarrow> ?Q tid s'" by (auto simp: adjacent_set)
  have eq: "in_places s' = in_places s" using p wiring_spec(5) [OF static_fields(1)] by blast
  have "tid_ok fp s' D U tid (info t)" if "map_of tm tid = Some t" for tid t
    using q [of tid] that p tid_ok_not_adjacent [of fp s' D u U tid "info t"] eq by (auto simp: net_inv_def)
  then show ?thesis using p by (simp add: net_inv_def)
qed

lemma valid_choice_mono:
  assumes "wiring s' = wiring s" and "\<And>p. set (token_by_place_id s p) \<subseteq> set (token_by_place_id s' p)"
  shows "valid_choice fp s tid t ch \<Longrightarrow> valid_choice fp s' tid t ch"
  using assms(2) unfolding valid_choice_def wiring_spec [OF assms(1)] selects_def by blast

lemma do_put_value_cases:
  "do_put_value pid v s = (case pmap s pid of
     None \<Rightarrow> (Inl map_at, s)
   | Some p \<Rightarrow>
       (case require_type [place_name p] v (place_signature p) of
          Inl e \<Rightarrow> (Inl (type_failed e), s\<lparr>next_token := next_token s + 1\<rparr>)
        | Inr _ \<Rightarrow> (Inr (pid, next_token s), s\<lparr>next_token := next_token s + 1,
            token_by_place_id := (token_by_place_id s)(pid := token_by_place_id s pid @ [(next_token s, v)])\<rparr>)))"
  by (simp add: do_put_value_def op_then_def op_get_def op_modify_def op_throw_def op_return_def at_def split: option.split sum.split)

lemma do_put_value_inv:
  assumes i: "net_inv fp tm D U s" and r: "do_put_value pid v s = (Inr u, s')"
  shows "net_inv fp tm D (insert u U) s'"
    and "u = (pid, next_token s)" "pmap s pid \<noteq> None" "s' = s\<lparr>next_token := next_token s + 1,
      token_by_place_id := (token_by_place_id s)(pid := token_by_place_id s pid @ [(next_token s, v)])\<rparr>"
proof -
  show u: "u = (pid, next_token s)" and pm: "pmap s pid \<noteq> None" and s': "s' = s\<lparr>next_token := next_token s + 1,
      token_by_place_id := (token_by_place_id s)(pid := token_by_place_id s pid @ [(next_token s, v)])\<rparr>"
    using r by (auto simp: do_put_value_cases split: sum.splits option.splits)
  have w: "wiring s' = wiring s" by (simp add: s' wiring_def)
  note inv = net_invD [OF i]
  have tok: "tokens_ok s'" unfolding s' by (rule tokens_ok_put [OF inv(1)])
  have ch: "enabled_choice s' = enabled_choice s" by (simp add: s')
  have sub: "set (token_by_place_id s p) \<subseteq> set (token_by_place_id s' p)" for p by (auto simp: s')
  have prior: "selects (token_by_place_id s) s tid f" if "selects (token_by_place_id s') s tid f" "avoids (insert u U) s tid f" for tid f
    using that unfolding selects_def avoids_def by (fastforce simp: s' u split: if_splits)
  have "tid_ok fp s' D (insert u U) tid t" if o: "tid_ok fp s D U tid t" for tid t
  proof (cases "enabled_choice s tid")
    case (Some c)
    then show ?thesis using o valid_choice_mono [OF w sub] unfolding tid_ok_def wiring_spec [OF w] ch by auto
  next
    case None
    then have "no_choice fp s U tid t" using o by (simp add: tid_ok_def)
    then have "no_choice fp s' (insert u U) tid t"
      using prior unfolding no_choice_def wiring_spec [OF w] by (metis avoids_def insert_iff)
    then show ?thesis using None by (simp add: tid_ok_def ch)
  qed
  moreover have "enabled_ok tm s'" using inv(3) by (simp add: enabled_ok_def s')
  ultimately show "net_inv fp tm D (insert u U) s'"
    using inv(2,4) tok unfolding net_inv_def wiring_spec [OF w] by blast
qed

lemma put_value_inv:
  assumes "net_inv fp tm D U s" and "put_value fp tm pid v s = (Inr x, s')"
  shows "net_inv fp tm D U s'"
  using assms do_put_value_inv(1) do_update_inv by (fastforce simp: put_value_def op_inv)

section \<open>Deleted tokens\<close>

lemma erase_tokens:
  "op_for_each erase_token ds s = (r, s') \<Longrightarrow> r = Inr () \<and>
   s' = s\<lparr>token_by_place_id := (\<lambda>p. filter (\<lambda>t. (p, fst t) \<notin> set ds) (token_by_place_id s p))\<rparr>"
proof (induction ds arbitrary: s)
  case (Cons d ds)
  let ?s = "s\<lparr>token_by_place_id := (token_by_place_id s)(fst d := filter (\<lambda>t. fst t \<noteq> snd d) (token_by_place_id s (fst d)))\<rparr>"
  have "op_for_each erase_token ds ?s = (r, s')" using Cons.prems
    by (simp add: op_then_def erase_token_def [of d] op_modify_def [of "\<lambda>s. s\<lparr>token_by_place_id := _ s\<rparr>"])
  from Cons.IH [OF this] show ?case
    by (cases s; cases d) (auto simp: fun_eq_iff intro: filter_cong)
qed (simp add: op_simps)

lemma erase_tokens_inv:
  assumes i: "net_inv fp tm {} U s"
    and s': "s' = s\<lparr>token_by_place_id := (\<lambda>p. filter (\<lambda>t. (p, fst t) \<notin> D) (token_by_place_id s p))\<rparr>"
  shows "net_inv fp tm D U s'"
proof -
  note inv = net_invD [OF i]
  have w: "wiring s' = wiring s" by (simp add: s' wiring_def)
  have ch: "enabled_choice s' = enabled_choice s" by (simp add: s')
  have tok: "tokens_ok s'" unfolding s' by (rule tokens_ok_filter [OF inv(1)])
  have "tid_ok fp s' D U tid t" if o: "tid_ok fp s {} U tid t" for tid t
  proof (cases "enabled_choice s tid")
    case (Some c)
    have v: "valid_choice fp s tid t c" using o Some by (simp add: tid_ok_def)
    have "valid_choice fp s' tid t c" if no: "\<not> (\<exists>x \<in> set c. (fst x, fst (snd x)) \<in> D)"
    proof -
      obtain f where f: "selects (token_by_place_id s) s tid f" "holds fp s tid t f"
          "\<forall>p \<in> set (in_places s tid). map_of c p = Some (fst (f p), p \<notin> set (places_of tid (adj_pt_consume s)))"
        using v by (auto simp: valid_choice_def)
      have "(p, fst (f p)) \<notin> D" if "p \<in> set (in_places s tid)" for p
        using f(3) that no by (metis fst_conv map_of_SomeD snd_conv)
      then have "selects (token_by_place_id s') s tid f" using f(1) by (simp add: selects_def s')
      then show ?thesis using v f(2,3) unfolding valid_choice_def wiring_spec [OF w] by blast
    qed
    then show ?thesis using o Some v unfolding tid_ok_def wiring_spec [OF w] ch by (auto simp: valid_keys)
  next
    case None
    then have "no_choice fp s U tid t" using o by (simp add: tid_ok_def)
    moreover have "selects (token_by_place_id s') s tid f \<Longrightarrow> selects (token_by_place_id s) s tid f" for f
      by (simp add: selects_def s')
    ultimately have "no_choice fp s' U tid t" unfolding no_choice_def wiring_spec [OF w] by blast
    then show ?thesis using None by (simp add: tid_ok_def ch)
  qed
  moreover have "enabled_ok tm s'" using inv(3) by (simp add: enabled_ok_def s')
  ultimately show ?thesis using inv(2,4) tok unfolding net_inv_def wiring_spec [OF w] by blast
qed

lemma recheck_touches:
  assumes i: "net_inv fp tm (set ds) U s" and ne: "in_places s tid \<noteq> []"
    and r: "recheck fp tm (snd ` set ds) tid s = (Inr x, s')"
  shows "touches fp tm {} U tid s s'"
proof -
  note inv = net_invD [OF i]
  obtain t where t: "map_of tm tid = Some t" and r': "(if is_enabled (priority (info t)) tid s then
       op_then (\<lambda>s. (at (enabled_choice s tid), s)) (\<lambda>choices.
       if list_ex (\<lambda>(_, token, _). token \<in> snd ` set ds) choices then update_enabled fp tm tid else op_return ())
     else op_return ()) s = (Inr x, s')"
    using r by (auto simp: recheck_def op_inv)
  note en = is_enabled_choice [OF inv(3) t]
  have own: "tid_ok fp s (set ds) U tid (info t)" by (rule inv(4) [OF t])
  show ?thesis
  proof (cases "enabled_choice s tid")
    case None
    then have "s' = s" using r' en by (simp add: op_simps)
    then show ?thesis using inv(3) own None t by (simp add: touches_def tid_ok_def)
  next
    case (Some ch)
    then have r'': "(if list_ex (\<lambda>(_, token, _). token \<in> snd ` set ds) ch then update_enabled fp tm tid else op_return ()) s = (Inr x, s')"
      using r' en by (simp add: op_inv)
    show ?thesis
    proof (cases "list_ex (\<lambda>(_, token, _). token \<in> snd ` set ds) ch")
      case True
      have "touches fp tm {} {} tid s s'"
        using update_enabled_touches [OF inv(2,3) ne inv_keys [OF i]] r'' True by simp
      then show ?thesis using no_choice_mono [of fp s' "{}" tid _ U] by (auto simp: touches_def tid_ok_def split: option.splits)
    next
      case False
      then have "s' = s" using r'' by (simp add: op_simps)
      moreover have "\<not> (\<exists>x \<in> set ch. (fst x, fst (snd x)) \<in> set ds)" using False by (force simp: list_ex_iff)
      ultimately show ?thesis using inv(3) own Some t by (auto simp: touches_def tid_ok_def)
    qed
  qed
qed

lemma recheck_list_inv:
  assumes i: "net_inv fp tm (set ds) U s" and tids: "\<forall>tid \<in> set tids. in_places s tid \<noteq> []"
    and run: "op_for_each (recheck fp tm (snd ` set ds)) tids s = (Inr x, s')"
  shows "net_inv fp tm (set ds) U s' \<and> static s' = static s \<and>
    (\<forall>tid \<in> set tids. \<forall>t. map_of tm tid = Some t \<longrightarrow> tid_ok fp s' {} U tid (info t)) \<and>
    (\<forall>tid. (\<forall>t. map_of tm tid = Some t \<longrightarrow> tid_ok fp s {} U tid (info t)) \<longrightarrow>
      (\<forall>t. map_of tm tid = Some t \<longrightarrow> tid_ok fp s' {} U tid (info t)))"
proof -
  let ?P = "\<lambda>s'. net_inv fp tm (set ds) U s' \<and> static s' = static s"
  let ?Q = "\<lambda>tid s'. \<forall>t. map_of tm tid = Some t \<longrightarrow> tid_ok fp s' {} U tid (info t)"
  have "?P s' \<and> (\<forall>tid \<in> set tids. ?Q tid s') \<and> (\<forall>y. ?Q y s \<longrightarrow> ?Q y s')"
  proof (rule op_for_each_cover [where P = ?P and Q = ?Q, OF run])
    show "?P s" using i by simp
    fix tid s1 s2 assume tid: "tid \<in> set tids" and p: "?P s1" and u: "recheck fp tm (snd ` set ds) tid s1 = (Inr (), s2)"
    have "in_places s1 tid \<noteq> []" using tid tids wiring_spec(5) [OF static_fields(1) [OF conjunct2 [OF p]]] by simp
    from recheck_touches [OF conjunct1 [OF p] this u] have t: "touches fp tm {} U tid s1 s2" .
    have "?P s2" using touches_inv(1) [OF conjunct1 [OF p] t] t p by (auto simp: touches_def)
    moreover have "?Q tid s2" using t by (simp add: touches_def)
    moreover have "\<forall>y. ?Q y s1 \<longrightarrow> ?Q y s2" using touches_inv(2) [OF conjunct1 [OF p] t] by blast
    ultimately show "?P s2 \<and> ?Q tid s2 \<and> (\<forall>y. ?Q y s1 \<longrightarrow> ?Q y s2)" by blast
  qed
  then show ?thesis by blast
qed

lemma recheck_all_inv:
  assumes i: "net_inv fp tm (set ds) U s"
    and r: "op_for_each (\<lambda>d. op_then (op_get (\<lambda>s. adjacent s (fst d)))
      (\<lambda>tids. op_for_each (recheck fp tm (snd ` set ds)) tids)) ds s = (Inr x, s')"
  shows "net_inv fp tm {} U s' \<and> static s' = static s"
proof -
  let ?P = "\<lambda>s'. net_inv fp tm (set ds) U s' \<and> static s' = static s"
  let ?R = "\<lambda>(d :: place_id \<times> token_id) s'. \<forall>tid \<in> set (adjacent s (fst d)).
    \<forall>t. map_of tm tid = Some t \<longrightarrow> tid_ok fp s' {} U tid (info t)"
  have "?P s' \<and> (\<forall>d \<in> set ds. ?R d s') \<and> (\<forall>d. ?R d s \<longrightarrow> ?R d s')"
  proof (rule op_for_each_cover [where P = ?P and Q = ?R, OF r])
    show "?P s" using i by simp
    fix d :: "place_id \<times> token_id" and s1 s2 assume p: "?P s1" and "op_then (op_get (\<lambda>s. adjacent s (fst d)))
      (\<lambda>tids. op_for_each (recheck fp tm (snd ` set ds)) tids) s1 = (Inr (), s2)"
    then have run: "op_for_each (recheck fp tm (snd ` set ds)) (adjacent s (fst d)) s1 = (Inr (), s2)"
      using wiring_spec(4) [OF static_fields(1) [OF conjunct2 [OF p]]] by (auto simp: op_inv)
    have "\<forall>tid \<in> set (adjacent s (fst d)). in_places s1 tid \<noteq> []"
      using wiring_spec(5) [OF static_fields(1) [OF conjunct2 [OF p]]] by (auto simp: adjacent_set)
    from recheck_list_inv [OF conjunct1 [OF p] this run] p
    show "?P s2 \<and> ?R d s2 \<and> (\<forall>y. ?R y s1 \<longrightarrow> ?R y s2)" by metis
  qed
  then have p: "?P s'" and q: "\<And>d. d \<in> set ds \<Longrightarrow> ?R d s'" by blast+
  have eq: "in_places s' = in_places s" using p wiring_spec(5) [OF static_fields(1)] by blast
  have "tid_ok fp s' {} U tid (info t)" if t: "map_of tm tid = Some t" for tid t
  proof (cases "\<exists>d \<in> set ds. tid \<in> set (adjacent s (fst d))")
    case True
    then show ?thesis using q t by blast
  next
    case False
    have o: "tid_ok fp s' (set ds) U tid (info t)" using p t by (simp add: net_inv_def)
    have "(fst x, fst (snd x)) \<notin> set ds" if "keys_ok s' tid ch" "x \<in> set ch" for ch x
      using that False by (force simp: keys_ok_def eq adjacent_set)
    then show ?thesis using o unfolding tid_ok_def by (cases "enabled_choice s' tid") auto
  qed
  then show ?thesis using p by (simp add: net_inv_def)
qed

lemma do_delete_inv:
  assumes i: "net_inv fp tm {} U s" and r: "do_delete fp tm ds s = (Inr x, s')"
  shows "net_inv fp tm {} U s' \<and>
    static s' = static (s\<lparr>token_by_place_id := (\<lambda>p. filter (\<lambda>t. (p, fst t) \<notin> set ds) (token_by_place_id s p))\<rparr>)"
proof -
  let ?s = "s\<lparr>token_by_place_id := (\<lambda>p. filter (\<lambda>t. (p, fst t) \<notin> set ds) (token_by_place_id s p))\<rparr>"
  have "op_for_each (\<lambda>d. op_then (op_get (\<lambda>s. adjacent s (fst d)))
      (\<lambda>tids. op_for_each (recheck fp tm (snd ` set ds)) tids)) ds ?s = (Inr x, s')"
    using r erase_tokens [of ds s] by (auto simp: do_delete_def op_then_Inr)
  from recheck_all_inv [OF erase_tokens_inv [OF i refl] this] show ?thesis .
qed

section \<open>Construction\<close>

lemma net_inv_irrelevant:
  assumes "net_inv fp tm D U s" and "wiring s' = wiring s" "token_by_place_id s' = token_by_place_id s"
    "next_token s \<le> next_token s'" "enabled s' = enabled s" "enabled_choice s' = enabled_choice s"
  shows "net_inv fp tm D U s'"
proof -
  note w = wiring_spec [OF assms(2)]
  have "tokens_ok s'" using assms(1,3,4) by (fastforce simp: net_inv_def tokens_ok_def)
  then show ?thesis using assms(1)
    unfolding net_inv_def tid_ok_def valid_choice_def no_choice_def enabled_ok_def w assms(3,5,6) by blast
qed

lemma tid_ok_cong:
  assumes "places_of tid (adj_pt_consume s1) = places_of tid (adj_pt_consume s)"
    "places_of tid (adj_pt_read s1) = places_of tid (adj_pt_read s)" "place_to_port s1 tid = place_to_port s tid"
    and e: "token_by_place_id s1 = token_by_place_id s" "enabled_choice s1 tid = enabled_choice s tid"
  shows "tid_ok fp s1 D U tid t = tid_ok fp s D U tid t"
proof -
  have p: "in_places s1 tid = in_places s tid" using assms(1,2) by (simp add: in_places_def)
  have "input_port_name s1 tid = input_port_name s tid" by (simp add: fun_eq_iff input_port_name_def assms(3))
  then have "bound_name s1 tid = bound_name s tid" by (simp add: fun_eq_iff bound_name_def)
  then have c: "input_context s1 tid = input_context s tid" by (simp add: fun_eq_iff input_context_def p)
  have h: "holds fp s1 tid = holds fp s tid" unfolding fun_eq_iff holds_def p c by simp
  show ?thesis unfolding tid_ok_def valid_choice_def no_choice_def keys_ok_def selects_def avoids_def p h e assms(1) ..
qed

lemma insert_adj_simps [simp]: "set (insert_adj e adj) = insert e (set adj)" "distinct (insert_adj e adj) = distinct adj"
  by (auto simp: insert_adj_def)

lemma adj_ok_insert:
  assumes ok: "adj_ok tm s" and new: "(pid, tid) \<notin> set (adj_pt_consume s) \<union> set (adj_pt_read s)" and tid: "map_of tm tid \<noteq> None"
    and adj: "cons = insert_adj (pid, tid) (adj_pt_consume s) \<and> read = adj_pt_read s \<or>
      cons = adj_pt_consume s \<and> read = insert_adj (pid, tid) (adj_pt_read s)"
  shows "adj_ok tm (s\<lparr>adj_pt_consume := cons, adj_pt_read := read,
      place_to_port := (place_to_port s)(tid := (place_to_port s tid)(pid \<mapsto> port))\<rparr>)"
proof -
  have all: "set cons \<union> set read = insert (pid, tid) (set (adj_pt_consume s) \<union> set (adj_pt_read s))"
    using adj by auto
  have "distinct cons \<and> distinct read \<and> set cons \<inter> set read = {}"
    using ok new adj by (auto simp: adj_ok_def)
  moreover have "\<forall>e \<in> set (adj_pt_consume s) \<union> set (adj_pt_read s). place_to_port s (snd e) (fst e) \<noteq> None \<and> map_of tm (snd e) \<noteq> None"
    using ok unfolding adj_ok_def by blast
  ultimately show ?thesis using tid by (simp add: adj_ok_def all) metis
qed

lemma add_input_connection_inv:
  assumes i: "net_inv fp tm {} {} s" and new: "place_to_port s tid pid = None"
    and s1: "s1 = s\<lparr>adj_pt_consume := cons, adj_pt_read := read,
      place_to_port := (place_to_port s)(tid := (place_to_port s tid)(pid \<mapsto> port))\<rparr>"
    and adj: "cons = insert_adj (pid, tid) (adj_pt_consume s) \<and> read = adj_pt_read s \<or>
      cons = adj_pt_consume s \<and> read = insert_adj (pid, tid) (adj_pt_read s)"
    and r: "update_enabled fp tm tid s1 = (Inr x, s')"
  shows "net_inv fp tm {} {} s'"
proof -
  note inv = net_invD [OF i]
  have new': "(pid, tid) \<notin> set (adj_pt_consume s) \<union> set (adj_pt_read s)"
    using inv(2) new unfolding adj_ok_def by (metis fst_conv snd_conv)
  have tid: "map_of tm tid \<noteq> None" using r by (auto simp: update_enabled_def refresh_enabled_def op_inv)
  have adj1: "adj_ok tm s1" unfolding s1 by (rule adj_ok_insert [OF inv(2) new' tid adj])
  have en1: "enabled_ok tm s1" using inv(3) by (simp add: enabled_ok_def s1)
  have ins: "set (in_places s1 tid) = insert pid (set (in_places s tid))"
    using adj unfolding set_eq_iff insert_iff in_places_set s1 by auto
  then have ne: "in_places s1 tid \<noteq> []" by auto
  have keys: "enabled_choice s1 tid = Some ch \<Longrightarrow> keys_ok s1 tid ch" for ch
    using inv_keys [OF i, of tid ch] ins by (auto simp: keys_ok_def s1)
  note t = update_enabled_touches [OF adj1 en1 ne keys r]
  have oth: "tid_ok fp s1 {} {} tid' t = tid_ok fp s {} {} tid' t" if "tid' \<noteq> tid" for tid' t
    by (rule tid_ok_cong) (use that adj in \<open>auto simp: s1 insert_adj_def places_of_def\<close>)
  have st: "static s' = static s1" and oth': "tid' \<noteq> tid \<Longrightarrow> enabled_choice s' tid' = enabled_choice s1 tid'" for tid'
    using t by (simp_all add: touches_def)
  note w = static_spec [OF st] wiring_spec [OF static_fields(1) [OF st]]
  have own: "tid_ok fp s' {} {} tid' (info t')" if m: "map_of tm tid' = Some t'" for tid' t'
  proof (cases "tid' = tid")
    case True
    then show ?thesis using t m by (simp add: touches_def)
  next
    case False
    have "tid_ok fp s' {} {} tid' (info t') = tid_ok fp s1 {} {} tid' (info t')"
      by (rule tid_ok_cong) (simp_all add: w static_fields [OF st] oth' [OF False])
    then show ?thesis using oth [OF False] inv(4) [OF m] by simp
  qed
  have "tokens_ok s1" using inv(1) by (simp add: tokens_ok_def s1)
  then show ?thesis using own adj1 t unfolding net_inv_def w by (simp add: touches_def)
qed

lemma add_connection_inv:
  assumes i: "net_inv fp tm {} {} s" and r: "add_connection fp tm type tid pid port property s = (Inr x, s')"
  shows "net_inv fp tm {} {} s'"
proof (cases type)
  case PT
  obtain s1 where new: "place_to_port s tid pid = None" and s1: "s1 = s\<lparr>adj_pt_consume := insert_adj (pid, tid) (adj_pt_consume s),
      adj_pt_read := adj_pt_read s, place_to_port := (place_to_port s)(tid := (place_to_port s tid)(pid \<mapsto> (port, property)))\<rparr>"
      and r1: "update_enabled fp tm tid s1 = (Inr x, s')"
    using r PT by (auto simp: add_connection_def op_inv simp del: not_None_eq split: if_splits)
  show ?thesis by (rule add_input_connection_inv [OF i new s1 _ r1]) simp
next
  case PT_READ
  obtain s1 where new: "place_to_port s tid pid = None" and s1: "s1 = s\<lparr>adj_pt_consume := adj_pt_consume s,
      adj_pt_read := insert_adj (pid, tid) (adj_pt_read s), place_to_port := (place_to_port s)(tid := (place_to_port s tid)(pid \<mapsto> (port, property)))\<rparr>"
      and r1: "update_enabled fp tm tid s1 = (Inr x, s')"
    using r PT_READ by (auto simp: add_connection_def op_inv simp del: not_None_eq split: if_splits)
  show ?thesis by (rule add_input_connection_inv [OF i new s1 _ r1]) simp
next
  case TP
  then show ?thesis using r by (intro net_inv_irrelevant [OF i]) (auto simp: add_connection_def op_inv wiring_def split: if_splits)
next
  case TP_MANY
  then show ?thesis using r by (intro net_inv_irrelevant [OF i]) (auto simp: add_connection_def op_inv wiring_def split: if_splits)
qed

lemma add_transition_inv:
  assumes i: "net_inv fp tm {} {} s" and new: "map_of tm tid = None"
  shows "net_inv fp (tm @ [(tid, t)]) {} {} (s\<lparr>next_transition := k\<rparr>)"
proof -
  let ?s = "s\<lparr>next_transition := k\<rparr>" and ?tm = "tm @ [(tid, t)]"
  have i': "net_inv fp tm {} {} ?s" by (rule net_inv_irrelevant [OF i]) (simp_all add: wiring_def)
  note inv = net_invD [OF i']
  have m: "map_of ?tm tid' = (if tid' = tid then Some t else map_of tm tid')" for tid'
    using new by (auto simp: map_add_def split: option.split)
  have c: "enabled_choice ?s tid = None" using inv(3) new unfolding enabled_ok_def by blast
  have "\<not> (\<exists>p. (p, tid) \<in> set (adj_pt_consume ?s) \<union> set (adj_pt_read ?s))"
    using inv(2) new unfolding adj_ok_def by (metis snd_conv)
  then have p: "in_places ?s tid = []" using in_places_set [of _ ?s tid] by (metis last_in_set)
  have "adj_ok ?tm ?s" using inv(2) unfolding adj_ok_def m by auto
  moreover have "enabled_ok ?tm ?s" using inv(3) c unfolding enabled_ok_def m by auto
  moreover have "tid_ok fp ?s {} {} tid (info t)" using c p by (simp add: tid_ok_def no_choice_def)
  ultimately show ?thesis using inv(1,4) unfolding net_inv_def m by auto
qed

end
