(* ===== verification/Net_Fire.thy ===== *)
theory Net_Fire
  imports Net_Invariant
begin

text \<open>
  Firing: the tokens that a transition takes and puts (\<open>fires\<close>), expressions that are evaluated within the net
  (\<open>fire_expression_spec\<close>) and activities that are taken out of it (\<open>extract_activity_spec\<close>).
\<close>

section \<open>What the operations on tokens leave alone\<close>

definition topology :: "net_state \<Rightarrow> net_state" where
  "topology s = s\<lparr>next_token := 0, token_by_place_id := (\<lambda>_. []), enabled := [], enabled_choice := (\<lambda>_. None)\<rparr>"

lemma topology_fields:
  assumes "topology s' = topology s"
  shows "wiring s' = wiring s" "next_transition s' = next_transition s" "pmap s' = pmap s" "next_place s' = next_place s"
    "port_to_place s' = port_to_place s" "port_many_to_place s' = port_many_to_place s"
    "port_to_eureka s' = port_to_eureka s" "port_to_response s' = port_to_response s" "place_id_by_name s' = place_id_by_name s"
  using assms by (cases s; cases s'; simp add: topology_def wiring_def)+

lemma topology_static: "static s' = static s \<Longrightarrow> topology s' = topology s"
  by (cases s; cases s') (simp add: static_def topology_def)

lemma topology_token_fields [simp]:
  "topology (s\<lparr>token_by_place_id := x\<rparr>) = topology s" "topology (s\<lparr>next_token := k\<rparr>) = topology s"
  "topology (s\<lparr>next_token := k, token_by_place_id := x\<rparr>) = topology s"
  by (cases s; simp add: topology_def)+

section \<open>The tokens of all places\<close>

definition places_ok :: "net_state \<Rightarrow> bool" where
  "places_ok s \<longleftrightarrow> (\<forall>p. next_place s \<le> p \<longrightarrow> pmap s p = None \<and> token_by_place_id s p = [])"

definition total_tokens :: "net_state \<Rightarrow> nat" where
  "total_tokens s = (\<Sum>p < next_place s. length (token_by_place_id s p))"

text \<open>The invariant between two operations.\<close>

definition net_ok :: "fp_ops \<Rightarrow> 'm tmap \<Rightarrow> net_state \<Rightarrow> bool" where
  "net_ok fp tm s \<longleftrightarrow> net_inv fp tm {} {} s \<and> places_ok s \<and> distinct (map fst tm) \<and> (\<forall>x \<in> set tm. fst x < next_transition s)"

definition net_step_ok :: "fp_ops \<Rightarrow> 'm tmap \<Rightarrow> net_state \<Rightarrow> net_state \<Rightarrow> bool" where
  "net_step_ok fp tm s s' \<longleftrightarrow> topology s' = topology s \<and> places_ok s' \<and> net_inv fp tm {} {} s'"

lemma net_step_ok: "net_ok fp tm s \<Longrightarrow> net_step_ok fp tm s s' \<Longrightarrow> net_ok fp tm s'"
  by (simp add: net_ok_def net_step_ok_def topology_fields(2) [of s' s])

section \<open>Pending tokens\<close>

text \<open>
  After tokens have been put and before the transitions have been brought up to date: the tokens in \<open>U\<close> are pending,
  and \<open>N\<close> is what has been put to each place.
\<close>

definition pending :: "fp_ops \<Rightarrow> 'm tmap \<Rightarrow> net_state \<Rightarrow> (place_id \<times> token_id) list \<Rightarrow> net_state \<Rightarrow> bool" where
  "pending fp tm s us s' \<longleftrightarrow> topology s' = topology s \<and> places_ok s' \<and> net_inv fp tm {} (set us) s' \<and>
     (\<forall>u \<in> set us. next_token s \<le> snd u) \<and> next_token s \<le> next_token s' \<and>
     (\<forall>p. \<exists>vs. token_by_place_id s' p = token_by_place_id s p @ vs \<and> map fst vs = map snd (filter (\<lambda>u. fst u = p) us)) \<and>
     total_tokens s' = total_tokens s + length us"

lemma pending_refl: "net_inv fp tm {} {} s \<Longrightarrow> places_ok s \<Longrightarrow> pending fp tm s [] s"
  by (simp add: pending_def)

lemma sum_add_one: "(n :: nat) < m \<Longrightarrow> (\<Sum>p < m. f p + (if p = n then 1 else 0)) = (\<Sum>p < m. f p) + (1 :: nat)"
  by (simp add: sum.distrib)

lemma total_tokens_put:
  assumes "pid < next_place s"
    and "s' = s\<lparr>next_token := k, token_by_place_id := (token_by_place_id s)(pid := token_by_place_id s pid @ [x])\<rparr>"
  shows "total_tokens s' = total_tokens s + 1"
proof -
  have "total_tokens s' = (\<Sum>p < next_place s. length (token_by_place_id s p) + (if p = pid then 1 else 0))"
    unfolding total_tokens_def assms(2) by (intro sum.cong) auto
  then show ?thesis using sum_add_one [OF assms(1)] by (simp add: total_tokens_def)
qed

lemma pending_put:
  assumes p: "pending fp tm s us s1" and r: "do_put_value pid v s1 = (Inr u, s2)"
  shows "pending fp tm s (us @ [u]) s2"
proof -
  have i: "net_inv fp tm {} (set us) s1" and pl: "places_ok s1" using p by (simp_all add: pending_def)
  note put = do_put_value_inv [OF i r]
  have lt: "pid < next_place s1" using put(3) pl by (metis places_ok_def not_le)
  have "next_place s2 = next_place s1" "pmap s2 = pmap s1" "topology s2 = topology s1" by (simp_all add: put(4))
  then have "places_ok s2" using pl lt by (auto simp: places_ok_def put(4))
  moreover have "\<exists>vs. token_by_place_id s2 q = token_by_place_id s q @ vs \<and> map fst vs = map snd (filter (\<lambda>u. fst u = q) (us @ [u]))" for q
  proof -
    obtain vs where "token_by_place_id s1 q = token_by_place_id s q @ vs" "map fst vs = map snd (filter (\<lambda>u. fst u = q) us)"
      using p by (auto simp: pending_def)
    then show ?thesis
      by (intro exI [of _ "vs @ (if q = pid then [(next_token s1, v)] else [])"]) (auto simp: put(2,4))
  qed
  moreover have "total_tokens s2 = total_tokens s + length (us @ [u])"
    using p total_tokens_put [OF lt put(4)] by (simp add: pending_def)
  moreover have le: "next_token s \<le> next_token s1" and t: "topology s1 = topology s" and us: "\<forall>u \<in> set us. next_token s \<le> snd u"
    using p by (simp_all add: pending_def)
  moreover have "topology s2 = topology s" "next_token s \<le> next_token s2" using t le by (simp_all add: put(4))
  moreover have "net_inv fp tm {} (set (us @ [u])) s2" using put(1) by simp
  moreover have "\<forall>u \<in> set (us @ [u]). next_token s \<le> snd u" using us le put(2) by simp
  ultimately show ?thesis unfolding pending_def by simp
qed

lemma pending_put_many:
  assumes "pending fp tm s us s1" and "put_many pid vs s1 = (Inr us', s2)"
  shows "pending fp tm s (us @ us') s2"
  using assms
proof (induction vs arbitrary: us us' s1)
  case (Cons v vs)
  obtain u us'' s3 where u: "do_put_value pid v s1 = (Inr u, s3)" and rest: "put_many pid vs s3 = (Inr us'', s2)" and us': "us' = u # us''"
    using Cons.prems(2) by (auto simp: op_inv)
  from Cons.IH [OF pending_put [OF Cons.prems(1) u] rest] show ?case by (simp add: us')
qed (simp add: op_inv)

lemma do_updates_inv:
  assumes "net_inv fp tm D (set us) s" and "op_for_each (do_update fp tm) us s = (Inr x, s')"
  shows "net_inv fp tm D {} s' \<and> static s' = static s"
  using assms
proof (induction us arbitrary: s)
  case (Cons u us)
  obtain s1 where u: "do_update fp tm u s = (Inr (), s1)" and rest: "op_for_each (do_update fp tm) us s1 = (Inr x, s')"
    using Cons.prems(2) by (auto simp: op_inv)
  have "net_inv fp tm D (set us) s1 \<and> static s1 = static s"
    by (rule do_update_inv [OF _ u]) (use Cons.prems(1) in simp)
  then show ?case using Cons.IH [OF _ rest] by auto
qed (simp add: op_inv)

lemma places_ok_static: "static s' = static s \<Longrightarrow> places_ok s' = places_ok s"
  unfolding places_ok_def by (simp add: static_fields [of s' s])

lemma total_tokens_static: "static s' = static s \<Longrightarrow> total_tokens s' = total_tokens s"
  unfolding total_tokens_def by (simp add: static_fields [of s' s])

lemma put_value_ok:
  assumes i: "net_inv fp tm {} {} s" "places_ok s" and r: "put_value fp tm pid v s = (Inr x, s')"
  shows "net_step_ok fp tm s s'"
    and "total_tokens s' = total_tokens s + 1"
    and "token_by_place_id s' = (token_by_place_id s)(pid := token_by_place_id s pid @ [(next_token s, v)])"
proof -
  obtain u s1 where u: "do_put_value pid v s = (Inr u, s1)" and d: "do_update fp tm u s1 = (Inr x, s')"
    using r by (auto simp: put_value_def op_inv)
  have p: "pending fp tm s [u] s1" using pending_put [OF pending_refl [OF i] u] by simp
  have e: "op_for_each (do_update fp tm) [u] s1 = (Inr (), s')" using d by (simp add: op_then_Inr op_simps)
  have "net_inv fp tm {} {} s' \<and> static s' = static s1" by (rule do_updates_inv [OF _ e]) (use p in \<open>simp add: pending_def\<close>)
  then have st: "static s' = static s1" and i': "net_inv fp tm {} {} s'" by simp_all
  show "net_step_ok fp tm s s'" using p i' topology_static [OF st] places_ok_static [OF st] by (simp add: net_step_ok_def pending_def)
  show "total_tokens s' = total_tokens s + 1" using p total_tokens_static [OF st] by (simp add: pending_def)
  show "token_by_place_id s' = (token_by_place_id s)(pid := token_by_place_id s pid @ [(next_token s, v)])"
    unfolding static_fields(2) [OF st] do_put_value_inv(4) [OF i(1) u] by simp
qed

section \<open>The tokens a transition takes\<close>

definition take_tokens :: "net_state \<Rightarrow> transition_id \<Rightarrow> (place_id \<Rightarrow> token_id \<times> value_type) \<Rightarrow> place_id \<Rightarrow> tokens" where
  "take_tokens s tid f p =
     (if p \<in> set (places_of tid (adj_pt_consume s)) then filter (\<lambda>t. fst t \<noteq> fst (f p)) (token_by_place_id s p)
      else token_by_place_id s p)"

lemma extract_choice_deleted:
  "extract_choice s tid fun ch acc ds = Inr (acc', ds') \<Longrightarrow> set ds' = set ds \<union> {(p, tok). (p, tok, False) \<in> set ch}"
proof (induction ch arbitrary: acc ds)
  case (Cons c ch)
  obtain p tok r where c: "c = (p, tok, r)" by (cases c)
  obtain acc1 where "extract_choice s tid fun ch acc1 (if r then ds else (p, tok) # ds) = Inr (acc', ds')"
    using Cons.prems by (auto simp: c and_then_eq_Inr)
  from Cons.IH [OF this] show ?case by (cases r) (auto simp: c)
qed simp

lemma do_extract_tokens:
  assumes i: "net_inv fp tm {} U s" and t: "map_of tm tid = Some t" and r: "do_extract s tid fun acc = Inr (acc', ds)"
  shows "\<exists>ch f. enabled_choice s tid = Some ch \<and> valid_choice fp s tid (info t) ch \<and>
    selects (token_by_place_id s) s tid f \<and> holds fp s tid (info t) f \<and>
    (\<forall>p \<in> set (in_places s tid). map_of ch p = Some (fst (f p), p \<notin> set (places_of tid (adj_pt_consume s)))) \<and>
    set ds = {(p, fst (f p)) | p. p \<in> set (places_of tid (adj_pt_consume s))}"
proof -
  obtain ch where ch: "enabled_choice s tid = Some ch" and e: "extract_choice s tid fun ch acc [] = Inr (acc', ds)"
    using r by (auto simp: do_extract_def and_then_eq_Inr at_Inr)
  have v: "valid_choice fp s tid (info t) ch" using net_invD(4) [OF i t] ch by (simp add: tid_ok_def)
  then obtain f where f: "selects (token_by_place_id s) s tid f" "holds fp s tid (info t) f"
      "\<forall>p \<in> set (in_places s tid). map_of ch p = Some (fst (f p), p \<notin> set (places_of tid (adj_pt_consume s)))"
      and d: "distinct (map fst ch)" "fst ` set ch = set (in_places s tid)"
    by (auto simp: valid_choice_def)
  have m: "(p, tok, rd) \<in> set ch \<longleftrightarrow> p \<in> set (in_places s tid) \<and> tok = fst (f p) \<and> rd = (p \<notin> set (places_of tid (adj_pt_consume s)))" for p tok rd
  proof (cases "p \<in> set (in_places s tid)")
    case True
    then show ?thesis using map_of_eq_Some_iff [OF d(1), of p "(tok, rd)"] bspec [OF f(3) True] by auto
  next
    case False
    then show ?thesis unfolding d(2) [symmetric] by (auto simp: rev_image_eqI)
  qed
  have "set (places_of tid (adj_pt_consume s)) \<subseteq> set (in_places s tid)" by (simp add: in_places_def)
  then have "set ds = {(p, fst (f p)) | p. p \<in> set (places_of tid (adj_pt_consume s))}"
    unfolding extract_choice_deleted [OF e] m by auto
  then show ?thesis using ch v f by blast
qed

lemma filter_taken:
  assumes "set ds = {(p, fst (f p)) | p. p \<in> set (places_of tid (adj_pt_consume s))}"
  shows "filter (\<lambda>t. (p, fst t) \<notin> set ds) (token_by_place_id s p) = take_tokens s tid f p"
  unfolding assms by (auto simp: take_tokens_def intro: filter_cong)

lemma mset_take_one: "distinct (map fst ts) \<Longrightarrow> x \<in> set ts \<Longrightarrow> mset ts = add_mset x (mset (filter (\<lambda>t. fst t \<noteq> fst x) ts))"
proof (induction ts)
  case (Cons t ts)
  show ?case
  proof (cases "t = x")
    case True
    then have "filter (\<lambda>t. fst t \<noteq> fst x) ts = ts" using Cons.prems by (auto simp: filter_id_conv image_iff)
    then show ?thesis using True by simp
  next
    case False
    then show ?thesis using Cons by auto
  qed
qed simp

lemma total_tokens_taken:
  assumes "tokens_ok s" and pl: "places_ok s" and sel: "selects (token_by_place_id s) s tid f" and d: "distinct (places_of tid (adj_pt_consume s))"
  shows "(\<Sum>p < next_place s. length (take_tokens s tid f p)) + length (places_of tid (adj_pt_consume s)) = total_tokens s"
proof -
  let ?C = "set (places_of tid (adj_pt_consume s))"
  have ne: "f p \<in> set (token_by_place_id s p)" if "p \<in> ?C" for p using sel that by (auto simp: selects_def in_places_def)
  have "length (take_tokens s tid f p) + (if p \<in> ?C then 1 else 0) = length (token_by_place_id s p)" for p
    using arg_cong [where f = size, OF mset_take_one [OF tokens_okD(1) [OF assms(1)] ne, of p]]
    by (auto simp: take_tokens_def simp del: mset_filter)
  then have "total_tokens s = (\<Sum>p < next_place s. length (take_tokens s tid f p) + (if p \<in> ?C then 1 else 0))"
    by (simp add: total_tokens_def)
  also have "\<dots> = (\<Sum>p < next_place s. length (take_tokens s tid f p)) + card ({..<next_place s} \<inter> ?C)"
    by (simp add: sum.distrib sum.If_cases)
  also have "{..<next_place s} \<inter> ?C = ?C"
  proof -
    have "p < next_place s" if "p \<in> ?C" for p
      using ne [OF that] pl unfolding places_ok_def by (metis empty_iff list.set(1) not_le)
    then show ?thesis by auto
  qed
  finally show ?thesis using d by (simp add: distinct_card)
qed

section \<open>Operations that do not look at the net\<close>

definition keeps_net :: "('w run, 'a) operation \<Rightarrow> bool" where
  "keeps_net m \<longleftrightarrow> (\<forall>r x r'. m r = (x, r') \<longrightarrow> run_net r' = run_net r)"

lemma keeps_netD: "keeps_net m \<Longrightarrow> m r = (x, r') \<Longrightarrow> run_net r' = run_net r"
  by (simp add: keeps_net_def)

lemma keeps_then: "keeps_net m \<Longrightarrow> (\<And>x. keeps_net (f x)) \<Longrightarrow> keeps_net (op_then m f)"
  unfolding keeps_net_def op_then_def by (auto split: prod.splits sum.splits)

lemma keeps_simple:
  "keeps_net (op_return x)" "keeps_net (op_result q)" "keeps_net (op_get g)" "keeps_net (on_world w)"
  "keeps_net (plugins_at pid)" "(\<And>r. run_net (h r) = run_net r) \<Longrightarrow> keeps_net (op_modify h)"
  by (auto simp: keeps_net_def op_simps on_world_def plugins_at_def split: prod.splits)

lemma keeps_for_each: "(\<And>x. keeps_net (f x)) \<Longrightarrow> keeps_net (op_for_each f xs)"
  by (induction xs) (simp_all add: keeps_then keeps_simple)

lemma keeps_nest: "keeps_net m \<Longrightarrow> keeps_net (nest msg m)"
  by (auto simp: keeps_net_def nest_def split: prod.splits sum.splits)

lemma keeps_plugins: "keeps_net (plugins_create env path c)" "keeps_net (plugins_destroy env pid)"
  "keeps_net (plugins_before_eval env c pid)" "keeps_net (plugins_after_eval env c pid)"
  by (auto simp: plugins_create_def plugins_destroy_def plugins_before_eval_def plugins_after_eval_def intro!: keeps_then keeps_simple)

lemma keeps_call_plugins: "(\<And>c pid. keeps_net (call c pid)) \<Longrightarrow> keeps_net (call_plugins fp env call key cs c)"
  by (auto simp: call_plugins_def intro!: keeps_then keeps_simple keeps_for_each split: option.split prod.split)

lemma keeps_plugins_before: "keeps_net (plugins_before fp env cs c)"
  by (auto simp: plugins_before_def intro!: keeps_then keeps_simple keeps_plugins keeps_call_plugins split: option.split)

lemma keeps_plugins_after: "keeps_net (plugins_after fp env cs c)"
  by (auto simp: plugins_after_def intro!: keeps_then keeps_simple keeps_plugins keeps_call_plugins split: option.split)

lemma keeps_send_eureka: "keeps_net (send_eureka env v)"
  by (auto simp: send_eureka_def intro!: keeps_then keeps_simple keeps_nest)

lemma on_net_Inr: "on_net f r = (Inr x, r') \<longleftrightarrow> (\<exists>s. f (run_net r) = (Inr x, s) \<and> r' = r\<lparr>run_net := s\<rparr>)"
  by (auto simp: on_net_def split: prod.splits)

section \<open>Firing an expression\<close>

definition connected_outputs :: "net_state \<Rightarrow> transition_id \<Rightarrow> (port_id \<times> port) list \<Rightarrow> place_id set" where
  "connected_outputs s tid ps =
     {pid. \<exists>p \<in> set ps. \<exists>q. port_to_place s tid (fst p) = Some (pid, q) \<or> port_many_to_place s tid (fst p) = Some (pid, q)}"

text \<open>An output that is connected to no place puts no tokens and does not look at the net.\<close>

definition quiet :: "('w run, 'a list) operation \<Rightarrow> bool" where
  "quiet m \<longleftrightarrow> (\<forall>r us r'. m r = (Inr us, r') \<longrightarrow> us = [] \<and> run_net r' = run_net r)"

lemma quiet_rules:
  "quiet (op_return [])" "keeps_net m \<Longrightarrow> (\<And>x. quiet (f x)) \<Longrightarrow> quiet (op_then m f)" "quiet n \<Longrightarrow> quiet (nest msg n)"
  by (auto simp: quiet_def keeps_net_def op_simps op_then_Inr nest_def split: prod.splits sum.splits)

lemma fire_output_quiet:
  assumes "port_to_place (run_net r) tid (fst p) = None" "port_many_to_place (run_net r) tid (fst p) = None"
    and f: "fire_output env tid c p r = (Inr us, r')"
  shows "us = [] \<and> run_net r' = run_net r"
proof -
  define s where "s = run_net r"
  let ?v = "lift_expr (context_value [port_name (snd p)] c)"
  let ?m = "if port_to_eureka s tid = Some (fst p)
    then op_then (op_then (op_result ?v) (send_eureka env)) (\<lambda>_. op_return [])
    else nest ''fire_expression: sending workflow response failed''
      (op_then (op_result (at (port_to_response s tid (fst p)))) (\<lambda>(to, _).
       op_then (op_result (lift_expr (context_value [to] c))) (\<lambda>description.
       op_then (op_result ?v) (\<lambda>v.
       op_then (on_world (workflow_response env description v)) (\<lambda>_. op_return [])))))"
  have m: "?m r = (Inr us, r')" using f assms(1,2) by (auto simp: fire_output_def op_then_Inr op_simps Let_def s_def)
  have "quiet ?m"
    by (auto intro!: quiet_rules keeps_then keeps_simple keeps_send_eureka split: prod.split)
  then show ?thesis using m unfolding quiet_def by blast
qed

lemma fire_output_pending:
  assumes p: "pending fp tm s us (run_net r)" and f: "fire_output env tid c port r = (Inr us', r')"
  shows "pending fp tm s (us @ us') (run_net r') \<and> fst ` set us' \<subseteq> connected_outputs s tid [port] \<and>
    (port_many_to_place s tid (fst port) = None \<longrightarrow> length us' \<le> (if port_to_place s tid (fst port) = None then 0 else 1))"
proof -
  have top: "topology (run_net r) = topology s" using p by (simp add: pending_def)
  note t = topology_fields [OF top]
  have many: "put_many pid vs s1 = (Inr us', s2) \<Longrightarrow> fst ` set us' \<subseteq> {pid} \<and> length us' = length vs" for pid vs s1 us' s2
    by (induction vs arbitrary: s1 us') (fastforce simp: op_inv do_put_value_cases split: option.splits sum.splits)+
  show ?thesis
  proof (cases "port_to_place s tid (fst port)")
    case (Some x)
    obtain pid q where x: "x = (pid, q)" by (cases x)
    obtain v s1 where s1: "put_many pid [v] (run_net r) = (Inr us', s1)" "r' = r\<lparr>run_net := s1\<rparr>"
      using f Some by (auto simp: x fire_output_def op_then_Inr op_simps on_net_Inr t simp del: put_many.simps)
    then show ?thesis using pending_put_many [OF p s1(1)] many [OF s1(1)] Some
      by (auto simp: connected_outputs_def x)
  next
    case one: None
    show ?thesis
    proof (cases "port_many_to_place s tid (fst port)")
      case (Some x)
      obtain pid q where x: "x = (pid, q)" by (cases x)
      obtain vs s1 where s1: "put_many pid vs (run_net r) = (Inr us', s1)" "r' = r\<lparr>run_net := s1\<rparr>"
        using f one Some by (auto simp: x fire_output_def op_then_Inr op_simps on_net_Inr t)
      then show ?thesis using pending_put_many [OF p s1(1)] many [OF s1(1)] Some
        by (auto simp: connected_outputs_def x)
    next
      case None
      have "us' = [] \<and> run_net r' = run_net r"
        using fire_output_quiet [OF _ _ f] one None by (simp add: t)
      then show ?thesis using p one None by simp
    qed
  qed
qed

lemma connected_outputs_Cons: "connected_outputs s tid (p # ps) = connected_outputs s tid [p] \<union> connected_outputs s tid ps"
  by (auto simp: connected_outputs_def)

lemma fire_outputs_pending:
  assumes "pending fp tm s us (run_net r)" and "fire_outputs env tid c ps r = (Inr us', r')"
  shows "pending fp tm s (us @ us') (run_net r') \<and> fst ` set us' \<subseteq> connected_outputs s tid ps \<and>
    ((\<forall>k. port_many_to_place s tid k = None) \<longrightarrow> length us' \<le> length (filter (\<lambda>p. port_to_place s tid (fst p) \<noteq> None) ps))"
  using assms
proof (induction ps arbitrary: us us' r)
  case (Cons p ps)
  obtain us1 r1 us2 where u: "fire_output env tid c p r = (Inr us1, r1)" and rest: "fire_outputs env tid c ps r1 = (Inr us2, r')"
      and us': "us' = us1 @ us2"
    using Cons.prems(2) by (auto simp: op_inv)
  note one = fire_output_pending [OF Cons.prems(1) u]
  note more = Cons.IH [OF conjunct1 [OF one] rest]
  show ?case using one more
    by (cases "port_to_place s tid (fst p)") (auto simp: us' connected_outputs_Cons [of s tid p ps])
qed (simp add: op_inv)

text \<open>
  The tokens after a transition has fired: those that it takes are gone, and new tokens have been appended.
\<close>

definition fires :: "net_state \<Rightarrow> transition_id \<Rightarrow> (place_id \<Rightarrow> token_id \<times> value_type) \<Rightarrow> (place_id \<times> token_id) list \<Rightarrow> net_state \<Rightarrow> bool" where
  "fires s tid f us s' \<longleftrightarrow>
     (\<forall>p. \<exists>vs. token_by_place_id s' p = take_tokens s tid f p @ vs \<and> map fst vs = map snd (filter (\<lambda>u. fst u = p) us)) \<and>
     total_tokens s' + length (places_of tid (adj_pt_consume s)) = total_tokens s + length us"

lemma delete_pending:
  assumes i: "net_inv fp tm {} {} s" "places_ok s" and p: "pending fp tm s us s1"
    and sel: "selects (token_by_place_id s) s tid f"
    and ds: "set ds = {(p, fst (f p)) | p. p \<in> set (places_of tid (adj_pt_consume s))}"
    and r: "do_delete fp tm ds s1 = (Inr x, s2)"
  shows "net_inv fp tm {} (set us) s2 \<and> topology s2 = topology s \<and> places_ok s2 \<and> fires s tid f us s2"
proof -
  have i1: "net_inv fp tm {} (set us) s1" and top: "topology s1 = topology s" and pl: "places_ok s1"
    and tot: "total_tokens s1 = total_tokens s + length us" using p by (simp_all add: pending_def)
  let ?s = "s1\<lparr>token_by_place_id := (\<lambda>p. filter (\<lambda>t. (p, fst t) \<notin> set ds) (token_by_place_id s1 p))\<rparr>"
  have i2: "net_inv fp tm {} (set us) s2" and st: "static s2 = static ?s" using do_delete_inv [OF i1 r] by simp_all
  have top2: "topology s2 = topology s" using topology_static [OF st] top by simp
  have tok2: "token_by_place_id s2 p = filter (\<lambda>t. (p, fst t) \<notin> set ds) (token_by_place_id s1 p)" for p
    using static_fields(2) [OF st] by simp
  have pl2: "places_ok s2" using pl places_ok_static [OF st] by (auto simp: places_ok_def)
  have new: "\<exists>vs. token_by_place_id s2 p = take_tokens s tid f p @ vs \<and> token_by_place_id s1 p = token_by_place_id s p @ vs \<and>
      map fst vs = map snd (filter (\<lambda>u. fst u = p) us)" for p
  proof -
    obtain vs where vs: "token_by_place_id s1 p = token_by_place_id s p @ vs" "map fst vs = map snd (filter (\<lambda>u. fst u = p) us)"
      using p by (auto simp: pending_def)
    have "(p, fst v) \<notin> set ds" if "v \<in> set vs" for v
    proof
      assume "(p, fst v) \<in> set ds"
      then have "fst v = fst (f p)" "p \<in> set (in_places s tid)" unfolding ds by (auto simp: in_places_def)
      then have "fst v < next_token s" using sel tokens_okD(2) [OF net_invD(1) [OF i(1)]] by (metis selects_def)
      moreover have "fst v \<in> snd ` set us" using that vs(2) by (metis (mono_tags, lifting) filter_is_subset image_mono image_set list.set_map rev_image_eqI subsetD)
      ultimately show False using p by (auto simp: pending_def)
    qed
    then have "filter (\<lambda>t. (p, fst t) \<notin> set ds) vs = vs" by (simp add: filter_id_conv)
    then show ?thesis using vs filter_taken [OF ds] by (intro exI [of _ vs]) (simp add: tok2)
  qed
  have np: "next_place s2 = next_place s" "next_place s1 = next_place s" by (rule topology_fields(4) [OF top2], rule topology_fields(4) [OF top])
  have "length (token_by_place_id s2 p) + length (token_by_place_id s p) = length (take_tokens s tid f p) + length (token_by_place_id s1 p)" for p
    using new [of p] by auto
  then have "(\<Sum>p < next_place s. length (token_by_place_id s2 p) + length (token_by_place_id s p)) =
      (\<Sum>p < next_place s. length (take_tokens s tid f p) + length (token_by_place_id s1 p))" by simp
  then have "total_tokens s2 + total_tokens s = (\<Sum>p < next_place s. length (take_tokens s tid f p)) + total_tokens s1"
    by (simp add: sum.distrib total_tokens_def np)
  moreover have "distinct (places_of tid (adj_pt_consume s))"
    using net_invD(2) [OF i(1)] by (simp add: adj_ok_def places_of_distinct)
  ultimately have "total_tokens s2 + length (places_of tid (adj_pt_consume s)) = total_tokens s + length us"
    using total_tokens_taken [OF net_invD(1) [OF i(1)] i(2) sel] tot by simp
  then show ?thesis using i2 top2 pl2 new unfolding fires_def by blast
qed

lemma fires_static: "fires s tid f us s1 \<Longrightarrow> static s2 = static s1 \<Longrightarrow> fires s tid f us s2"
  by (simp add: fires_def static_fields(2) [of s2 s1] total_tokens_static [of s2 s1])

theorem fire_expression_spec:
  assumes i: "net_inv fp tm {} {} (run_net r)" "places_ok (run_net r)" and t: "map_of tm tid = Some t"
    and r: "fire_expression fp env tm tid t e r = (Inr x, r')"
  shows "\<exists>f us. selects (token_by_place_id (run_net r)) (run_net r) tid f \<and> holds fp (run_net r) tid (info t) f \<and>
    net_step_ok fp tm (run_net r) (run_net r') \<and> fires (run_net r) tid f us (run_net r') \<and>
    fst ` set us \<subseteq> connected_outputs (run_net r) tid (ports_output (info t)) \<and>
    ((\<forall>k. port_many_to_place (run_net r) tid k = None) \<longrightarrow>
      length us \<le> length (filter (\<lambda>p. port_to_place (run_net r) tid (fst p) \<noteq> None) (ports_output (info t))))"
proof -
  let ?s = "run_net r"
  define cs where "cs = property_get [''gspc'', ''we'', ''plugin''] (transition_prop (info t))"
  obtain c ds r1 c1 c2 v r2 c3 us r3 s4 s5
    where ex: "do_extract ?s tid (context_bind (info t)) empty_context = Inr (c, ds)"
      and b: "plugins_before fp env cs c r = (Inr c1, r1)"
      and a: "plugins_after fp env cs c2 r1 = (Inr c3, r2)"
      and o: "fire_outputs env tid c3 (ports_output (info t)) r2 = (Inr us, r3)"
      and d: "do_delete fp tm ds (run_net r3) = (Inr (), s4)"
      and u: "op_for_each (do_update fp tm) us s4 = (Inr (), s5)" and r': "run_net r' = s5"
    using r by (auto simp: fire_expression_def op_then_Inr op_simps on_net_Inr Let_def cs_def)
  have n: "run_net r2 = ?s" using keeps_netD [OF keeps_plugins_before b] keeps_netD [OF keeps_plugins_after a] by simp
  obtain f where f: "selects (token_by_place_id ?s) ?s tid f" "holds fp ?s tid (info t) f"
      and ds: "set ds = {(p, fst (f p)) | p. p \<in> set (places_of tid (adj_pt_consume ?s))}"
    using do_extract_tokens [OF i(1) t ex] by blast
  have "pending fp tm ?s [] (run_net r2)" using pending_refl [OF i] n by simp
  note out = fire_outputs_pending [OF this o, simplified]
  have del: "net_inv fp tm {} (set us) s4" "topology s4 = topology ?s" "places_ok s4" "fires ?s tid f us s4"
    using delete_pending [OF i conjunct1 [OF out] f(1) ds d] by simp_all
  have st: "static s5 = static s4" and i5: "net_inv fp tm {} {} s5" using do_updates_inv [OF del(1) u] by simp_all
  have "net_step_ok fp tm ?s s5" using topology_static [OF st] del(2,3) i5 places_ok_static [OF st] by (simp add: net_step_ok_def)
  moreover have "fires ?s tid f us s5" by (rule fires_static [OF del(4) st])
  ultimately show ?thesis using f out r' by auto
qed

theorem extract_activity_spec:
  assumes i: "net_inv fp tm {} {} s" "places_ok s" and t: "map_of tm tid = Some t"
    and r: "extract_activity fp tm tid t s = (Inr a, s')"
  shows "\<exists>ch f ds. enabled_choice s tid = Some ch \<and> extract_choice s tid (add_input fp) ch (make_activity t (Some tid)) [] = Inr (a, ds) \<and>
    (\<forall>p \<in> set (in_places s tid). map_of ch p = Some (fst (f p), p \<notin> set (places_of tid (adj_pt_consume s)))) \<and>
    selects (token_by_place_id s) s tid f \<and> holds fp s tid (info t) f \<and>
    net_step_ok fp tm s s' \<and> fires s tid f [] s'"
proof -
  obtain ds where ex: "do_extract s tid (add_input fp) (make_activity t (Some tid)) = Inr (a, ds)" and d: "do_delete fp tm ds s = (Inr (), s')"
    using r by (auto simp: extract_activity_def op_inv)
  obtain ch f where f: "enabled_choice s tid = Some ch" "selects (token_by_place_id s) s tid f" "holds fp s tid (info t) f"
      "\<forall>p \<in> set (in_places s tid). map_of ch p = Some (fst (f p), p \<notin> set (places_of tid (adj_pt_consume s)))"
      and ds: "set ds = {(p, fst (f p)) | p. p \<in> set (places_of tid (adj_pt_consume s))}"
    using do_extract_tokens [OF i(1) t ex] by blast
  have "extract_choice s tid (add_input fp) ch (make_activity t (Some tid)) [] = Inr (a, ds)"
    using ex f(1) by (simp add: do_extract_def at_def)
  moreover have "net_step_ok fp tm s s' \<and> fires s tid f [] s'"
    using delete_pending [OF i pending_refl [OF i] f(2) ds d] by (simp add: net_step_ok_def)
  ultimately show ?thesis using f by blast
qed

end
