(* ===== verification/Net_Reach.thy ===== *)
theory Net_Reach
  imports Net_Fire
begin

text \<open>
  Nets that are built and run: \<open>reachable\<close> are the nets that arise from the empty net by successful
  operations and by operations that refuse a token. All of them fulfil the invariant (\<open>reachable_ok\<close>).
\<close>

section \<open>Injecting results\<close>

lemma put_values_ok:
  assumes "net_ok fp tm s" and "op_for_each (put_value fp tm pid) vs s = (Inr x, s')"
  shows "net_ok fp tm s'"
  by (rule op_for_each_inv [OF assms(2), of "net_ok fp tm", OF assms(1)])
    (metis net_ok_def net_step_ok put_value_ok(1))

lemma inject_token_ok:
  assumes ok: "net_ok fp tm (run_net r)" and r: "inject_token fp env tm tid input out r = (Inr x, r')"
  shows "net_ok fp tm (run_net r')"
proof -
  let ?s = "run_net r"
  have ok': "net_inv fp tm {} {} ?s" "places_ok ?s" using ok by (simp_all add: net_ok_def)
  show ?thesis
  proof (cases "port_to_place ?s tid (snd out)")
    case (Some y)
    then obtain pid q s' where "put_value fp tm pid (fst out) ?s = (Inr x, s')" "r' = r\<lparr>run_net := s'\<rparr>"
      using r by (cases y) (auto simp: inject_token_def op_inv on_net_Inr)
    then show ?thesis using net_step_ok [OF ok put_value_ok(1) [OF ok']] by auto
  next
    case one: None
    show ?thesis
    proof (cases "port_many_to_place ?s tid (snd out)")
      case (Some y)
      then obtain pid q vs s' where "op_for_each (put_value fp tm pid) vs ?s = (Inr x, s')" "r' = r\<lparr>run_net := s'\<rparr>"
        using r one by (cases y) (auto simp: inject_token_def op_inv on_net_Inr)
      then show ?thesis using put_values_ok [OF ok] by auto
    next
      case None
      let ?m = "if port_to_eureka ?s tid = Some (snd out) then send_eureka env (fst out)
              else nest ''inject result: sending workflow response failed''
                (op_then (op_result (at (port_to_response ?s tid (snd out)))) (\<lambda>(to, _).
                 op_then (op_result (at (map_of tm tid))) (\<lambda>t.
                 op_then (op_result (input_port_by_name (info t) to)) (\<lambda>port.
                 case filter (\<lambda>i. snd i = port) input of
                   [] \<Rightarrow> op_throw undefined_behaviour_in_net
                 | i # _ \<Rightarrow> on_world (workflow_response env (fst i) (fst out))))))"
      have m: "?m r = (Inr x, r')" using r one None unfolding inject_token_def op_then_Inr op_simps by auto
      have k: "keeps_net ?m"
        by (auto intro!: keeps_then keeps_simple keeps_nest keeps_send_eureka split: prod.split list.split)
          (simp add: keeps_net_def op_simps)
      show ?thesis unfolding keeps_netD [OF k m] by (rule ok)
    qed
  qed
qed

lemma inject_ok:
  assumes "net_ok fp tm (run_net r)" and "inject fp env tm tid output input r = (Inr x, r')"
  shows "net_ok fp tm (run_net r')"
proof (rule op_for_each_inv [where P = "\<lambda>r. net_ok fp tm (run_net r)", OF assms(2) [unfolded inject_def]])
  show "net_ok fp tm (run_net r)" by (rule assms(1))
qed (rule inject_token_ok)

section \<open>Nets that are built and run\<close>

inductive reachable :: "fp_ops \<Rightarrow> 'w environment \<Rightarrow> 'm net \<Rightarrow> bool" for fp env where
  empty: "reachable fp env (Net empty_net_state [])"
| place: "reachable fp env n \<Longrightarrow> add_place p (state n) = (Inr pid, s) \<Longrightarrow> reachable fp env (Net s (transitions n))"
| transition: "reachable fp env n \<Longrightarrow> reachable fp env (snd (add_transition t n))"
| connection: "reachable fp env n \<Longrightarrow> add_connection fp (transitions n) type tid pid port q (state n) = (Inr u, s) \<Longrightarrow>
    reachable fp env (Net s (transitions n))"
| response: "reachable fp env n \<Longrightarrow> add_response tid port to q (state n) = (Inr u, s) \<Longrightarrow> reachable fp env (Net s (transitions n))"
| eureka: "reachable fp env n \<Longrightarrow> add_eureka tid port (state n) = (Inr u, s) \<Longrightarrow> reachable fp env (Net s (transitions n))"
| put: "reachable fp env n \<Longrightarrow> put_value fp (transitions n) pid v (state n) = (Inr u, s) \<Longrightarrow> reachable fp env (Net s (transitions n))"
| put_named: "reachable fp env n \<Longrightarrow> put_token fp (transitions n) name v (state n) = (Inr u, s) \<Longrightarrow>
    reachable fp env (Net s (transitions n))"
| rejected: "reachable fp env n \<Longrightarrow> do_put_value pid v (state n) = (Inl e, s0) \<Longrightarrow>
    put_value fp (transitions n) pid v (state n) = (r, s) \<Longrightarrow> reachable fp env (Net s (transitions n))"
| fire: "reachable fp env n \<Longrightarrow> run_net r = state n \<Longrightarrow> map_of (transitions n) tid = Some t \<Longrightarrow>
    fire_expression fp env (transitions n) tid t e r = (Inr u, r') \<Longrightarrow> reachable fp env (Net (run_net r') (transitions n))"
| activity: "reachable fp env n \<Longrightarrow> map_of (transitions n) tid = Some t \<Longrightarrow>
    extract_activity fp (transitions n) tid t (state n) = (Inr a, s) \<Longrightarrow> reachable fp env (Net s (transitions n))"
| inject: "reachable fp env n \<Longrightarrow> run_net r = state n \<Longrightarrow>
    inject fp env (transitions n) tid out inp r = (Inr u, r') \<Longrightarrow> reachable fp env (Net (run_net r') (transitions n))"

lemma net_ok_irrelevant:
  assumes "net_ok fp tm s" and "wiring s' = wiring s" "token_by_place_id s' = token_by_place_id s" "next_token s \<le> next_token s'"
    "enabled s' = enabled s" "enabled_choice s' = enabled_choice s" "next_transition s' = next_transition s" "places_ok s'"
  shows "net_ok fp tm s'"
  using assms net_inv_irrelevant [of fp tm "{}" "{}" s s'] by (simp add: net_ok_def)

lemma update_enabled_static:
  assumes "update_enabled fp tm tid s = (Inr u, s')"
  shows "next_place s' = next_place s \<and> pmap s' = pmap s \<and> token_by_place_id s' = token_by_place_id s \<and>
      next_transition s' = next_transition s"
proof -
  let ?same = "\<lambda>s s'. next_place s' = next_place s \<and> pmap s' = pmap s \<and> token_by_place_id s' = token_by_place_id s \<and>
      next_transition s' = next_transition s"
  have dis: "disable tm tid s = (Inr u, s') \<Longrightarrow> ?same s s'" for u s'
    by (auto simp: disable_def op_inv)
  obtain t roots slots where rest: "(case slots of None \<Rightarrow> disable tm tid | Some m \<Rightarrow> decide_enabled fp tm tid t m) s = (Inr u, s')"
    using assms by (auto simp: update_enabled_def refresh_enabled_def op_inv)
  show ?thesis
  proof (cases slots)
    case None
    then show ?thesis using dis rest by simp
  next
    case (Some m)
    then obtain b m' where "(if b then op_modify (\<lambda>s. s\<lparr>enabled := enabled_insert (priority (info t)) tid (enabled s),
         enabled_choice := (enabled_choice s)(tid \<mapsto>
           write_to m' (case enabled_choice s tid of Some c \<Rightarrow> c | None \<Rightarrow> []))\<rparr>)
     else disable tm tid) s = (Inr u, s')" using rest by (auto simp: decide_enabled_def op_inv)
    then show ?thesis using dis by (cases b) (simp_all add: op_simps)
  qed
qed

lemma add_connection_ok:
  assumes ok: "net_ok fp tm s" and r: "add_connection fp tm type tid pid port q s = (Inr u, s')"
  shows "net_ok fp tm s'"
proof -
  have "net_inv fp tm {} {} s'" by (rule add_connection_inv [OF _ r]) (use ok in \<open>simp add: net_ok_def\<close>)
  moreover have "next_place s' = next_place s \<and> pmap s' = pmap s \<and> token_by_place_id s' = token_by_place_id s \<and>
      next_transition s' = next_transition s"
    using r by (cases type) (auto simp: add_connection_def op_inv dest!: update_enabled_static split: if_splits)
  ultimately show ?thesis using ok by (simp add: net_ok_def places_ok_def)
qed

lemma add_place_ok:
  assumes ok: "net_ok fp tm s" and r: "add_place p s = (Inr pid, s')"
  shows "net_ok fp tm s'"
  using r ok by (intro net_ok_irrelevant [OF ok])
    (auto simp: add_place_def op_inv wiring_def net_ok_def places_ok_def split: if_splits)

lemma add_transition_ok:
  assumes ok: "net_ok fp (transitions n) (state n)"
  shows "net_ok fp (transitions (snd (add_transition t n))) (state (snd (add_transition t n)))"
proof -
  let ?tid = "next_transition (state n)"
  have new: "map_of (transitions n) ?tid = None" using ok by (force simp: net_ok_def map_of_eq_None_iff)
  have "net_inv fp (transitions n @ [(?tid, t)]) {} {} ((state n)\<lparr>next_transition := ?tid + 1\<rparr>)"
    by (rule add_transition_inv [OF _ new]) (use ok in \<open>simp add: net_ok_def\<close>)
  then show ?thesis using ok new
    by (auto simp: add_transition_def Let_def net_ok_def places_ok_def map_of_eq_None_iff)
qed

lemma empty_net_ok: "net_ok fp [] empty_net_state"
  by (simp add: net_ok_def net_inv_def tokens_ok_def adj_ok_def enabled_ok_def enabled_wf_def places_ok_def empty_net_state_def)

lemma fire_expression_ok:
  assumes ok: "net_ok fp tm (run_net r)" and t: "map_of tm tid = Some t" and r: "fire_expression fp env tm tid t e r = (Inr x, r')"
  shows "net_ok fp tm (run_net r')"
proof -
  have "net_inv fp tm {} {} (run_net r)" "places_ok (run_net r)" using ok by (simp_all add: net_ok_def)
  from fire_expression_spec [OF this t r] have "net_step_ok fp tm (run_net r) (run_net r')" by blast
  then show ?thesis by (rule net_step_ok [OF ok])
qed

lemma extract_activity_ok:
  assumes ok: "net_ok fp tm s" and t: "map_of tm tid = Some t" and r: "extract_activity fp tm tid t s = (Inr a, s')"
  shows "net_ok fp tm s'"
proof -
  have "net_inv fp tm {} {} s" "places_ok s" using ok by (simp_all add: net_ok_def)
  from extract_activity_spec [OF this t r] have "net_step_ok fp tm s s'" by blast
  then show ?thesis by (rule net_step_ok [OF ok])
qed

lemma reachable_ok: "reachable fp env n \<Longrightarrow> net_ok fp (transitions n) (state n)"
proof (induction rule: reachable.induct)
  case empty
  show ?case by (simp add: empty_net_ok)
next
  case (place n p pid s)
  then show ?case by (simp add: add_place_ok)
next
  case (transition n t)
  show ?case by (rule add_transition_ok [OF transition.IH])
next
  case (connection n type tid pid port q u s)
  then show ?case by (simp add: add_connection_ok)
next
  case (response n tid port to q u s)
  have "net_ok fp (transitions n) s" using response
    by (intro net_ok_irrelevant [OF response.IH]) (auto simp: add_response_def op_inv wiring_def net_ok_def places_ok_def split: if_splits)
  then show ?case by simp
next
  case (eureka n tid port u s)
  have "net_ok fp (transitions n) s" using eureka
    by (intro net_ok_irrelevant [OF eureka.IH]) (auto simp: add_eureka_def op_inv wiring_def net_ok_def places_ok_def split: if_splits)
  then show ?case by simp
next
  case (put n pid v u s)
  then show ?case by (metis net.sel net_ok_def net_step_ok put_value_ok(1))
next
  case (put_named n name v u s)
  then obtain pid where "put_value fp (transitions n) pid v (state n) = (Inr u, s)"
    by (auto simp: put_token_def op_inv split: option.splits if_splits)
  then show ?case using put_named.IH by (metis net.sel net_ok_def net_step_ok put_value_ok(1))
next
  case (rejected n pid v e s0 r s)
  then have "s = state n \<or> s = (state n)\<lparr>next_token := next_token (state n) + 1\<rparr>"
    by (auto simp: put_value_def op_then_def do_put_value_cases split: option.splits sum.splits)
  then have "net_ok fp (transitions n) s" using rejected.IH
    by (intro net_ok_irrelevant [OF rejected.IH]) (auto simp: wiring_def net_ok_def places_ok_def)
  then show ?case by simp
next
  case (fire n r tid t e u r')
  then show ?case using fire_expression_ok [of fp "transitions n" r tid t env e u r'] by simp
next
  case (activity n tid t a s)
  then show ?case using extract_activity_ok [of fp "transitions n" "state n" tid t a s] by simp
next
  case (inject n r tid out inp u r')
  then show ?case using inject_ok [of fp "transitions n" r env tid out inp u r'] by simp
qed

end
