(* ===== verification/Net_Properties.thy ===== *)
theory Net_Properties
  imports Net_Reach
begin

text \<open>
  The properties of nets: enabledness is recorded exactly, taking an activity refines the firing rule of Petri nets on
  markings, the loop over expressions respects priorities, ends for nets whose expressions consume more than they put
  and makes progress. An example net shows that the hypotheses can hold.
\<close>

section \<open>The marking of a net\<close>

definition marking :: "net_state \<Rightarrow> place_id \<Rightarrow> value_type multiset" where
  "marking s p = image_mset snd (mset (token_by_place_id s p))"

lemma marking_taken:
  assumes "tokens_ok s" and "selects (token_by_place_id s) s tid f" and "token_by_place_id s' p = take_tokens s tid f p @ vs"
  shows "marking s' p = marking s p - (if p \<in> set (places_of tid (adj_pt_consume s)) then {#snd (f p)#} else {#}) + mset (map snd vs)"
proof (cases "p \<in> set (places_of tid (adj_pt_consume s))")
  case True
  then have "f p \<in> set (token_by_place_id s p)" using assms(2) by (simp add: selects_def in_places_def)
  from mset_take_one [OF tokens_okD(1) [OF assms(1)] this]
  have "mset (token_by_place_id s p) = add_mset (f p) (mset (take_tokens s tid f p))" using True by (simp add: take_tokens_def)
  then show ?thesis using True assms(3) by (simp add: marking_def)
next
  case False
  then show ?thesis using assms(3) by (simp add: marking_def take_tokens_def)
qed

section \<open>Activities get the tokens that were chosen\<close>

definition is_net :: "'m transition \<Rightarrow> bool" where
  "is_net t \<longleftrightarrow> (case data t of Sub_net _ \<Rightarrow> True | _ \<Rightarrow> False)"

lemma extract_choice_input:
  assumes "extract_choice s tid (add_input fp) ch a ds = Inr (a', ds')" and "\<not> is_net (activity_transition a)"
  shows "a' = a\<lparr>activity_input := activity_input a @
    map (\<lambda>(p, tok, _). (the (map_of (token_by_place_id s p) tok), fst (the (place_to_port s tid p)))) ch\<rparr>"
  using assms
proof (induction ch arbitrary: a ds)
  case (Cons c ch)
  obtain p tok rd where c: "c = (p, tok, rd)" by (cases c)
  obtain port q v a1 where 1: "place_to_port s tid p = Some (port, q)" "map_of (token_by_place_id s p) tok = Some v"
      "add_input fp port v a = Inr a1" and rest: "extract_choice s tid (add_input fp) ch a1 (if rd then ds else (p, tok) # ds) = Inr (a', ds')"
    using Cons.prems(1) by (auto simp: c and_then_eq_Inr at_Inr)
  have a1: "a1 = a\<lparr>activity_input := activity_input a @ [(v, port)]\<rparr>"
    using 1(3) Cons.prems(2) by (auto simp: add_input_def is_net_def split: if_splits transition_data.splits)
  from Cons.IH [OF rest] show ?case using Cons.prems(2) by (simp add: c 1 a1)
qed simp

lemma chosen_value:
  assumes "tokens_ok s" "selects (token_by_place_id s) s tid f" "p \<in> set (in_places s tid)"
  shows "map_of (token_by_place_id s p) (fst (f p)) = Some (snd (f p))"
  using assms tokens_okD(1) [OF assms(1)] by (simp add: selects_def)

lemma add_input_id:
  assumes "add_input fp port v a = Inr a1"
  shows "activity_transition_id a1 = activity_transition_id a"
proof (cases "data (activity_transition a)")
  case (Sub_net n)
  then show ?thesis using assms
    by (auto simp: add_input_def and_then_eq_Inr split: if_splits option.splits)
      (auto split: prod.split_asm sum.split_asm)
qed (use assms in \<open>auto simp: add_input_def split: if_splits\<close>)

lemma extract_choice_id:
  "extract_choice s tid (add_input fp) ch a ds = Inr (a', ds') \<Longrightarrow> activity_transition_id a' = activity_transition_id a"
proof (induction ch arbitrary: a ds)
  case (Cons c ch)
  obtain p tok rd where c: "c = (p, tok, rd)" by (cases c)
  obtain port v a1 where 1: "add_input fp port v a = Inr a1"
      and rest: "extract_choice s tid (add_input fp) ch a1 (if rd then ds else (p, tok) # ds) = Inr (a', ds')"
    using Cons.prems(1) by (auto simp: c and_then_eq_Inr)
  have "activity_transition_id a1 = activity_transition_id a"
    by (rule add_input_id [OF 1])
  then show ?case using Cons.IH [OF rest] by simp
qed simp

lemma chosen_inputs:
  assumes tok: "tokens_ok s" and sel: "selects (token_by_place_id s) s tid f"
    and ch: "distinct (map fst ch)" "fst ` set ch = set (in_places s tid)" and d: "distinct (in_places s tid)"
    and f: "\<forall>p \<in> set (in_places s tid). map_of ch p = Some (fst (f p), R p)"
  shows "mset (map (\<lambda>(p, tok, _). (the (map_of (token_by_place_id s p) tok), port p)) ch) =
    {#(snd (f p), port p). p \<in># mset (in_places s tid)#}"
proof -
  have "(case c of (p, tok, _) \<Rightarrow> (the (map_of (token_by_place_id s p) tok), port p)) = (snd (f (fst c)), port (fst c))" if "c \<in> set ch" for c
  proof -
    obtain p tk rd where c: "c = (p, tk, rd)" by (cases c)
    have p: "p \<in> set (in_places s tid)" using that ch(2) c by force
    have "map_of ch p = Some (tk, rd)" using that c ch(1) by simp
    then have "tk = fst (f p)" using f p by simp
    then show ?thesis using chosen_value [OF tok sel p] by (simp add: c)
  qed
  then have "map (\<lambda>(p, tok, _). (the (map_of (token_by_place_id s p) tok), port p)) ch = map (\<lambda>p. (snd (f p), port p)) (map fst ch)"
    by (simp add: comp_def)
  moreover have "mset (map fst ch) = mset (in_places s tid)" using ch d set_eq_iff_mset_eq_distinct [of "map fst ch"] by (metis list.set_map)
  ultimately show ?thesis by (metis mset_map)
qed

section \<open>Properties\<close>

text \<open>
  C1: In every net that is built and run by the operations, a transition is recorded as enabled exactly if it has
  input places and there is a choice of one token from each of them for which the condition evaluates to true, and the
  record is ordered by priority.
\<close>

theorem enabled_exact:
  assumes "reachable fp env n" and "map_of (transitions n) tid = Some t"
  shows "(is_enabled (priority (info t)) tid (state n) \<longleftrightarrow> transition_enabled fp (state n) tid (info t)) \<and>
    sorted_wrt (>) (map fst (enabled (state n)))"
proof -
  have i: "net_inv fp (transitions n) {} {} (state n)" using reachable_ok [OF assms(1)] by (simp add: net_ok_def)
  note inv = net_invD [OF i]
  have "(enabled_choice (state n) tid \<noteq> None) \<longleftrightarrow> transition_enabled fp (state n) tid (info t)"
    using inv(4) [OF assms(2)]
    by (auto simp: tid_ok_def transition_enabled_def valid_choice_def no_choice_def avoids_def split: option.splits)
  then show ?thesis using is_enabled_choice [OF inv(3) assms(2)] inv(3) by (simp add: enabled_ok_def enabled_wf_def)
qed

text \<open>
  C2: Taking an activity out of a net refines the firing rule of Petri nets on markings: there is a choice of one token of each input place
  that fulfils the condition, exactly the chosen tokens on the places with a consuming connection disappear, nothing
  else changes, and the activity of a transition that is not itself a net gets each chosen value on the port that
  is connected to its place.
\<close>

theorem extract_activity_refines:
  assumes "reachable fp env n" and t: "map_of (transitions n) tid = Some t"
    and r: "extract_activity fp (transitions n) tid t (state n) = (Inr a, s')"
  shows "\<exists>f. holds fp (state n) tid (info t) f \<and>
    (\<forall>p \<in> set (in_places (state n) tid). snd (f p) \<in># marking (state n) p) \<and>
    (\<forall>p. marking s' p = marking (state n) p - (if p \<in> set (places_of tid (adj_pt_consume (state n))) then {#snd (f p)#} else {#})) \<and>
    activity_transition_id a = Some tid \<and>
    (\<not> is_net t \<longrightarrow> activity_transition a = t \<and>
      mset (activity_input a) = {#(snd (f p), fst (the (place_to_port (state n) tid p))). p \<in># mset (in_places (state n) tid)#})"
proof -
  let ?s = "state n"
  have ok: "net_inv fp (transitions n) {} {} ?s" "places_ok ?s" using reachable_ok [OF assms(1)] by (simp_all add: net_ok_def)
  note inv = net_invD [OF ok(1)]
  obtain ch f ds where f: "enabled_choice ?s tid = Some ch" "extract_choice ?s tid (add_input fp) ch (make_activity t (Some tid)) [] = Inr (a, ds)"
      "\<forall>p \<in> set (in_places ?s tid). map_of ch p = Some (fst (f p), p \<notin> set (places_of tid (adj_pt_consume ?s)))"
      "selects (token_by_place_id ?s) ?s tid f" "holds fp ?s tid (info t) f" "fires ?s tid f [] s'"
    using extract_activity_spec [OF ok t r] by blast
  have ch: "distinct (map fst ch)" "fst ` set ch = set (in_places ?s tid)"
    using inv(4) [OF t] f(1) by (auto simp: tid_ok_def valid_choice_def)
  have "token_by_place_id s' p = take_tokens ?s tid f p @ []" for p using f(6) by (simp add: fires_def)
  from marking_taken [OF inv(1) f(4) this]
  have m: "\<forall>p. marking s' p = marking ?s p - (if p \<in> set (places_of tid (adj_pt_consume ?s)) then {#snd (f p)#} else {#})" by simp
  have v: "\<forall>p \<in> set (in_places ?s tid). snd (f p) \<in># marking ?s p" using f(4) by (auto simp: selects_def marking_def)
  have "activity_transition a = t \<and>
      mset (activity_input a) = {#(snd (f p), fst (the (place_to_port ?s tid p))). p \<in># mset (in_places ?s tid)#}" if "\<not> is_net t"
    using extract_choice_input [OF f(2)] that chosen_inputs [OF inv(1) f(4) ch in_places_distinct [OF inv(2)] f(3)]
    by (simp add: make_activity_def)
  then show ?thesis using f(5) v m extract_choice_id [OF f(2)] by (auto simp: make_activity_def)
qed

section \<open>Running a net\<close>

inductive fires_expressions :: "fp_ops \<Rightarrow> 'w environment \<Rightarrow> 'm tmap \<Rightarrow> 'w run \<Rightarrow> 'w run \<Rightarrow> bool" for fp env tm where
  none: "fires_expressions fp env tm r r"
| step: "enabled (run_net r) = (q, tids) # es \<Longrightarrow> tid \<in> set tids \<Longrightarrow> map_of tm tid = Some t \<Longrightarrow> data t = Expression e \<Longrightarrow>
    fire_expression fp env tm tid t e r = (Inr u, r1) \<Longrightarrow> fires_expressions fp env tm r1 r2 \<Longrightarrow> fires_expressions fp env tm r r2"

definition highest :: "fp_ops \<Rightarrow> 'm tmap \<Rightarrow> net_state \<Rightarrow> transition_id \<Rightarrow> 'm transition \<Rightarrow> bool" where
  "highest fp tm s tid t \<longleftrightarrow> map_of tm tid = Some t \<and> transition_enabled fp s tid (info t) \<and>
     (\<forall>tid' t'. map_of tm tid' = Some t' \<longrightarrow> transition_enabled fp s tid' (info t') \<longrightarrow> priority (info t') \<le> priority (info t))"

definition draws :: "('g \<Rightarrow> nat \<Rightarrow> nat \<times> 'g) \<Rightarrow> bool" where
  "draws draw \<longleftrightarrow> (\<forall>g k. 0 < k \<longrightarrow> fst (draw g k) < k)"

lemma enabled_members:
  assumes ok: "net_ok fp tm s"
  shows "(p, tid) \<in> members (enabled s) \<longleftrightarrow> (\<exists>t. map_of tm tid = Some t \<and> priority (info t) = p \<and> transition_enabled fp s tid (info t))"
proof -
  have i: "net_inv fp tm {} {} s" using ok by (simp add: net_ok_def)
  have "enabled_choice s tid \<noteq> None \<longleftrightarrow> transition_enabled fp s tid (info t)" if "map_of tm tid = Some t" for t
    using net_invD(4) [OF i that]
    by (auto simp: tid_ok_def transition_enabled_def valid_choice_def no_choice_def avoids_def split: option.splits)
  then show ?thesis using net_invD(3) [OF i] by (auto simp: enabled_ok_def)
qed

lemma first_enabled:
  assumes ok: "net_ok fp tm s" and e: "enabled s = (q, tids) # es"
  shows "tids \<noteq> []" and "tid \<in> set tids \<Longrightarrow> \<exists>t. highest fp tm s tid t \<and> priority (info t) = q"
proof -
  have wf: "enabled_wf (enabled s)" using ok by (simp add: net_ok_def net_inv_def enabled_ok_def)
  then show "tids \<noteq> []" by (simp add: enabled_wf_def e)
  assume "tid \<in> set tids"
  then have "(q, tid) \<in> members (enabled s)" by (simp add: e)
  then obtain t where t: "map_of tm tid = Some t" "priority (info t) = q" "transition_enabled fp s tid (info t)"
    using enabled_members [OF ok] by blast
  have "priority (info t') \<le> q" if "map_of tm tid' = Some t'" "transition_enabled fp s tid' (info t')" for tid' t'
  proof -
    have "(priority (info t'), tid') \<in> members (enabled s)" using enabled_members [OF ok] that by blast
    then have "priority (info t') \<in> fst ` set (enabled s)" by (rule members_fst)
    then show ?thesis using wf by (auto simp: e enabled_wf_def)
  qed
  then show "\<exists>t. highest fp tm s tid t \<and> priority (info t) = q" using t unfolding highest_def by blast
qed

lemma none_enabled: "net_ok fp tm s \<Longrightarrow> enabled s = [] \<Longrightarrow> map_of tm tid = Some t \<Longrightarrow> \<not> transition_enabled fp s tid (info t)"
  using enabled_members [of fp tm s] by fastforce

lemma drawn:
  assumes "net_ok fp tm s" "draws draw" "enabled s = (q, tids) # es" "draw g (length tids) = (i, g1)"
  shows "\<exists>t. tids ! i \<in> set tids \<and> map_of tm (tids ! i) = Some t \<and> highest fp tm s (tids ! i) t"
proof -
  have "i < length tids" using first_enabled(1) [OF assms(1,3)] assms(2,4) unfolding draws_def by (metis fst_conv length_greater_0_conv)
  then have "tids ! i \<in> set tids" by simp
  moreover obtain t where "highest fp tm s (tids ! i) t" using first_enabled(2) [OF assms(1,3) \<open>tids ! i \<in> set tids\<close>] by blast
  ultimately show ?thesis by (auto simp: highest_def)
qed

lemma extracted_id: "on_net (extract_activity fp tm tid t) r = (Inr a, r') \<Longrightarrow> activity_transition_id a = Some tid"
  by (auto simp: on_net_Inr extract_activity_def op_inv do_extract_def and_then_eq_Inr make_activity_def dest!: extract_choice_id)

definition run_result :: "fp_ops \<Rightarrow> 'w environment \<Rightarrow> 'm tmap \<Rightarrow> 'w run \<Rightarrow> 'm activity option \<Rightarrow> 'w run \<Rightarrow> bool" where
  "run_result fp env tm r res r' \<longleftrightarrow> (case res of
      None \<Rightarrow> fires_expressions fp env tm r r' \<and> (\<forall>tid t. map_of tm tid = Some t \<longrightarrow> \<not> transition_enabled fp (run_net r') tid (info t))
    | Some a \<Rightarrow> (\<exists>r1 tid t. fires_expressions fp env tm r r1 \<and> highest fp tm (run_net r1) tid t \<and> (\<forall>e. data t \<noteq> Expression e) \<and>
        activity_transition_id a = Some tid \<and> on_net (extract_activity fp tm tid t) r1 = (Inr a, r')))"

lemma run_result_step:
  assumes "enabled (run_net r) = (q, tids) # es" "tid \<in> set tids" "map_of tm tid = Some t" "data t = Expression e"
    "fire_expression fp env tm tid t e r = (Inr u, r1)" "run_result fp env tm r1 res r'"
  shows "run_result fp env tm r res r'"
  using assms(6) fires_expressions.step [OF assms(1-5)] unfolding run_result_def by (cases res) (simp_all, blast)

lemma run_result_turn:
  assumes ok: "net_ok fp tm (run_net r)" "draws draw" and e: "enabled (run_net r) = (q, tids) # es" and d: "draw g (length tids) = (i, g1)"
    and IH: "\<And>g r g' r' res. net_ok fp tm (run_net r) \<Longrightarrow> f g r = Some (Inr res, g', r') \<Longrightarrow> run_result fp env tm r res r'"
    and t: "map_of tm (tids ! i) = Some t"
    and f: "(case data t of
           Expression e \<Rightarrow>
             (case fire_expression fp env tm (tids ! i) t e r of
                (Inl err, r') \<Rightarrow> Some (Inl err, g1, r')
              | (Inr _, r') \<Rightarrow> f g1 r')
         | _ \<Rightarrow>
             (case on_net (extract_activity fp tm (tids ! i) t) r of
                (Inl err, r') \<Rightarrow> Some (Inl err, g1, r')
              | (Inr a, r') \<Rightarrow> Some (Inr (Some a), g1, r'))) = Some (Inr res, g', r')"
  shows "run_result fp env tm r res r'"
proof -
  have h: "tids ! i \<in> set tids" "highest fp tm (run_net r) (tids ! i) t" using drawn [OF ok e d] t by auto
  show ?thesis
  proof (cases "\<exists>ex. data t = Expression ex")
    case True
    then obtain ex where ex: "data t = Expression ex" by blast
    obtain x r1 where r1: "fire_expression fp env tm (tids ! i) t ex r = (x, r1)" by fastforce
    then obtain u where u: "x = Inr u" using f ex by (cases x) simp_all
    then have "run_result fp env tm r1 res r'" using IH [OF fire_expression_ok [OF ok(1) t]] f ex r1 by simp
    then show ?thesis by (rule run_result_step [OF e h(1) t ex r1 [unfolded u]])
  next
    case False
    obtain x r1 where r1: "on_net (extract_activity fp tm (tids ! i) t) r = (x, r1)" by fastforce
    have "(case x of Inl err \<Rightarrow> Some (Inl err, g1, r1) | Inr a \<Rightarrow> Some (Inr (Some a), g1, r1)) = Some (Inr res, g', r')"
      using f False r1 by (cases "data t") auto
    then obtain a where a: "x = Inr a" "res = Some a" "r1 = r'" by (cases x) auto
    have x: "on_net (extract_activity fp tm (tids ! i) t) r = (Inr a, r')" using r1 a by simp
    have "fires_expressions fp env tm r r" by (rule fires_expressions.none)
    then show ?thesis using h(2) False x extracted_id [OF x] unfolding run_result_def a(2) option.case by blast
  qed
qed

lemma run_result:
  fixes res :: "'m activity option"
  assumes "net_ok fp tm (run_net r)" and "draws draw"
    and "fire_expressions_and_extract_activity_random fp env draw tm g r = Some (Inr res, g', r')"
  shows "run_result fp env tm r res r'"
  using assms(3,1,2)
proof (induction fp env draw tm g r "(Inr res :: net_error + 'm activity option, g', r')" arbitrary: res g' r'
    rule: fire_expressions_and_extract_activity_random.raw_induct [rotated, consumes 1, case_names turn])
  case (turn f fp env draw tm g r res g' r')
  note ok = turn.prems
  show ?case
  proof (cases "enabled (run_net r)")
    case Nil
    then show ?thesis using turn.hyps(2) none_enabled [OF ok(1) Nil] by (auto simp: run_result_def intro: fires_expressions.none)
  next
    case (Cons x es)
    obtain q tids where e: "enabled (run_net r) = (q, tids) # es" using Cons by (cases x) simp
    obtain i g1 where d: "draw g (length tids) = (i, g1)" by fastforce
    obtain t where t: "map_of tm (tids ! i) = Some t" using drawn [OF ok e d] by blast
    show ?thesis
      by (rule run_result_turn [OF ok e d _ t, of "f fp env draw tm"]) (use turn.hyps ok e d t in auto)
  qed
qed

text \<open>
  C3: The loop that fires expressions and extracts an activity returns nothing only if no transition is enabled, and it
  returns an activity only of a transition that is no expression, is enabled and has the highest priority of
  all enabled transitions. Before that it has fired enabled expressions only, each of the highest priority.
\<close>

theorem run_correct:
  assumes "reachable fp env (Net (run_net r) tm)" and "draws draw"
    and "fire_expressions_and_extract_activity_random fp env draw tm g r = Some (Inr res, g', r')"
  shows "case res of
      None \<Rightarrow> fires_expressions fp env tm r r' \<and> (\<forall>tid t. map_of tm tid = Some t \<longrightarrow> \<not> transition_enabled fp (run_net r') tid (info t))
    | Some a \<Rightarrow> (\<exists>r1 tid t. fires_expressions fp env tm r r1 \<and> highest fp tm (run_net r1) tid t \<and> (\<forall>e. data t \<noteq> Expression e) \<and>
        activity_transition_id a = Some tid \<and> on_net (extract_activity fp tm tid t) r1 = (Inr a, r'))"
  using run_result [OF _ assms(2,3)] reachable_ok [OF assms(1)] by (simp add: run_result_def)

text \<open>
  Nets whose expressions make the number of tokens smaller: an expression has fewer outputs to places than places it
  consumes from and no output that puts many tokens.
\<close>

definition shrinking :: "'m tmap \<Rightarrow> net_state \<Rightarrow> bool" where
  "shrinking tm s \<longleftrightarrow> (\<forall>tid t e. map_of tm tid = Some t \<longrightarrow> data t = Expression e \<longrightarrow>
     (\<forall>k. port_many_to_place s tid k = None) \<and>
     length (filter (\<lambda>p. port_to_place s tid (fst p) \<noteq> None) (ports_output (info t))) < length (places_of tid (adj_pt_consume s)))"

lemma fire_shrinks:
  assumes ok: "net_ok fp tm (run_net r)" and sh: "shrinking tm (run_net r)" and t: "map_of tm tid = Some t" "data t = Expression e"
    and r: "fire_expression fp env tm tid t e r = (Inr u, r')"
  shows "total_tokens (run_net r') < total_tokens (run_net r) \<and> shrinking tm (run_net r')"
proof -
  have i: "net_inv fp tm {} {} (run_net r)" "places_ok (run_net r)" using ok by (simp_all add: net_ok_def)
  obtain f us where s: "net_step_ok fp tm (run_net r) (run_net r')" "fires (run_net r) tid f us (run_net r')"
      and us: "(\<forall>k. port_many_to_place (run_net r) tid k = None) \<longrightarrow>
      length us \<le> length (filter (\<lambda>p. port_to_place (run_net r) tid (fst p) \<noteq> None) (ports_output (info t)))"
    using fire_expression_spec [OF i t(1) r] by blast
  have top: "topology (run_net r') = topology (run_net r)" using s(1) by (simp add: net_step_ok_def)
  note same = topology_fields [OF top] wiring_spec(1) [OF topology_fields(1) [OF top]]
  have "length us < length (places_of tid (adj_pt_consume (run_net r)))"
    using us sh [unfolded shrinking_def, rule_format, OF t] by (meson le_less_trans)
  then have "total_tokens (run_net r') < total_tokens (run_net r)" using s(2) by (simp add: fires_def)
  then show ?thesis using sh unfolding shrinking_def same by blast
qed

lemma run_returns:
  assumes "net_ok fp tm (run_net r)" and "shrinking tm (run_net r)" and "draws draw"
  shows "\<exists>res. fire_expressions_and_extract_activity_random fp env draw tm g r = Some res"
  using assms(1,2)
proof (induction "total_tokens (run_net r)" arbitrary: g r rule: less_induct)
  case less
  note ok = less.prems(1)
  show ?case
  proof (cases "enabled (run_net r)")
    case Nil
    then show ?thesis by (subst fire_expressions_and_extract_activity_random.simps) simp
  next
    case (Cons x es)
    obtain q tids where e: "enabled (run_net r) = (q, tids) # es" using Cons by (cases x) simp
    obtain i g1 where d: "draw g (length tids) = (i, g1)" by fastforce
    obtain t where t: "map_of tm (tids ! i) = Some t" using drawn [OF ok assms(3) e d] by blast
    show ?thesis
    proof (cases "\<exists>ex. data t = Expression ex")
      case True
      then obtain ex where ex: "data t = Expression ex" by blast
      obtain x r1 where r1: "fire_expression fp env tm (tids ! i) t ex r = (x, r1)" by fastforce
      show ?thesis
      proof (cases x)
        case (Inl err)
        then show ?thesis by (subst fire_expressions_and_extract_activity_random.simps) (simp add: e d t ex r1)
      next
        case (Inr u)
        note s = fire_shrinks [OF ok less.prems(2) t ex r1 [unfolded Inr]]
        from less.hyps [OF conjunct1 [OF s] fire_expression_ok [OF ok t r1 [unfolded Inr]] conjunct2 [OF s], of g1]
        show ?thesis by (subst fire_expressions_and_extract_activity_random.simps) (simp add: e d t ex r1 Inr)
      qed
    next
      case False
      then show ?thesis
        by (subst fire_expressions_and_extract_activity_random.simps, cases "data t")
          (auto simp: e d t split: prod.split sum.split)
    qed
  qed
qed

text \<open>
  C4: The loop that fires expressions ends if every expression consumes more tokens than it can put: the call then
  returns, whatever is drawn at random.
\<close>

theorem run_terminates:
  assumes "reachable fp env (Net (run_net r) tm)" and "draws draw" and "shrinking tm (run_net r)"
  shows "\<exists>res. fire_expressions_and_extract_activity_random fp env draw tm g r = Some res"
  using run_returns [of fp tm r draw env g] reachable_ok [OF assms(1)] assms(2,3) by simp


definition keeps_tokens :: "(net_state, 'a) operation \<Rightarrow> bool" where
  "keeps_tokens m \<longleftrightarrow> (\<forall>s. token_by_place_id (snd (m s)) = token_by_place_id s)"

lemma keeps_tokens_then: "keeps_tokens m \<Longrightarrow> (\<And>x. keeps_tokens (f x)) \<Longrightarrow> keeps_tokens (op_then m f)"
  unfolding keeps_tokens_def op_then_def by (auto split: prod.split sum.split) (metis snd_conv)+

lemma keeps_tokens_simple:
  "keeps_tokens (op_return x)" "keeps_tokens (op_result q)" "keeps_tokens (op_get g)" "keeps_tokens (\<lambda>s. (h s, s))"
  "(\<And>s. token_by_place_id (k s) = token_by_place_id s) \<Longrightarrow> keeps_tokens (op_modify k)"
  by (simp_all add: keeps_tokens_def op_return_def op_result_def op_get_def op_modify_def)

lemma keeps_tokens_for_each: "(\<And>x. keeps_tokens (f x)) \<Longrightarrow> keeps_tokens (op_for_each f xs)"
  by (induction xs) (simp_all add: keeps_tokens_then keeps_tokens_simple)

lemma keeps_tokens_disable: "keeps_tokens (disable tm tid)"
  by (auto simp: disable_def intro!: keeps_tokens_then keeps_tokens_simple)

lemma keeps_tokens_refresh: "keeps_tokens (refresh_enabled fp tm tid toks)"
  by (auto simp: refresh_enabled_def decide_enabled_def intro!: keeps_tokens_then keeps_tokens_simple keeps_tokens_disable
      split: option.split prod.split)

lemma keeps_tokens_update: "keeps_tokens (do_update fp tm u)"
  by (auto simp: do_update_def update_enabled_put_token_def
      intro!: keeps_tokens_then keeps_tokens_simple keeps_tokens_for_each keeps_tokens_refresh)


section \<open>An example\<close>

definition example_port :: "string \<Rightarrow> port_direction \<Rightarrow> port" where
  "example_port name d = \<lparr>port_name = name, port_direction_of = d, port_signature = Sig_name ''bool'', associated_place = None,
     port_properties = property_empty\<rparr>"

definition example_place :: "string \<Rightarrow> place" where
  "example_place name = \<lparr>place_name = name, place_signature = Sig_name ''bool'', place_put_token = Some True, place_prop = property_empty\<rparr>"

definition example_condition :: expression where
  "example_condition = \<lparr>expression_text = ''${x}'', ast = [N_key [''x'']]\<rparr>"

definition example_info :: transition_info where
  "example_info = \<lparr>transition_name = ''t'', condition = Some example_condition, ports_input = [(0, example_port ''x'' PORT_IN)],
     ports_output = [], ports_tunnel = [], port_id_counter = 1, transition_prop = property_empty, requirements = [],
     preferences = [], priority = 0, eureka_id = None\<rparr>"

definition example_tmap :: "unit transition_data \<Rightarrow> unit tmap" where
  "example_tmap d = [(0, Transition example_info d)]"

definition example_state :: "unit transition_data \<Rightarrow> value_type list \<Rightarrow> net_state" where
  "example_state d vs =
     (let s1 = snd (add_place (example_place ''p'') empty_net_state);
          s2 = s1\<lparr>next_transition := 1\<rparr>;
          s3 = snd (add_connection fp_example (example_tmap d) PT 0 0 0 property_empty s2)
      in snd (op_for_each (put_value fp_example (example_tmap d) 0) vs s3))"


lemmas op_eval = op_then_def op_return_def op_throw_def op_get_def op_modify_def op_result_def at_def lift_expr_def

lemmas net_eval = example_state_def example_tmap_def example_info_def example_place_def example_port_def property_empty_def
  empty_net_state_def add_place_def add_connection_def update_enabled_def refresh_enabled_def condition_key_roots_def
  collect_slots_def places_of_def insert_adj_def decide_enabled_def disable_def enables_def put_value_def do_put_value_def
  do_update_def adjacent_def transitions_of_def update_enabled_put_token_def is_enabled_def with_new_token_def
  input_port_name_def cross_push_def write_to_def op_eval example_condition_def cross_context_def bind_slot_def bind_ref_def eval_all_def
  ev_then_def context_value_def empty_context_def

definition example_env :: "unit environment" where
  "example_env = \<lparr>parse_expression = (\<lambda>_. Inr []), workflow_response = (\<lambda>_ _ w. (Inr (), w)), eureka_response = (\<lambda>_ w. (Inr (), w)),
     plugin_construct = (\<lambda>_ _ _ w. (Inr (), w)), plugin_destruct = (\<lambda>_ w. w), plugin_before_eval = (\<lambda>_ _ w. (Inr (), w)),
     plugin_after_eval = (\<lambda>_ _ w. (Inr (), w))\<rparr>"

definition example_run :: "unit transition_data \<Rightarrow> unit run" where
  "example_run d = \<lparr>run_net = example_state d [V_bool False, V_bool True], run_plugins = \<lparr>next_plugin = 0, live_plugins = []\<rparr>, run_world = ()\<rparr>"

lemma reachable_puts:
  assumes "reachable fp env (Net s tm)" and "op_for_each (put_value fp tm pid) vs s = (Inr u, s')"
  shows "reachable fp env (Net s' tm)"
  using assms
proof (induction vs arbitrary: s)
  case (Cons v vs)
  then show ?case using reachable.put [OF Cons.prems(1)] by (auto simp: op_inv)
qed (simp add: op_inv)

lemma prod_Inr: "fst x = Inr a \<Longrightarrow> x = (Inr a, snd x)"
  by (cases x) simp

lemma reachable_example: "reachable fp_example env (Net (example_state d [V_bool False, V_bool True]) (example_tmap d))"
proof -
  let ?s1 = "snd (add_place (example_place ''p'') empty_net_state)"
  let ?s2 = "?s1\<lparr>next_transition := 1\<rparr>"
  let ?c = "add_connection fp_example (example_tmap d) PT 0 0 0 property_empty ?s2"
  let ?p = "op_for_each (put_value fp_example (example_tmap d) 0) [V_bool False, V_bool True] (snd ?c)"
  have "fst (add_place (example_place ''p'') empty_net_state) = Inr 0" by (simp add: net_eval)
  from reachable.place [OF reachable.empty, of "example_place ''p''" 0 ?s1] prod_Inr [OF this]
  have "reachable fp_example env (Net ?s1 [])" by simp
  from reachable.transition [OF this, of "Transition example_info d"]
  have 2: "reachable fp_example env (Net ?s2 (example_tmap d))"
    by (simp add: add_transition_def Let_def example_tmap_def net_eval)
  have "fst ?c = Inr ()" by (simp add: net_eval)
  from reachable.connection [OF 2, of PT 0 0 0 property_empty "()" "snd ?c"] prod_Inr [OF this]
  have 3: "reachable fp_example env (Net (snd ?c) (example_tmap d))" by simp
  have "fst ?p = Inr ()" by (simp add: net_eval enables_loop.simps)
  from reachable_puts [OF 3 prod_Inr [OF this]] show ?thesis by (simp only: example_state_def Let_def)
qed

theorem enabled_exact_witness:
  "is_enabled 0 0 (example_state (Module_call ()) [V_bool False, V_bool True]) \<and>
   transition_enabled fp_example (example_state (Module_call ()) [V_bool False, V_bool True]) 0 example_info"
proof -
  let ?d = "Module_call () :: unit transition_data"
  have e: "is_enabled 0 0 (example_state ?d [V_bool False, V_bool True])" by (simp add: net_eval enables_loop.simps)
  have m: "map_of (example_tmap ?d) 0 = Some (Transition example_info ?d)" by (simp add: example_tmap_def)
  have p: "priority example_info = 0" by (simp add: example_info_def)
  show ?thesis using enabled_exact [OF reachable_example [of example_env ?d], of 0 "Transition example_info ?d"] e m p by simp
qed

theorem extract_activity_refines_witness:
  "\<exists>a. fst (extract_activity fp_example (example_tmap (Module_call ())) 0 (Transition example_info (Module_call ()))
      (example_state (Module_call ()) [V_bool False, V_bool True])) = Inr a \<and>
    activity_input a = [(V_bool True, 0)] \<and> activity_transition_id a = Some 0"
proof -
  let ?d = "Module_call () :: unit transition_data"
  let ?t = "Transition example_info ?d" and ?s = "example_state ?d [V_bool False, V_bool True]"
  let ?e = "extract_activity fp_example (example_tmap ?d) 0 ?t ?s"
  obtain a where a: "fst ?e = Inr a" and i: "activity_input a = [(V_bool True, 0)]"
    by (simp add: extract_activity_def do_extract_def add_input_def make_activity_def do_delete_def erase_token_def recheck_def
        net_eval enables_loop.simps)
  have m: "map_of (example_tmap ?d) 0 = Some ?t" by (simp add: example_tmap_def)
  show ?thesis
    using extract_activity_refines [OF reachable_example [of example_env ?d], of 0 ?t a "snd ?e"] prod_Inr [OF a] a i m by auto
qed

theorem run_correct_witness:
  "\<exists>a r'. fire_expressions_and_extract_activity_random fp_example example_env (\<lambda>g k. (0, g)) (example_tmap (Module_call ())) ()
      (example_run (Module_call ())) = Some (Inr (Some a), (), r') \<and> activity_transition_id a = Some 0"
proof -
  let ?d = "Module_call () :: unit transition_data"
  let ?t = "Transition example_info ?d" and ?r = "example_run ?d" and ?draw = "\<lambda>(g :: unit) (k :: nat). (0 :: nat, g)"
  let ?e = "extract_activity fp_example (example_tmap ?d) 0 ?t (run_net ?r)"
  obtain a where a: "fst ?e = Inr a"
    by (simp add: example_run_def extract_activity_def do_extract_def add_input_def make_activity_def do_delete_def erase_token_def recheck_def
        net_eval enables_loop.simps)
  have en: "enabled (run_net ?r) = [(0, [0])]" by (simp add: example_run_def net_eval enables_loop.simps)
  have m: "map_of (example_tmap ?d) 0 = Some ?t" by (simp add: example_tmap_def)
  have on: "on_net (extract_activity fp_example (example_tmap ?d) 0 ?t) ?r = (Inr a, ?r\<lparr>run_net := snd ?e\<rparr>)"
    unfolding on_net_Inr using prod_Inr [OF a] by blast
  have run: "fire_expressions_and_extract_activity_random fp_example example_env ?draw (example_tmap ?d) () ?r =
      Some (Inr (Some a), (), ?r\<lparr>run_net := snd ?e\<rparr>)"
    by (subst fire_expressions_and_extract_activity_random.simps) (simp add: en m on)
  have d: "draws ?draw" by (simp add: draws_def)
  have "reachable fp_example example_env (Net (run_net ?r) (example_tmap ?d))"
    using reachable_example [of example_env ?d] by (simp add: example_run_def)
  from run_correct [OF this d run] obtain tid t r1 where t: "activity_transition_id a = Some tid" "map_of (example_tmap ?d) tid = Some t"
    by (auto simp: highest_def)
  then have "tid = 0" by (simp add: example_tmap_def split: if_splits)
  then show ?thesis using run t by blast
qed

theorem run_terminates_witness:
  "\<exists>res. fire_expressions_and_extract_activity_random fp_example example_env (\<lambda>g k. (0, g)) (example_tmap (Expression example_condition)) ()
      (example_run (Expression example_condition)) = Some res"
proof -
  let ?d = "Expression example_condition :: unit transition_data" and ?draw = "\<lambda>(g :: unit) (k :: nat). (0 :: nat, g)"
  have d: "draws ?draw" by (simp add: draws_def)
  have s: "shrinking (example_tmap ?d) (run_net (example_run ?d))"
    by (simp add: shrinking_def example_run_def net_eval enables_loop.simps)
  have "reachable fp_example example_env (Net (run_net (example_run ?d)) (example_tmap ?d))"
    using reachable_example [of example_env ?d] by (simp add: example_run_def)
  from run_terminates [OF this d s] show ?thesis by simp
qed


end
