(* ===== verification/Spec2Isabelle.thy ===== *)
theory Spec2Isabelle
  imports Dtmmgr Simplify Net_Properties
begin

text \<open>
  \<^bold>\<open>A verification of the workflow engine and the memory manager of GPI-Space.\<close>

  GPI-Space runs workflows that are described by Petri nets. The workflow engine (\<^verbatim>\<open>src/we\<close>) keeps a net whose places
  hold tokens, finds the transitions that are enabled, and either evaluates their expression itself or hands them out as
  activities, which a distributed scheduler sends to workers; their results are injected into the net again. Conditions
  and expressions are written in a small language over structured values. Data that is too large for tokens is kept in a
  virtual memory, whose segments are administrated by the memory manager (\<^verbatim>\<open>src/mmgr\<close>).

  \<^bold>\<open>The theories and the code they model.\<close>

  \<^item> \<^verbatim>\<open>Prelude\<close>: words of 64 and 32 bits, results that may be exceptions.
  \<^item> \<^verbatim>\<open>Tmmgr\<close>: the memory manager of one arena (\<^verbatim>\<open>src/mmgr/tmmgr.cpp\<close>): the record \<open>tmmgr\<close> has the fields of the
    class, \<open>alloc\<close>, \<open>free\<close> and \<open>resize\<close> are its operations. \<^verbatim>\<open>Segments\<close> views the memory as a sequence of free and used
    segments, \<^verbatim>\<open>Tmmgr_Invariant\<close> shows that all operations keep the indexes of the free segments consistent with it, and
    \<^verbatim>\<open>Tmmgr_Properties\<close> has the statements about the operations: exact conditions for errors, best fit, exact effect, free
    after alloc is the identity, blocks are disjoint.
  \<^item> \<^verbatim>\<open>Dtmmgr\<close>: the manager with two arenas that grow towards each other (\<^verbatim>\<open>src/mmgr/dtmmgr.cpp\<close>). What it needs of one
    arena is the locale \<open>resizable_arena\<close>, interpreted on the operations of \<^verbatim>\<open>Tmmgr\<close>.
  \<^item> \<^verbatim>\<open>BitSet\<close>: sets of integers as vectors of bits (\<^verbatim>\<open>src/we/type/bitsetofint.cpp\<close>): every operation against the set of
    the members, the bit-parallel count, the hexadecimal representation and its reader.
  \<^item> \<^verbatim>\<open>Value\<close>: the values of tokens (\<^verbatim>\<open>src/we/type/value.hpp\<close> and the directory \<^verbatim>\<open>value\<close>), their order, access along
    paths, names of types, signatures and type checking. The locale \<open>strict_weak_order\<close> has the laws of the ordered
    containers, it is interpreted on the order of values.
  \<^item> \<^verbatim>\<open>Token\<close>, \<^verbatim>\<open>Function\<close>, \<^verbatim>\<open>Expr\<close>: the operators of the expression language (\<^verbatim>\<open>src/we/expr/token\<close>), what they
    compute on values (\<^verbatim>\<open>src/we/type/value/function.cpp\<close>), the contexts and the evaluation of syntax trees
    (\<^verbatim>\<open>src/we/expr/eval\<close>, \<^verbatim>\<open>src/we/expr/parse/node.cpp\<close>, \<^verbatim>\<open>parser.cpp\<close>).
  \<^item> \<^verbatim>\<open>Simplify\<close>: constant propagation, copy propagation and dead code elimination (\<^verbatim>\<open>src/we/expr/parse/simplify\<close>). The
    locale \<open>propagation\<close> has the common part of the first two and is interpreted on both. The theorem on the limits shows
    programs that the simplifications change when the conditions of the correctness theorems do not hold.
  \<^item> \<^verbatim>\<open>Net\<close>: Petri nets (\<^verbatim>\<open>src/we/type/net.cpp\<close>): places, transitions, connections and tokens, the search for a combination
    of tokens that satisfies the condition of a transition, the incremental update of the enabled transitions when tokens
    come and go, the extraction of activities (\<^verbatim>\<open>src/we/type/activity.cpp\<close>). \<^verbatim>\<open>Net_Run\<close>: the loop that fires expressions
    until an activity is found, the table of plugins (\<^verbatim>\<open>src/we/plugin/Plugins.cpp\<close>) and the injection of results.
  \<^item> \<^verbatim>\<open>Net_Search\<close> relates the search with stepping iterators to the search through the list of all combinations;
    \<^verbatim>\<open>Net_Enabled\<close> and \<^verbatim>\<open>Net_Invariant\<close> show that every update keeps the recorded transitions exact; \<^verbatim>\<open>Net_Fire\<close> follows
    the tokens through one firing; \<^verbatim>\<open>Net_Reach\<close> has the nets that can be built and run as an inductive predicate, with
    the invariant by rule induction; \<^verbatim>\<open>Net_Properties\<close> has the statements about nets: exactness, refinement of the
    abstract firing rule on markings, correctness, termination and progress of the loop.

  \<^bold>\<open>How the models are made.\<close> A class is a record, its methods are functions from a state to a result and a new state;
  an exception is a value of a sum type, and where the code leaves a partly changed state behind, so does the model.
  Integers have the width of the code and wrap around; identifiers that only count up are natural numbers. Assertions
  are compiled in or not: an argument. Undefined behaviour is an error of its own. Hash tables are functions or lists,
  and the order in which the code visits them, which the standard leaves open, is the order of insertion. The floating
  point operations, the parser as seen from plugins, the plugins, the callbacks of the engine and the random numbers are
  parameters. Loops are recursive functions with a measure; only the loop over expressions may run
  forever and is a partial function whose value is \<^const>\<open>None\<close> then. There is no fuel.

  \<^bold>\<open>Not modelled.\<close> The threads of the engine that execute activities (\<^verbatim>\<open>src/we/layer.cpp\<close>), the scheduler
  (\<^verbatim>\<open>src/sdpa\<close>), the daemons of the virtual memory (\<^verbatim>\<open>src/gpi-space\<close>, \<^verbatim>\<open>src/vmem\<close>) and the network layers
  (\<^verbatim>\<open>src/rpc\<close>, \<^verbatim>\<open>src/fhgcom\<close>, \<^verbatim>\<open>src/rif\<close>, \<^verbatim>\<open>src/logging\<close>, \<^verbatim>\<open>src/drts\<close>) exchange messages between processes and call
  operating system and communication libraries. The tokenizer and the parser of expressions and the compiler from XML
  (\<^verbatim>\<open>src/xml\<close>) are not covered: the models start with syntax trees. Printing, serialization, the graphical tools and the
  command line programs are left out as well.
\<close>

end
